(* ===== verification/Prelude.thy ===== *)
theory Prelude
  imports Complex_Main "HOL-Library.AList" "HOL-Library.Char_ord" "HOL-Library.List_Lexorder"
begin

text \<open>
  The vocabulary the components share: the exceptions of Python as values, the insertion-ordered
  dictionaries, list indexing with its exception, decimal printing, a generic event machine,
  and the collections the component proofs simplify with.

  A Python \<open>dict\<close> is an association list with distinct keys. \<open>AList.update\<close> replaces
  the value of a present key where it stands and appends a new key at the end, which is the
  insertion order Python iterates in; \<open>AList.delete\<close> removes the entry. A Python
  \<open>str\<close> is the \<open>string\<close> of its UTF-8 bytes, so \<open>s.encode()\<close> is the list itself.
\<close>

named_theorems machine_inv \<comment> \<open>one-step preservation facts of the state machines\<close>

section \<open>Exceptions\<close>

datatype py_error = IndexError | KeyError | ZeroDivisionError | ValueError | AttributeError

type_synonym 'a py = "py_error + 'a"

definition bind_py :: "'e + 'a \<Rightarrow> ('a \<Rightarrow> 'e + 'b) \<Rightarrow> 'e + 'b" where
  "bind_py r f = (case r of Inl e \<Rightarrow> Inl e | Inr a \<Rightarrow> f a)"

lemma bind_py_simps [simp]:
  "bind_py (Inl e) f = Inl e"
  "bind_py (Inr a) f = f a"
  by (simp_all add: bind_py_def)

lemma bind_py_Inr_iff:
  "bind_py r f = Inr b \<longleftrightarrow> (\<exists>a. r = Inr a \<and> f a = Inr b)"
  by (cases r) simp_all

text \<open>A loop whose body may raise, over a list: collecting results, or threading a state.\<close>

fun map_py :: "('a \<Rightarrow> 'e + 'b) \<Rightarrow> 'a list \<Rightarrow> 'e + 'b list" where
  "map_py f [] = Inr []"
| "map_py f (x # xs) = bind_py (f x) (\<lambda>y. bind_py (map_py f xs) (\<lambda>ys. Inr (y # ys)))"

fun fold_py :: "('a \<Rightarrow> 's \<Rightarrow> 'e + 's) \<Rightarrow> 'a list \<Rightarrow> 's \<Rightarrow> 'e + 's" where
  "fold_py f [] s = Inr s"
| "fold_py f (x # xs) s = bind_py (f x s) (fold_py f xs)"

lemma map_py_Inr: "(\<And>x. x \<in> set xs \<Longrightarrow> f x = Inr (g x)) \<Longrightarrow> map_py f xs = Inr (map g xs)"
  by (induction xs) simp_all

lemma fold_py_append: "fold_py f (xs @ ys) s = bind_py (fold_py f xs s) (fold_py f ys)"
  by (induction xs arbitrary: s) (simp_all add: bind_py_def split: sum.split)

text \<open>Indexing with a non-negative index raises past the end; \<open>d[k]\<close> raises on a missing key.\<close>

definition py_index :: "'a list \<Rightarrow> nat \<Rightarrow> 'a py" where
  "py_index xs i = (if i < length xs then Inr (xs ! i) else Inl IndexError)"

definition dict_item :: "('k \<times> 'v) list \<Rightarrow> 'k \<Rightarrow> 'v py" where
  "dict_item d k = (case map_of d k of None \<Rightarrow> Inl KeyError | Some v \<Rightarrow> Inr v)"

definition dict_get :: "('k \<times> 'v) list \<Rightarrow> 'k \<Rightarrow> 'v \<Rightarrow> 'v" where
  "dict_get d k dflt = (case map_of d k of None \<Rightarrow> dflt | Some v \<Rightarrow> v)"

lemma py_index_simps [simp]:
  "i < length xs \<Longrightarrow> py_index xs i = Inr (xs ! i)"
  "\<not> i < length xs \<Longrightarrow> py_index xs i = Inl IndexError"
  by (simp_all add: py_index_def)

lemma dict_item_simps [simp]:
  "map_of d k = Some v \<Longrightarrow> dict_item d k = Inr v"
  "map_of d k = None \<Longrightarrow> dict_item d k = Inl KeyError"
  by (simp_all add: dict_item_def)

lemma dict_get_simps [simp]:
  "map_of d k = Some v \<Longrightarrow> dict_get d k dflt = v"
  "map_of d k = None \<Longrightarrow> dict_get d k dflt = dflt"
  by (simp_all add: dict_get_def)

section \<open>Dictionaries\<close>

abbreviation keys_of :: "('k \<times> 'v) list \<Rightarrow> 'k list" where
  "keys_of d \<equiv> map fst d"

text \<open>What the components rely on of a dictionary, and loops that store or delete.\<close>

locale dictionary =
  fixes lookup :: "'d \<Rightarrow> 'k \<Rightarrow> 'v option"
    and put :: "'k \<Rightarrow> 'v \<Rightarrow> 'd \<Rightarrow> 'd"
    and del :: "'k \<Rightarrow> 'd \<Rightarrow> 'd"
  assumes lookup_put: "lookup (put k v d) = (lookup d)(k \<mapsto> v)"
    and lookup_del: "lookup (del k d) = (lookup d)(k := None)"
begin

lemma lookup_fold_put:
  "lookup (fold (\<lambda>x. put (f x) v) xs d) k = (if k \<in> f ` set xs then Some v else lookup d k)"
  by (induction xs arbitrary: d) (auto simp: lookup_put)

lemma lookup_fold_del:
  "lookup (fold del ks d) k = (if k \<in> set ks then None else lookup d k)"
  by (induction ks arbitrary: d) (auto simp: lookup_del)

lemma dom_fold_put:
  "dom (lookup (fold (\<lambda>x. put (f x) v) xs d)) = f ` set xs \<union> dom (lookup d)"
  by (auto simp: lookup_fold_put dom_def split: if_splits)

lemma put_del_id:
  "lookup d k = None \<Longrightarrow> lookup (del k (put k v d)) = lookup d"
  by (auto simp: lookup_put lookup_del)

end

text \<open>A dictionary that also fixes the order in which its keys are iterated.\<close>

locale ordered_dictionary = dictionary lookup put del
  for lookup :: "'d \<Rightarrow> 'k \<Rightarrow> 'v option"
    and put :: "'k \<Rightarrow> 'v \<Rightarrow> 'd \<Rightarrow> 'd"
    and del :: "'k \<Rightarrow> 'd \<Rightarrow> 'd" +
  fixes order :: "'d \<Rightarrow> 'k list"
  assumes order_put: "order (put k v d) = (if k \<in> set (order d) then order d else order d @ [k])"
    and order_del: "order (del k d) = removeAll k (order d)"
begin

lemma distinct_put: "distinct (order d) \<Longrightarrow> distinct (order (put k v d))"
  by (simp add: order_put)

lemma distinct_del: "distinct (order d) \<Longrightarrow> distinct (order (del k d))"
  by (simp add: order_del distinct_removeAll)

lemma distinct_fold_put:
  "distinct (order d) \<Longrightarrow> distinct (order (fold (\<lambda>x. put (f x) (g x)) xs d))"
  by (induction xs arbitrary: d) (simp_all add: distinct_put)

lemma distinct_fold_del: "distinct (order d) \<Longrightarrow> distinct (order (fold del ks d))"
  by (induction ks arbitrary: d) (simp_all add: distinct_del)

end

interpretation alist: ordered_dictionary map_of AList.update AList.delete keys_of
  by unfold_locales (simp_all add: update_conv' delete_conv' update_keys delete_keys)

lemmas dict_maps = alist.lookup_put alist.lookup_del alist.lookup_fold_put alist.lookup_fold_del

lemmas dict_distinct =
  alist.distinct_put alist.distinct_del alist.distinct_fold_put alist.distinct_fold_del

lemma dom_map_of: "dom (map_of d) = set (keys_of d)"
  by (simp add: dom_map_of_conv_image_fst)

lemma map_of_Some_iff:
  "distinct (keys_of d) \<Longrightarrow> map_of d k = Some v \<longleftrightarrow> (k, v) \<in> set d"
  by simp

lemma map_of_eq_None: "map_of d k = None \<longleftrightarrow> k \<notin> set (keys_of d)"
  by (simp add: map_of_eq_None_iff)

lemma set_filter_eq: "set (List.filter P xs) = {x \<in> set xs. P x}"
  by auto

section \<open>First occurrences\<close>

text \<open>The distinct elements of a list in the order they first occur.\<close>

fun nub :: "'a list \<Rightarrow> 'a list" where
  "nub [] = []"
| "nub (x # xs) = x # nub (filter (\<lambda>y. y \<noteq> x) xs)"

lemma set_nub [simp]: "set (nub xs) = set xs"
  by (induction xs rule: nub.induct) auto

lemma distinct_nub [simp]: "distinct (nub xs)"
  by (induction xs rule: nub.induct) auto

lemma nub_distinct: "distinct xs \<Longrightarrow> nub xs = xs"
proof (induction xs)
  case (Cons x xs)
  then have "filter (\<lambda>y. y \<noteq> x) xs = xs" by (intro filter_True) auto
  with Cons show ?case by simp
qed simp

lemma length_nub: "length (nub xs) = card (set xs)"
  by (metis distinct_card distinct_nub set_nub)

lemma nub_eq_Nil_iff [simp]: "nub xs = [] \<longleftrightarrow> xs = []"
  by (cases xs) simp_all

lemma hd_nub [simp]: "xs \<noteq> [] \<Longrightarrow> hd (nub xs) = hd xs"
  by (cases xs) simp_all

lemma filter_nub: "filter P (nub xs) = nub (filter P xs)"
proof (induction xs rule: nub.induct)
  case (2 x xs)
  have "\<not> P x \<Longrightarrow> filter (\<lambda>y. P y \<and> y \<noteq> x) xs = filter P xs" by (rule filter_cong) auto
  with 2 show ?case by (simp add: conj_commute)
qed simp

lemma set_take_subset_trans: "set xs \<subseteq> A \<Longrightarrow> set (take n xs) \<subseteq> A"
  using set_take_subset by fast

section \<open>Decimal printing\<close>

text \<open>\<open>str(n)\<close> of a non-negative integer, as an f-string prints it.\<close>

definition digit_char :: "nat \<Rightarrow> char" where
  "digit_char d = char_of (48 + d)"

fun str_nat :: "nat \<Rightarrow> string" where
  "str_nat n = (if n < 10 then [digit_char n] else str_nat (n div 10) @ [digit_char (n mod 10)])"

declare str_nat.simps [simp del]

definition digit_value :: "char \<Rightarrow> nat" where
  "digit_value c = of_char c - 48"

definition parse_nat :: "string \<Rightarrow> nat" where
  "parse_nat s = foldl (\<lambda>n c. 10 * n + digit_value c) 0 s"

lemma digit_value_char: "d < 10 \<Longrightarrow> digit_value (digit_char d) = d"
  by (simp add: digit_value_def digit_char_def of_char_of)

lemma parse_str_nat: "parse_nat (str_nat n) = n"
proof (induction n rule: str_nat.induct)
  case (1 n)
  show ?case
  proof (cases "n < 10")
    case True
    then show ?thesis by (simp add: str_nat.simps [of n] parse_nat_def digit_value_char)
  next
    case False
    with "1.IH" show ?thesis
      by (simp add: str_nat.simps [of n] parse_nat_def digit_value_char)
  qed
qed

lemma str_nat_inj: "str_nat m = str_nat n \<Longrightarrow> m = n"
  by (metis parse_str_nat)

lemma str_nat_digits: "c \<in> set (str_nat n) \<Longrightarrow> \<exists>d < 10. c = digit_char d"
proof (induction n rule: str_nat.induct)
  case (1 n)
  show ?case
  proof (cases "n < 10")
    case True
    with "1.prems" show ?thesis by (auto simp: str_nat.simps [of n])
  next
    case False
    with "1.prems" consider "c \<in> set (str_nat (n div 10))" | "c = digit_char (n mod 10)"
      by (auto simp: str_nat.simps [of n])
    then show ?thesis
    proof cases
      case 1
      with "1.IH" False show ?thesis by simp
    next
      case 2
      then show ?thesis by (intro exI [of _ "n mod 10"]) simp
    qed
  qed
qed

lemma digit_char_range: "d < 10 \<Longrightarrow> of_char (digit_char d) = 48 + d"
  by (simp add: digit_char_def of_char_of)

section \<open>Event machines\<close>

text \<open>
  A deterministic component reacts to a sequence of events. What one step keeps, a run keeps.
\<close>

locale event_machine =
  fixes step :: "'s \<Rightarrow> 'e \<Rightarrow> 's"
    and inv :: "'s \<Rightarrow> bool"
  assumes inv_step: "inv s \<Longrightarrow> inv (step s e)"
begin

lemma inv_run: "inv s \<Longrightarrow> inv (foldl step s es)"
  by (induction es arbitrary: s) (simp_all add: inv_step)

lemma inv_prefix: "inv s \<Longrightarrow> inv (foldl step s (take k es))"
  by (rule inv_run)

end

end
