(* ===== verification/Float64.thy ===== *)
theory Float64
  imports Prelude "HOL-Library.Log_Nat"
begin

text \<open>
  The floating-point arithmetic of Python: a \<open>float\<close> is the rational number it denotes, and
  every operation computes the exact result and rounds it to 53 significant bits, ties to the
  even significand, as IEEE 754 doubles do. The exponent range is unbounded here: overflow,
  subnormal numbers, infinities and NaN are not modelled (the program's times, latencies and
  ratios stay far from them).

  The interface \<open>rounding\<close> is what the components rely on of the arithmetic; it is
  interpreted on the rounding function \<open>fl\<close> defined here.
\<close>

type_synonym time = rat \<comment> \<open>a reading of \<open>time.time()\<close>, in seconds\<close>

section \<open>Rounding to an integer, ties to even\<close>

definition round_half_even :: "rat \<Rightarrow> int" where
  "round_half_even x =
     (let f = \<lfloor>x\<rfloor>; d = x - of_int f
      in if d < 1/2 then f else if 1/2 < d then f + 1 else if even f then f else f + 1)"

lemma round_half_even_cases: "round_half_even x = \<lfloor>x\<rfloor> \<or> round_half_even x = \<lfloor>x\<rfloor> + 1"
  by (simp add: round_half_even_def Let_def)

lemma round_half_even_int [simp]: "round_half_even (of_int n) = n"
  by (simp add: round_half_even_def)

lemma round_half_even_error: "\<bar>of_int (round_half_even x) - x\<bar> \<le> 1/2"
proof -
  have "of_int \<lfloor>x\<rfloor> \<le> x" and "x < of_int \<lfloor>x\<rfloor> + 1" by linarith+
  then show ?thesis by (auto simp: round_half_even_def Let_def abs_le_iff)
qed

lemma round_half_even_mono: "x \<le> y \<Longrightarrow> round_half_even x \<le> round_half_even y"
proof -
  assume le: "x \<le> y"
  then have fl: "\<lfloor>x\<rfloor> \<le> \<lfloor>y\<rfloor>" by (rule floor_mono)
  show ?thesis
  proof (cases "\<lfloor>x\<rfloor> = \<lfloor>y\<rfloor>")
    case True
    with le show ?thesis by (auto simp: round_half_even_def Let_def)
  next
    case False
    with fl have "\<lfloor>x\<rfloor> + 1 \<le> \<lfloor>y\<rfloor>" by simp
    with round_half_even_cases [of x] round_half_even_cases [of y] show ?thesis by linarith
  qed
qed

lemma round_half_even_minus: "round_half_even (- x) = - round_half_even x"
proof (cases "x = of_int \<lfloor>x\<rfloor>")
  case True
  then show ?thesis by (metis of_int_minus round_half_even_int)
next
  case False
  have "\<lfloor>- x\<rfloor> = - \<lfloor>x\<rfloor> - 1" using False by linarith
  then show ?thesis by (auto simp: round_half_even_def Let_def)
qed

section \<open>The binade of a positive number\<close>

definition binade :: "rat \<Rightarrow> int" where
  "binade x = (if 1 \<le> x then int (floorlog 2 (nat \<lfloor>x\<rfloor>)) - 1
               else - int (floorlog 2 (nat (\<lceil>1 / x\<rceil> - 1))))"

lemma binade_bounds:
  assumes "0 < x"
  shows "2 powi binade x \<le> x \<and> x < 2 powi (binade x + 1)"
proof (cases "1 \<le> x")
  case True
  define n where "n = nat \<lfloor>x\<rfloor>"
  have n: "0 < n" and nx: "of_nat n \<le> x" "x < of_nat n + 1"
    using True by (simp_all add: n_def) linarith+
  define k where "k = floorlog 2 n"
  have k: "2 ^ (k - 1) \<le> n" "n < 2 ^ k" using floorlog_bounds [of n 2] n by (auto simp: k_def)
  have "0 < k" using k n by (cases k) auto
  then have b: "binade x = int (k - 1)" and b1: "binade x + 1 = int k"
    using True by (simp_all add: binade_def n_def k_def)
  have "(2::rat) ^ (k - 1) \<le> of_nat n" using k(1) by (metis of_nat_le_iff of_nat_numeral of_nat_power)
  moreover have "of_nat n + 1 \<le> (2::rat) ^ k"
    using k(2) by (metis Suc_leI of_nat_Suc of_nat_le_iff of_nat_numeral of_nat_power add.commute)
  ultimately have "2 ^ (k - 1) \<le> x" and "x < 2 ^ k" using nx by linarith+
  then show ?thesis unfolding b1 unfolding b by (simp only: power_int_of_nat)
next
  case False
  define n where "n = nat (\<lceil>1 / x\<rceil> - 1)"
  have "1 < 1 / x" using False assms by simp
  then have n: "0 < n" and nx: "of_nat n < 1 / x" "1 / x \<le> of_nat n + 1"
    by (simp_all add: n_def) linarith+
  define k where "k = floorlog 2 n"
  have k: "2 ^ (k - 1) \<le> n" "n < 2 ^ k" using floorlog_bounds [of n 2] n by (auto simp: k_def)
  have k0: "0 < k" using k n by (cases k) auto
  have b: "binade x = - int k" and b1: "binade x + 1 = - int (k - 1)"
    using False k0 by (simp_all add: binade_def n_def k_def)
  have "of_nat n + 1 \<le> (2::rat) ^ k"
    using k(2) by (metis Suc_leI of_nat_Suc of_nat_le_iff of_nat_numeral of_nat_power add.commute)
  with nx have "1 / x \<le> 2 ^ k" by linarith
  moreover have "(2::rat) ^ (k - 1) \<le> of_nat n" using k(1) by (metis of_nat_le_iff of_nat_numeral of_nat_power)
  with nx have "2 ^ (k - 1) < 1 / x" by linarith
  ultimately have "1 \<le> 2 ^ k * x" and "2 ^ (k - 1) * x < 1"
    using assms by (simp_all add: field_simps)
  then show ?thesis
    unfolding b1 unfolding b by (simp add: power_int_minus power_int_of_nat field_simps)
qed

lemma powi_le: "i \<le> j \<Longrightarrow> (2::rat) powi i \<le> 2 powi j"
  by (rule power_int_increasing) auto

lemma powi_less_D: "(2::rat) powi i < 2 powi j \<Longrightarrow> i < j"
  using powi_le [of j i] by linarith

lemma powi_pos [simp]: "0 < (2::rat) powi i"
  by (simp add: zero_less_power_int)

lemma binade_mono: "0 < x \<Longrightarrow> x \<le> y \<Longrightarrow> binade x \<le> binade y"
  using binade_bounds [of x] binade_bounds [of y] powi_less_D [of "binade x" "binade y + 1"]
  by linarith

section \<open>Rounding to a double\<close>

definition ulp :: "rat \<Rightarrow> rat" where
  "ulp x = 2 powi (binade \<bar>x\<bar> - 52)"

definition fl :: "rat \<Rightarrow> rat" where
  "fl x = (if x = 0 then 0 else of_int (round_half_even (x / ulp x)) * ulp x)"

lemma ulp_pos [simp]: "0 < ulp x"
  by (simp add: ulp_def)

lemma ulp_nonzero [simp]: "ulp x \<noteq> 0"
  using ulp_pos [of x] by linarith

lemma ulp_minus [simp]: "ulp (- x) = ulp x"
  by (simp add: ulp_def)

lemma fl_0 [simp]: "fl 0 = 0"
  by (simp add: fl_def)

lemma fl_minus: "fl (- x) = - fl x"
  by (simp add: fl_def round_half_even_minus)

lemma ulp_scale: "2 powi binade \<bar>x\<bar> = 2 ^ 52 * ulp x"
proof -
  have "(2::rat) powi (52 + (binade \<bar>x\<bar> - 52)) = 2 powi 52 * 2 powi (binade \<bar>x\<bar> - 52)"
    by (rule power_int_add) simp
  then show ?thesis by (simp add: ulp_def)
qed

lemma binade_ulp: "x \<noteq> 0 \<Longrightarrow> 2 ^ 52 * ulp x \<le> \<bar>x\<bar> \<and> \<bar>x\<bar> < 2 ^ 53 * ulp x"
proof -
  assume "x \<noteq> 0"
  then have "2 powi binade \<bar>x\<bar> \<le> \<bar>x\<bar> \<and> \<bar>x\<bar> < 2 powi (binade \<bar>x\<bar> + 1)"
    by (intro binade_bounds) simp
  then show ?thesis by (simp add: power_int_add ulp_scale)
qed

lemma fl_error: "\<bar>fl x - x\<bar> \<le> \<bar>x\<bar> / 2 ^ 53"
proof (cases "x = 0")
  case False
  have "fl x - x = (of_int (round_half_even (x / ulp x)) - x / ulp x) * ulp x"
    using False by (simp add: fl_def left_diff_distrib)
  then have "\<bar>fl x - x\<bar> = \<bar>of_int (round_half_even (x / ulp x)) - x / ulp x\<bar> * ulp x"
    by (simp add: abs_mult less_imp_le)
  also have "\<dots> \<le> 1/2 * ulp x"
    by (intro mult_right_mono round_half_even_error) (simp add: less_imp_le)
  also have "\<dots> \<le> \<bar>x\<bar> / 2 ^ 53" using binade_ulp [OF False] by simp
  finally show ?thesis .
qed simp

text \<open>Numbers with at most 53 significant bits are doubles: they round to themselves.\<close>

lemma fl_short:
  assumes m: "\<bar>m\<bar> < 2 ^ 53" and x: "x = of_int m * 2 powi k"
  shows "fl x = x"
proof (cases "x = 0")
  case False
  have "\<bar>x\<bar> = of_int \<bar>m\<bar> * 2 powi k" by (simp add: x abs_mult)
  also have "\<dots> < 2 ^ 53 * 2 powi k"
    using m by (intro mult_strict_right_mono) (simp_all flip: of_int_less_iff)
  also have "\<dots> = 2 powi (53 + k)" by (simp add: power_int_add)
  finally have "2 powi binade \<bar>x\<bar> < (2::rat) powi (53 + k)"
    using binade_bounds [of "\<bar>x\<bar>"] False by simp
  then have "binade \<bar>x\<bar> < 53 + k" by (rule powi_less_D)
  then have "k = (binade \<bar>x\<bar> - 52) + int (nat (k - (binade \<bar>x\<bar> - 52)))" by simp
  then obtain j where j: "k = (binade \<bar>x\<bar> - 52) + int j" by blast
  have "(2::rat) powi k = ulp x * 2 ^ j"
    unfolding ulp_def by (subst j) (simp add: power_int_add power_int_of_nat)
  then have "x = of_int (m * 2 ^ j) * ulp x" by (subst x) simp
  then have "x / ulp x = of_int (m * 2 ^ j)" by (metis nonzero_mult_div_cancel_right ulp_nonzero)
  then have "fl x = of_int (m * 2 ^ j) * ulp x"
    using False by (simp add: fl_def del: of_int_mult of_int_power)
  also have "\<dots> = x" using \<open>x / ulp x = of_int (m * 2 ^ j)\<close> by (simp add: field_simps)
  finally show ?thesis .
qed simp

lemma fl_grid:
  assumes m: "\<bar>m\<bar> \<le> 2 ^ 53" and x: "x = of_int m * 2 powi k"
  shows "fl x = x"
proof (cases "\<bar>m\<bar> < 2 ^ 53")
  case True
  then show ?thesis using x by (rule fl_short)
next
  case False
  with m have "m = 2 ^ 53 \<or> m = - (2 ^ 53)" by linarith
  then have "x = of_int (m div 2) * 2 powi (k + 1)" and "\<bar>m div 2\<bar> < 2 ^ 53"
    by (auto simp: x power_int_add)
  then show ?thesis by (intro fl_short)
qed

lemma fl_of_int: "\<bar>n\<bar> \<le> 2 ^ 53 \<Longrightarrow> fl (of_int n) = of_int n"
  by (rule fl_grid [of n _ 0]) simp_all

lemma fl_is_grid: "\<exists>m k. \<bar>m\<bar> \<le> 2 ^ 53 \<and> fl x = of_int m * 2 powi k"
proof (cases "x = 0")
  case True
  then show ?thesis by (intro exI [of _ 0]) simp
next
  case False
  define q where "q = round_half_even (\<bar>x\<bar> / ulp x)"
  have "\<bar>x\<bar> / ulp x \<le> of_int (2 ^ 53)" and "of_int 0 \<le> \<bar>x\<bar> / ulp x"
    using binade_ulp [OF False] ulp_pos [of x]
    by (simp_all add: pos_divide_le_eq less_imp_le)
  then have q: "0 \<le> q \<and> q \<le> 2 ^ 53"
    unfolding q_def by (metis round_half_even_int round_half_even_mono)
  have "round_half_even (x / ulp x) = (if 0 \<le> x then q else - q)"
    by (simp add: q_def round_half_even_minus flip: minus_divide_left)
  then have "fl x = of_int (if 0 \<le> x then q else - q) * 2 powi (binade \<bar>x\<bar> - 52)"
    using False by (simp add: fl_def ulp_def)
  moreover have "\<bar>if 0 \<le> x then q else - q\<bar> \<le> 2 ^ 53" using q by simp
  ultimately show ?thesis by blast
qed

lemma fl_idem [simp]: "fl (fl x) = fl x"
  using fl_is_grid [of x] fl_grid [OF _ refl] by metis

section \<open>Monotonicity\<close>

lemma fl_nonneg: "0 \<le> x \<Longrightarrow> 0 \<le> fl x"
  using round_half_even_mono [of "of_int 0" "x / ulp x"] ulp_pos [of x]
  unfolding round_half_even_int by (simp add: fl_def less_imp_le del: ulp_pos)

lemma fl_pos_bounds:
  assumes "0 < x"
  shows "2 powi binade x \<le> fl x \<and> fl x \<le> 2 powi (binade x + 1)"
proof -
  have b: "2 ^ 52 * ulp x \<le> x \<and> x < 2 ^ 53 * ulp x" using binade_ulp [of x] assms by simp
  define q where "q = round_half_even (x / ulp x)"
  have "of_int (2 ^ 52) \<le> x / ulp x" and "x / ulp x \<le> of_int (2 ^ 53)"
    using b ulp_pos [of x] by (simp_all add: field_simps less_imp_le)
  then have "2 ^ 52 \<le> q" "q \<le> 2 ^ 53"
    unfolding q_def by (metis round_half_even_int round_half_even_mono)+
  then have "(2::rat) ^ 52 \<le> of_int q" and "of_int q \<le> (2::rat) ^ 53"
    by (metis of_int_le_iff of_int_numeral of_int_power)+
  then have "2 ^ 52 * ulp x \<le> of_int q * ulp x" and "of_int q * ulp x \<le> 2 ^ 53 * ulp x"
    by (auto intro!: mult_right_mono less_imp_le)
  moreover have "fl x = of_int q * ulp x" using assms by (simp add: fl_def q_def)
  ultimately show ?thesis using ulp_scale [of x] assms by (simp add: power_int_add)
qed

lemma fl_mono_pos:
  assumes "0 < x" and "x \<le> y"
  shows "fl x \<le> fl y"
proof (cases "binade x = binade y")
  case True
  then have "ulp x = ulp y" using assms by (simp add: ulp_def)
  moreover from this have "round_half_even (x / ulp x) \<le> round_half_even (y / ulp y)"
    using assms by (intro round_half_even_mono) (simp add: divide_right_mono less_imp_le)
  ultimately show ?thesis
    using assms by (auto simp: fl_def intro!: mult_right_mono less_imp_le)
next
  case False
  with binade_mono assms have "binade x + 1 \<le> binade y" by force
  then have "(2::rat) powi (binade x + 1) \<le> 2 powi binade y" by (rule powi_le)
  with fl_pos_bounds [of x] fl_pos_bounds [of y] assms show ?thesis by linarith
qed

lemma fl_mono: "x \<le> y \<Longrightarrow> fl x \<le> fl y"
proof -
  assume le: "x \<le> y"
  consider "0 < x" | "x \<le> 0" "0 \<le> y" | "y < 0" by linarith
  then show ?thesis
  proof cases
    case 1
    then show ?thesis using le by (rule fl_mono_pos)
  next
    case 2
    then show ?thesis using fl_nonneg [of y] fl_nonneg [of "- x"] by (simp add: fl_minus)
  next
    case 3
    then have "fl (- y) \<le> fl (- x)" using le by (intro fl_mono_pos) simp_all
    then show ?thesis by (simp add: fl_minus)
  qed
qed

section \<open>The interface\<close>

locale rounding =
  fixes rnd :: "rat \<Rightarrow> rat"
  assumes rnd_mono: "x \<le> y \<Longrightarrow> rnd x \<le> rnd y"
    and rnd_int: "\<bar>n\<bar> \<le> 2 ^ 53 \<Longrightarrow> rnd (of_int n) = of_int n"
begin

lemma rnd_le_int: "x \<le> of_int n \<Longrightarrow> \<bar>n\<bar> \<le> 2 ^ 53 \<Longrightarrow> rnd x \<le> of_int n"
  using rnd_mono [of x "of_int n"] rnd_int [of n] by simp

lemma rnd_ge_int: "of_int n \<le> x \<Longrightarrow> \<bar>n\<bar> \<le> 2 ^ 53 \<Longrightarrow> of_int n \<le> rnd x"
  using rnd_mono [of "of_int n" x] rnd_int [of n] by simp

lemma rnd_gt_int:
  "of_int n + 1 \<le> x \<Longrightarrow> \<bar>n\<bar> < 2 ^ 53 \<Longrightarrow> of_int n < rnd x"
  using rnd_ge_int [of "n + 1" x] by (simp add: abs_le_iff abs_less_iff)

lemma rnd_lt_int:
  "x \<le> of_int n - 1 \<Longrightarrow> \<bar>n\<bar> < 2 ^ 53 \<Longrightarrow> rnd x < of_int n"
  using rnd_le_int [of x "n - 1"] by (simp add: abs_le_iff abs_less_iff)

text \<open>An elapsed time compared with a whole number of seconds, at two later readings.\<close>

lemma elapsed_mono: "t \<le> t' \<Longrightarrow> T < rnd (t - s) \<Longrightarrow> T < rnd (t' - s)"
  using rnd_mono [of "t - s" "t' - s"] by simp

end

locale rounding_error = rounding +
  fixes eps :: rat
  assumes eps_nonneg: "0 \<le> eps"
    and rnd_error: "\<bar>rnd x - x\<bar> \<le> eps * \<bar>x\<bar>"
begin

lemma rnd_le: "0 \<le> x \<Longrightarrow> rnd x \<le> (1 + eps) * x"
  using rnd_error [of x] by (simp add: algebra_simps abs_le_iff)

lemma rnd_ge: "0 \<le> x \<Longrightarrow> (1 - eps) * x \<le> rnd x"
  using rnd_error [of x] by (simp add: algebra_simps abs_le_iff)

end

interpretation double: rounding_error fl "1 / 2 ^ 53"
  using fl_error by unfold_locales (simp_all add: fl_mono fl_of_int field_simps)

text \<open>Whole and half seconds, and the other exactly represented constants, evaluate by \<open>simp\<close>.\<close>

lemma fl_numeral [simp]: "numeral n \<le> (2::int) ^ 53 \<Longrightarrow> fl (numeral n) = numeral n"
  using fl_of_int [of "numeral n"] by simp

lemma fl_one [simp]: "fl 1 = 1"
  using fl_of_int [of 1] by simp

lemma fl_half: "fl (1/2) = 1/2"
  by (rule fl_grid [of 1 _ "-1"]) (simp_all add: power_int_minus)

end
