(* ===== verification/Digest.thy ===== *)
theory Digest
  imports Prelude "HOL-Library.Word"
begin

text \<open>
  The two digests of Python's \<open>hashlib\<close> the gateway calls: MD5 (RFC 1321), which places keys
  and virtual nodes on the hash ring, and SHA-256 (FIPS 180-4), which picks the bits of the
  Bloom filter. A \<open>bytes\<close> object is a list of 8-bit words. Both functions are total on byte
  strings whose length in bits is below \<open>2^64\<close>, as the length field of the padding is.
\<close>

unbundle bit_operations_syntax

type_synonym byte = "8 word"
type_synonym word32 = "32 word"

definition encode :: "string \<Rightarrow> byte list" where
  "encode s = map of_char s"

section \<open>Bytes and words\<close>

definition word_of_be :: "byte list \<Rightarrow> word32" where
  "word_of_be bs = foldl (\<lambda>w b. push_bit 8 w OR ucast b) 0 bs"

definition word_of_le :: "byte list \<Rightarrow> word32" where
  "word_of_le bs = word_of_be (rev bs)"

definition be_of_word :: "word32 \<Rightarrow> byte list" where
  "be_of_word w = map (\<lambda>i. ucast (drop_bit i w)) [24, 16, 8, 0]"

definition le_of_word :: "word32 \<Rightarrow> byte list" where
  "le_of_word w = rev (be_of_word w)"

text \<open>\<open>int.from_bytes(bs, "big")\<close>\<close>

definition int_from_bytes_big :: "byte list \<Rightarrow> int" where
  "int_from_bytes_big bs = foldl (\<lambda>n b. 256 * n + uint b) 0 bs"

fun chunks :: "nat \<Rightarrow> 'a list \<Rightarrow> 'a list list" where
  "chunks n xs = (if n = 0 \<or> xs = [] then [] else take n xs # chunks n (drop n xs))"

declare chunks.simps [simp del]

text \<open>The padding of both digests: a one bit, zeros, and the length in bits on eight bytes.\<close>

definition length_be :: "nat \<Rightarrow> byte list" where
  "length_be n = map (\<lambda>i. ucast (drop_bit i (of_nat n :: 64 word))) [56, 48, 40, 32, 24, 16, 8, 0]"

definition pad_zeros :: "nat \<Rightarrow> nat" where
  "pad_zeros n = (55 + 64 - n mod 64) mod 64"

definition md_pad :: "byte list \<Rightarrow> byte list \<Rightarrow> byte list" where
  "md_pad len msg = msg @ [0x80] @ replicate (pad_zeros (length msg)) 0 @ len"

section \<open>MD5\<close>

definition md5_K :: "word32 list" where
  "md5_K = [
    0xD76AA478, 0xE8C7B756, 0x242070DB, 0xC1BDCEEE, 0xF57C0FAF, 0x4787C62A,
    0xA8304613, 0xFD469501, 0x698098D8, 0x8B44F7AF, 0xFFFF5BB1, 0x895CD7BE,
    0x6B901122, 0xFD987193, 0xA679438E, 0x49B40821, 0xF61E2562, 0xC040B340,
    0x265E5A51, 0xE9B6C7AA, 0xD62F105D, 0x02441453, 0xD8A1E681, 0xE7D3FBC8,
    0x21E1CDE6, 0xC33707D6, 0xF4D50D87, 0x455A14ED, 0xA9E3E905, 0xFCEFA3F8,
    0x676F02D9, 0x8D2A4C8A, 0xFFFA3942, 0x8771F681, 0x6D9D6122, 0xFDE5380C,
    0xA4BEEA44, 0x4BDECFA9, 0xF6BB4B60, 0xBEBFBC70, 0x289B7EC6, 0xEAA127FA,
    0xD4EF3085, 0x04881D05, 0xD9D4D039, 0xE6DB99E5, 0x1FA27CF8, 0xC4AC5665,
    0xF4292244, 0x432AFF97, 0xAB9423A7, 0xFC93A039, 0x655B59C3, 0x8F0CCC92,
    0xFFEFF47D, 0x85845DD1, 0x6FA87E4F, 0xFE2CE6E0, 0xA3014314, 0x4E0811A1,
    0xF7537E82, 0xBD3AF235, 0x2AD7D2BB, 0xEB86D391]"

definition md5_s :: "nat list" where
  "md5_s = [
    7, 12, 17, 22, 7, 12, 17, 22, 7, 12, 17, 22, 7, 12, 17, 22,
    5, 9, 14, 20, 5, 9, 14, 20, 5, 9, 14, 20, 5, 9, 14, 20,
    4, 11, 16, 23, 4, 11, 16, 23, 4, 11, 16, 23, 4, 11, 16, 23,
    6, 10, 15, 21, 6, 10, 15, 21, 6, 10, 15, 21, 6, 10, 15, 21]"

type_synonym md5_state = "word32 \<times> word32 \<times> word32 \<times> word32"

definition md5_f :: "nat \<Rightarrow> word32 \<Rightarrow> word32 \<Rightarrow> word32 \<Rightarrow> word32 \<times> nat" where
  "md5_f i b c d =
     (if i < 16 then ((b AND c) OR (NOT b AND d), i)
      else if i < 32 then ((d AND b) OR (NOT d AND c), (5 * i + 1) mod 16)
      else if i < 48 then (b XOR c XOR d, (3 * i + 5) mod 16)
      else (c XOR (b OR NOT d), (7 * i) mod 16))"

definition md5_step :: "word32 list \<Rightarrow> nat \<Rightarrow> md5_state \<Rightarrow> md5_state" where
  "md5_step m i s = (case s of (a, b, c, d) \<Rightarrow> case md5_f i b c d of (f, g) \<Rightarrow>
     (d, b + word_rotl (md5_s ! i) (f + a + md5_K ! i + m ! g), b, c))"

definition md5_block :: "md5_state \<Rightarrow> byte list \<Rightarrow> md5_state" where
  "md5_block s block = (case s of (a0, b0, c0, d0) \<Rightarrow>
     case fold (md5_step (map word_of_le (chunks 4 block))) [0..<64] s of (a, b, c, d) \<Rightarrow>
       (a0 + a, b0 + b, c0 + c, d0 + d))"

definition md5 :: "byte list \<Rightarrow> byte list" where
  "md5 msg = (case foldl md5_block (0x67452301, 0xEFCDAB89, 0x98BADCFE, 0x10325476)
       (chunks 64 (md_pad (rev (length_be (8 * length msg))) msg))
     of (a, b, c, d) \<Rightarrow> concat (map le_of_word [a, b, c, d]))"

section \<open>SHA-256\<close>

definition sha256_K :: "word32 list" where
  "sha256_K = [
    0x428A2F98, 0x71374491, 0xB5C0FBCF, 0xE9B5DBA5, 0x3956C25B, 0x59F111F1,
    0x923F82A4, 0xAB1C5ED5, 0xD807AA98, 0x12835B01, 0x243185BE, 0x550C7DC3,
    0x72BE5D74, 0x80DEB1FE, 0x9BDC06A7, 0xC19BF174, 0xE49B69C1, 0xEFBE4786,
    0x0FC19DC6, 0x240CA1CC, 0x2DE92C6F, 0x4A7484AA, 0x5CB0A9DC, 0x76F988DA,
    0x983E5152, 0xA831C66D, 0xB00327C8, 0xBF597FC7, 0xC6E00BF3, 0xD5A79147,
    0x06CA6351, 0x14292967, 0x27B70A85, 0x2E1B2138, 0x4D2C6DFC, 0x53380D13,
    0x650A7354, 0x766A0ABB, 0x81C2C92E, 0x92722C85, 0xA2BFE8A1, 0xA81A664B,
    0xC24B8B70, 0xC76C51A3, 0xD192E819, 0xD6990624, 0xF40E3585, 0x106AA070,
    0x19A4C116, 0x1E376C08, 0x2748774C, 0x34B0BCB5, 0x391C0CB3, 0x4ED8AA4A,
    0x5B9CCA4F, 0x682E6FF3, 0x748F82EE, 0x78A5636F, 0x84C87814, 0x8CC70208,
    0x90BEFFFA, 0xA4506CEB, 0xBEF9A3F7, 0xC67178F2]"

type_synonym sha_state =
  "word32 \<times> word32 \<times> word32 \<times> word32 \<times> word32 \<times> word32 \<times> word32 \<times> word32"

definition small_sigma0 :: "word32 \<Rightarrow> word32" where
  "small_sigma0 w = word_rotr 7 w XOR word_rotr 18 w XOR drop_bit 3 w"

definition small_sigma1 :: "word32 \<Rightarrow> word32" where
  "small_sigma1 w = word_rotr 17 w XOR word_rotr 19 w XOR drop_bit 10 w"

definition big_sigma0 :: "word32 \<Rightarrow> word32" where
  "big_sigma0 w = word_rotr 2 w XOR word_rotr 13 w XOR word_rotr 22 w"

definition big_sigma1 :: "word32 \<Rightarrow> word32" where
  "big_sigma1 w = word_rotr 6 w XOR word_rotr 11 w XOR word_rotr 25 w"

definition sha_ch :: "word32 \<Rightarrow> word32 \<Rightarrow> word32 \<Rightarrow> word32" where
  "sha_ch e f g = (e AND f) XOR (NOT e AND g)"

definition sha_maj :: "word32 \<Rightarrow> word32 \<Rightarrow> word32 \<Rightarrow> word32" where
  "sha_maj a b c = (a AND b) XOR (a AND c) XOR (b AND c)"

text \<open>The message schedule, newest word first while it grows.\<close>

definition sha256_extend :: "word32 list \<Rightarrow> word32 list" where
  "sha256_extend ws =
     (ws ! 15 + small_sigma0 (ws ! 14) + ws ! 6 + small_sigma1 (ws ! 1)) # ws"

definition sha256_schedule :: "byte list \<Rightarrow> word32 list" where
  "sha256_schedule block =
     rev ((sha256_extend ^^ 48) (rev (map word_of_be (chunks 4 block))))"

definition sha256_rotate :: "word32 \<Rightarrow> sha_state \<Rightarrow> sha_state" where
  "sha256_rotate t1 st = (case st of (a, b, c, d, e, f, g, h) \<Rightarrow>
     (t1 + (big_sigma0 a + sha_maj a b c), a, b, c, d + t1, e, f, g))"

definition sha256_step :: "word32 \<times> word32 \<Rightarrow> sha_state \<Rightarrow> sha_state" where
  "sha256_step kw st = (case st of (a, b, c, d, e, f, g, h) \<Rightarrow>
     sha256_rotate (h + big_sigma1 e + sha_ch e f g + fst kw + snd kw) st)"

definition sha256_block :: "sha_state \<Rightarrow> byte list \<Rightarrow> sha_state" where
  "sha256_block st block = (case st of (a0, b0, c0, d0, e0, f0, g0, h0) \<Rightarrow>
     case fold sha256_step (zip sha256_K (sha256_schedule block)) st
     of (a, b, c, d, e, f, g, h) \<Rightarrow>
       (a0 + a, b0 + b, c0 + c, d0 + d, e0 + e, f0 + f, g0 + g, h0 + h))"

definition sha256 :: "byte list \<Rightarrow> byte list" where
  "sha256 msg = (case foldl sha256_block
       (0x6A09E667, 0xBB67AE85, 0x3C6EF372, 0xA54FF53A,
        0x510E527F, 0x9B05688C, 0x1F83D9AB, 0x5BE0CD19)
       (chunks 64 (md_pad (length_be (8 * length msg)) msg))
     of (a, b, c, d, e, f, g, h) \<Rightarrow> concat (map be_of_word [a, b, c, d, e, f, g, h]))"

section \<open>Hexadecimal digests\<close>

text \<open>\<open>hexdigest()\<close> prints two digits per byte; \<open>int(s, 16)\<close> reads them back.\<close>

definition hex_char :: "nat \<Rightarrow> char" where
  "hex_char d = (if d < 10 then char_of (48 + d) else char_of (87 + d))"

definition hexdigest :: "byte list \<Rightarrow> string" where
  "hexdigest bs = concat (map (\<lambda>b. [hex_char (unat b div 16), hex_char (unat b mod 16)]) bs)"

definition hex_value :: "char \<Rightarrow> int" where
  "hex_value c = (let n = of_char c in if n < 58 then n - 48 else n - 87)"

definition int_of_hex :: "string \<Rightarrow> int" where
  "int_of_hex s = foldl (\<lambda>n c. 16 * n + hex_value c) 0 s"

lemma of_char_of_small: "n < 256 \<Longrightarrow> of_char (char_of n) = int n"
  by (metis of_char_of of_nat_of_char mod_less)

lemma hex_value_char: "d < 16 \<Longrightarrow> hex_value (hex_char d) = int d"
  using of_char_of_small [of "48 + d"] of_char_of_small [of "87 + d"]
  by (simp add: hex_value_def hex_char_def Let_def)

lemma foldl_int_from_bytes:
  "foldl (\<lambda>n b. 256 * n + uint b) k bs = k * 256 ^ length bs + int_from_bytes_big bs"
proof (induction bs arbitrary: k)
  case (Cons b bs)
  have "foldl (\<lambda>n b. 256 * n + uint b) (256 * 0 + uint b) bs
      = uint b * 256 ^ length bs + int_from_bytes_big bs"
    using Cons.IH [of "256 * 0 + uint b"] by simp
  then have "int_from_bytes_big (b # bs) = uint b * 256 ^ length bs + int_from_bytes_big bs"
    by (simp add: int_from_bytes_big_def)
  then show ?case using Cons.IH [of "256 * k + uint b"] by (simp add: algebra_simps)
qed (simp add: int_from_bytes_big_def)

lemma int_from_bytes_big_simps [simp]:
  "int_from_bytes_big [] = 0"
  "int_from_bytes_big (b # bs) = uint b * 256 ^ length bs + int_from_bytes_big bs"
  using foldl_int_from_bytes [of "uint b" bs] by (simp_all add: int_from_bytes_big_def)

lemma int_from_bytes_big_bounds: "0 \<le> int_from_bytes_big bs \<and> int_from_bytes_big bs < 256 ^ length bs"
proof (induction bs)
  case (Cons b bs)
  have "uint b < 256" using uint_lt2p [of b] by simp
  then have "uint b * 256 ^ length bs \<le> 255 * 256 ^ length bs" by (intro mult_right_mono) simp_all
  with Cons.IH have "uint b * 256 ^ length bs + int_from_bytes_big bs
      < 255 * 256 ^ length bs + 256 ^ length bs" by (intro add_le_less_mono) simp_all
  with Cons.IH show ?case by simp
qed simp

text \<open>Reading the printed digest as a hexadecimal number gives its bytes as a big-endian integer.\<close>

lemma int_of_hex_digest: "int_of_hex (hexdigest bs) = int_from_bytes_big bs"
proof -
  have "foldl (\<lambda>n c. 16 * n + hex_value c) k (hexdigest bs)
      = foldl (\<lambda>n b. 256 * n + uint b) k bs" for k
  proof (induction bs arbitrary: k)
    case (Cons b bs)
    have "unat b < 256" using unsigned_less [of b, where 'a = nat] by simp
    then have d: "unat b div 16 < 16" "unat b mod 16 < 16" by simp_all
    have "16 * int (unat b div 16) + int (unat b mod 16) = int (unat b)"
      by (metis mult_div_mod_eq of_nat_add of_nat_mult of_nat_numeral)
    then have k: "16 * (16 * k + int (unat b div 16)) + int (unat b mod 16) = 256 * k + uint b"
      by simp
    have "foldl (\<lambda>n c. 16 * n + hex_value c) k (hexdigest (b # bs))
        = foldl (\<lambda>n c. 16 * n + hex_value c)
            (16 * (16 * k + int (unat b div 16)) + int (unat b mod 16)) (hexdigest bs)"
      by (simp add: hexdigest_def hex_value_char d)
    also have "\<dots> = foldl (\<lambda>n b. 256 * n + uint b) k (b # bs)"
      unfolding k using Cons.IH by simp
    finally show ?case .
  qed (simp add: hexdigest_def)
  then show ?thesis by (simp add: int_of_hex_def int_from_bytes_big_def)
qed

lemma length_be_of_word [simp]: "length (be_of_word w) = 4"
  by (simp add: be_of_word_def)

lemma length_le_of_word [simp]: "length (le_of_word w) = 4"
  by (simp add: le_of_word_def)

lemma length_md5 [simp]: "length (md5 m) = 16"
  by (simp add: md5_def split: prod.split)

lemma length_sha256 [simp]: "length (sha256 m) = 32"
  by (simp add: sha256_def split: prod.split)

section \<open>A test vector\<close>

text \<open>From RFC 1321, appendix A.5, evaluated by the kernel.\<close>

lemma md5_test_abc: "hexdigest (md5 (encode ''abc'')) = ''900150983cd24fb0d6963f7d28e17f72''"
  by code_simp

end
