(* ===== verification/Hash_Ring.thy ===== *)
theory Hash_Ring
  imports Prelude Digest
begin

text \<open>
  The consistent-hashing ring, \<open>gateway/app/hash_ring.py\<close>: the class \<open>HashRing\<close>, its
  operations in the order of the source, and the binary search \<open>bisect.bisect_right\<close> of the
  standard library it calls. A ring maps points (128-bit MD5 values) to node ids; a key belongs
  to the node of the first point clockwise of its own hash.

  After the model come the well-formedness invariant, the specification of a lookup as a
  successor on a circle, the specification of the replica walk, and the theorems that make the
  ring consistent: a join moves keys only to the new node, a departure moves only its own keys.
\<close>

section \<open>Model\<close>

text \<open>\<open>self.ring\<close> is a dict in insertion order, \<open>self.nodes\<close> a set.\<close>

record hash_ring =
  virtual_nodes :: int
  ring :: "(int \<times> string) list"
  sorted_keys :: "int list"
  ring_nodes :: "string set"

definition hash_key :: "string \<Rightarrow> int" where
  "hash_key key = int_of_hex (hexdigest (md5 (encode key)))"

definition virtual_key :: "string \<Rightarrow> nat \<Rightarrow> string" where
  "virtual_key node_id i = node_id @ ''#'' @ str_nat i"

definition place_points :: "int \<Rightarrow> string \<Rightarrow> (int \<times> string) list \<Rightarrow> (int \<times> string) list" where
  "place_points vn node_id r =
     fold (\<lambda>i. AList.update (hash_key (virtual_key node_id i)) node_id) [0..<nat vn] r"

definition add_node :: "string \<Rightarrow> hash_ring \<Rightarrow> hash_ring" where
  "add_node node_id R =
     (if node_id \<in> ring_nodes R then R
      else let r = place_points (virtual_nodes R) node_id (ring R)
           in R\<lparr>ring_nodes := insert node_id (ring_nodes R), ring := r,
                sorted_keys := sort (keys_of r)\<rparr>)"

definition remove_node :: "string \<Rightarrow> hash_ring \<Rightarrow> hash_ring" where
  "remove_node node_id R =
     (if node_id \<notin> ring_nodes R then R
      else let hashes_to_remove = map fst (filter (\<lambda>(h, n). n = node_id) (ring R));
               r = fold AList.delete hashes_to_remove (ring R)
           in R\<lparr>ring_nodes := ring_nodes R - {node_id}, ring := r,
                sorted_keys := sort (keys_of r)\<rparr>)"

definition empty_ring :: "int \<Rightarrow> hash_ring" where
  "empty_ring vn = \<lparr>virtual_nodes = vn, ring = [], sorted_keys = [], ring_nodes = {}\<rparr>"

definition HashRing :: "string list \<Rightarrow> int \<Rightarrow> hash_ring" where
  "HashRing nodes vn = fold add_node nodes (empty_ring vn)"

text \<open>\<open>bisect.bisect_right(a, x)\<close>: the loop over \<open>lo\<close> and \<open>hi\<close>.\<close>

function bisect_loop :: "int list \<Rightarrow> int \<Rightarrow> nat \<Rightarrow> nat \<Rightarrow> nat" where
  "bisect_loop a x lo hi =
     (if lo < hi
      then let mid = (lo + hi) div 2
           in if x < a ! mid then bisect_loop a x lo mid else bisect_loop a x (mid + 1) hi
      else lo)"
  by pat_completeness auto
termination
  by (relation "measure (\<lambda>(a, x, lo, hi). hi - lo)") auto

declare bisect_loop.simps [simp del]

definition bisect_right :: "int list \<Rightarrow> int \<Rightarrow> nat" where
  "bisect_right a x = bisect_loop a x 0 (length a)"

text \<open>The index both lookups start from, wrapped to 0 past the last point.\<close>

definition start_index :: "hash_ring \<Rightarrow> string \<Rightarrow> nat" where
  "start_index R key =
     (let idx = bisect_right (sorted_keys R) (hash_key key)
      in if idx = length (sorted_keys R) then 0 else idx)"

definition point_owner :: "hash_ring \<Rightarrow> nat \<Rightarrow> string py" where
  "point_owner R idx = bind_py (py_index (sorted_keys R) idx) (dict_item (ring R))"

definition get_node :: "hash_ring \<Rightarrow> string \<Rightarrow> string option py" where
  "get_node R key =
     (if ring R = [] then Inr None
      else bind_py (point_owner R (start_index R key)) (\<lambda>n. Inr (Some n)))"

text \<open>
  The loop of \<open>get_replicas\<close>: the first argument counts the attempts left out of
  \<open>len(self.ring)\<close>, so the recursion is structural and the loop always ends.
\<close>

fun replica_loop ::
  "nat \<Rightarrow> hash_ring \<Rightarrow> int \<Rightarrow> nat \<Rightarrow> string list \<Rightarrow> string set \<Rightarrow> string list py" where
  "replica_loop 0 R rf idx replicas seen = Inr replicas"
| "replica_loop (Suc left) R rf idx replicas seen =
     (if int (length replicas) < rf
      then bind_py (point_owner R idx) (\<lambda>node.
             let idx' = (idx + 1) mod length (sorted_keys R)
             in if node \<notin> seen
                then replica_loop left R rf idx' (replicas @ [node]) (insert node seen)
                else replica_loop left R rf idx' replicas seen)
      else Inr replicas)"

definition get_replicas :: "hash_ring \<Rightarrow> string \<Rightarrow> int \<Rightarrow> string list py" where
  "get_replicas R key rf =
     (if ring R = [] then Inr []
      else replica_loop (length (ring R)) R rf (start_index R key) [] {})"

definition get_keys_for_node :: "hash_ring \<Rightarrow> string \<Rightarrow> (string \<times> int) list" where
  "get_keys_for_node R node_id =
     map (\<lambda>(h, n). (str_nat (nat h), h)) (filter (\<lambda>(h, n). n = node_id) (ring R))"

definition get_all_nodes :: "hash_ring \<Rightarrow> string list" where
  "get_all_nodes R = sorted_list_of_set (ring_nodes R)"

text \<open>A skeleton in the source: it computes nothing.\<close>

definition rebalance_after_node_change ::
  "hash_ring \<Rightarrow> hash_ring \<Rightarrow> (string \<times> string list) list" where
  "rebalance_after_node_change R old_ring = []"

section \<open>Hashes and virtual keys\<close>

lemma hash_key_eq: "hash_key key = int_from_bytes_big (md5 (encode key))"
  by (simp add: hash_key_def int_of_hex_digest)

lemma hash_key_bounds: "0 \<le> hash_key key \<and> hash_key key < 2 ^ 128"
  using int_from_bytes_big_bounds [of "md5 (encode key)"] by (simp add: hash_key_eq)

lemma hash_not_digit: "CHR ''#'' \<notin> set (str_nat i)"
proof
  assume "CHR ''#'' \<in> set (str_nat i)"
  then obtain d where "d < 10" and "CHR ''#'' = digit_char d" using str_nat_digits by blast
  then have "(of_char CHR ''#'' :: nat) = 48 + d" using digit_char_range [of d] by simp
  then show False by simp
qed

lemma virtual_key_inj: "virtual_key n i = virtual_key m j \<Longrightarrow> n = m \<and> i = j"
proof -
  assume eq: "virtual_key n i = virtual_key m j"
  have rest: "takeWhile (\<lambda>c. c \<noteq> CHR ''#'') (rev (virtual_key n i)) = rev (str_nat i)" for n i
    using hash_not_digit [of i]
    by (subst virtual_key_def, subst rev_append, subst rev_append, subst append_assoc,
        subst takeWhile_append2) auto
  from eq rest [of n i] rest [of m j] have "str_nat i = str_nat j" by simp
  with eq show ?thesis by (auto simp: virtual_key_def dest: str_nat_inj)
qed

section \<open>Binary search\<close>

lemma bisect_loop_spec:
  assumes "sorted a" and "lo \<le> hi" and "hi \<le> length a"
    and "\<forall>i < lo. a ! i \<le> x" and "\<forall>i. hi \<le> i \<and> i < length a \<longrightarrow> x < a ! i"
  shows "let r = bisect_loop a x lo hi
         in r \<le> length a \<and> (\<forall>i < r. a ! i \<le> x) \<and> (\<forall>i. r \<le> i \<and> i < length a \<longrightarrow> x < a ! i)"
  using assms
proof (induction a x lo hi rule: bisect_loop.induct)
  case (1 a x lo hi)
  show ?case
  proof (cases "lo < hi")
    case False
    then have "bisect_loop a x lo hi = lo" by (subst bisect_loop.simps) simp
    with False "1.prems" show ?thesis by (simp add: Let_def)
  next
    case True
    define mid where "mid = (lo + hi) div 2"
    have mid: "lo \<le> mid" "mid < hi" "mid < length a" using True "1.prems" by (auto simp: mid_def)
    show ?thesis
    proof (cases "x < a ! mid")
      case less: True
      have "\<forall>i. mid \<le> i \<and> i < length a \<longrightarrow> x < a ! i"
        using less sorted_nth_mono [OF \<open>sorted a\<close>] by (meson less_le_trans)
      with "1.IH"(1) [OF True mid_def less] "1.prems" mid True less show ?thesis
        by (simp add: bisect_loop.simps [of a x lo hi] Let_def flip: mid_def)
    next
      case ge: False
      have "\<forall>i < mid + 1. a ! i \<le> x"
        using ge mid sorted_nth_mono [OF \<open>sorted a\<close>, of _ mid] by (force simp: less_Suc_eq_le)
      with "1.IH"(2) [OF True mid_def ge] "1.prems" mid True ge show ?thesis
        by (simp add: bisect_loop.simps [of a x lo hi] Let_def flip: mid_def)
    qed
  qed
qed

lemma bisect_right_bounds:
  assumes "sorted a"
  shows "bisect_right a x \<le> length a"
    and "i < bisect_right a x \<Longrightarrow> a ! i \<le> x"
    and "bisect_right a x \<le> i \<Longrightarrow> i < length a \<Longrightarrow> x < a ! i"
  using bisect_loop_spec [OF assms, of 0 "length a" x] by (simp_all add: bisect_right_def Let_def)

section \<open>Well-formed rings\<close>

definition ring_wf :: "hash_ring \<Rightarrow> bool" where
  "ring_wf R \<longleftrightarrow> distinct (keys_of (ring R)) \<and> sorted_keys R = sort (keys_of (ring R))
     \<and> snd ` set (ring R) \<subseteq> ring_nodes R \<and> finite (ring_nodes R)"

lemma place_points_lookup:
  "map_of (place_points vn n r) p =
     (if p \<in> (\<lambda>i. hash_key (virtual_key n i)) ` {..<nat vn} then Some n else map_of r p)"
  unfolding place_points_def alist.lookup_fold_put by (simp add: atLeast0LessThan)

lemma place_points_distinct:
  "distinct (keys_of r) \<Longrightarrow> distinct (keys_of (place_points vn n r))"
  unfolding place_points_def by (rule dict_distinct)

lemma snd_place_points:
  assumes "distinct (keys_of r)"
  shows "snd ` set (place_points vn n r) \<subseteq> insert n (snd ` set r)"
proof -
  have "ran (map_of (place_points vn n r)) \<subseteq> insert n (ran (map_of r))"
    by (auto simp: ran_def place_points_lookup split: if_splits)
  with assms place_points_distinct [OF assms] show ?thesis by (simp add: ran_distinct)
qed

lemma ring_wf_empty: "ring_wf (empty_ring vn)"
  by (simp add: ring_wf_def empty_ring_def)

lemma ring_wf_add: "ring_wf R \<Longrightarrow> ring_wf (add_node n R)"
  using snd_place_points [of "ring R" "virtual_nodes R" n]
  by (auto simp: ring_wf_def add_node_def Let_def place_points_distinct)

lemma fold_delete_filter:
  "distinct (keys_of r) \<Longrightarrow>
     map_of (fold AList.delete (map fst (filter (\<lambda>(h, m). m = n) r)) r) p =
       (if map_of r p = Some n then None else map_of r p)"
  by (auto simp: dict_maps dest: map_of_SomeD) (force simp: map_of_Some_iff)+

lemma fold_delete_distinct:
  "distinct (keys_of r) \<Longrightarrow> distinct (keys_of (fold AList.delete ks r))"
  by (rule dict_distinct)

lemma ring_wf_remove: "ring_wf R \<Longrightarrow> ring_wf (remove_node n R)"
proof (cases "n \<in> ring_nodes R")
  case True
  assume wf: "ring_wf R"
  define r where "r = fold AList.delete (map fst (filter (\<lambda>(h, m). m = n) (ring R))) (ring R)"
  have d: "distinct (keys_of r)" using wf by (simp add: r_def ring_wf_def fold_delete_distinct)
  have "ran (map_of r) \<subseteq> ran (map_of (ring R)) - {n}"
    using wf by (auto simp: r_def ring_wf_def fold_delete_filter ran_def split: if_splits)
  then have "snd ` set r \<subseteq> ring_nodes R - {n}"
    using d wf by (auto simp: ran_distinct ring_wf_def)
  with True d wf show ?thesis by (simp add: remove_node_def ring_wf_def flip: r_def)
qed (simp add: remove_node_def)

lemma ring_wf_HashRing: "ring_wf (HashRing ns vn)"
proof -
  have "ring_wf R \<Longrightarrow> ring_wf (fold add_node ns R)" for R
    by (induction ns arbitrary: R) (simp_all add: ring_wf_add)
  then show ?thesis by (simp add: HashRing_def ring_wf_empty)
qed

text \<open>The points of a well-formed ring, and which node a point belongs to.\<close>

abbreviation points :: "hash_ring \<Rightarrow> int set" where
  "points R \<equiv> set (keys_of (ring R))"

abbreviation owner_at :: "hash_ring \<Rightarrow> int \<Rightarrow> string option" where
  "owner_at R \<equiv> map_of (ring R)"

lemma owner_at_point: "p \<in> points R \<Longrightarrow> \<exists>n. owner_at R p = Some n"
  by (metis map_of_eq_None option.exhaust)

lemma owner_at_member: "ring_wf R \<Longrightarrow> owner_at R p = Some n \<Longrightarrow> n \<in> ring_nodes R"
  by (force simp: ring_wf_def dest: map_of_SomeD)

lemma wf_keys:
  assumes "ring_wf R"
  shows "set (sorted_keys R) = points R" and "sorted (sorted_keys R)"
    and "length (sorted_keys R) = length (ring R)" and "distinct (sorted_keys R)"
  using assms by (simp_all add: ring_wf_def)

section \<open>A lookup is the successor on the circle\<close>

definition succ_point :: "int set \<Rightarrow> int \<Rightarrow> int" where
  "succ_point S k = (if \<exists>p\<in>S. k < p then Min {p \<in> S. k < p} else Min S)"

lemma succ_point_in: "finite S \<Longrightarrow> S \<noteq> {} \<Longrightarrow> succ_point S k \<in> S"
  using Min_in [of "{p \<in> S. k < p}"] Min_in [of S] by (auto simp: succ_point_def)

text \<open>A point found in the larger of two sets is also the one found in the smaller.\<close>

lemma succ_point_subset:
  assumes "finite S" and "T \<subseteq> S" and "succ_point S k \<in> T"
  shows "succ_point T k = succ_point S k"
proof (cases "\<exists>p\<in>S. k < p")
  case True
  define m where "m = Min {p \<in> S. k < p}"
  have fin: "finite {p \<in> S. k < p}" using assms by simp
  have "m \<in> {p \<in> S. k < p}" unfolding m_def using True fin by (intro Min_in) auto
  with assms True have mT: "m \<in> {p \<in> T. k < p}" by (simp add: succ_point_def m_def)
  have "Min {p \<in> T. k < p} = m"
  proof (rule Min_eqI)
    show "finite {p \<in> T. k < p}" using assms by (auto intro: finite_subset)
    show "m \<le> p" if "p \<in> {p \<in> T. k < p}" for p
      unfolding m_def using that assms fin by (intro Min_le) auto
  qed (rule mT)
  with True mT show ?thesis by (auto simp: succ_point_def m_def)
next
  case False
  then have no: "\<not> (\<exists>p\<in>T. k < p)" using assms by blast
  have "Min T = Min S"
    using assms False by (intro Min_eqI) (auto simp: succ_point_def intro: finite_subset)
  with False no show ?thesis by (simp add: succ_point_def)
qed

lemma start_index_succ:
  assumes wf: "ring_wf R" and ne: "ring R \<noteq> []"
  shows "start_index R key < length (sorted_keys R)"
    and "sorted_keys R ! start_index R key = succ_point (points R) (hash_key key)"
proof -
  let ?a = "sorted_keys R" and ?x = "hash_key key"
  define b where "b = bisect_right ?a ?x"
  note a = wf_keys [OF wf]
  have b: "b \<le> length ?a" "\<And>i. i < b \<Longrightarrow> ?a ! i \<le> ?x" "\<And>i. b \<le> i \<Longrightarrow> i < length ?a \<Longrightarrow> ?x < ?a ! i"
    using bisect_right_bounds [OF a(2), where x = ?x] by (auto simp: b_def)
  have len: "0 < length ?a" using ne a by simp
  then show lt: "start_index R key < length ?a"
    using b by (auto simp: start_index_def Let_def simp flip: b_def)
  have pts: "points R = {?a ! i | i. i < length ?a}" using a by (metis set_conv_nth)
  show "?a ! start_index R key = succ_point (points R) ?x"
  proof (cases "b = length ?a")
    case True
    then have "\<not> (\<exists>p\<in>points R. ?x < p)" using b(2) unfolding pts by (force simp: not_less)
    moreover have "Min (points R) = ?a ! 0"
    proof (rule Min_eqI)
      show "?a ! 0 \<in> points R" using len unfolding pts by blast
      show "?a ! 0 \<le> p" if "p \<in> points R" for p
        using that [unfolded pts] sorted_nth_mono [OF a(2), of 0] by auto
    qed simp
    ultimately show ?thesis using True by (simp add: start_index_def succ_point_def flip: b_def)
  next
    case False
    then have lb: "b < length ?a" using b by simp
    have "Min {p \<in> points R. ?x < p} = ?a ! b"
    proof (rule Min_eqI)
      show "?a ! b \<in> {p \<in> points R. ?x < p}" using lb b(3) [of b] unfolding pts by blast
      show "?a ! b \<le> p" if "p \<in> {p \<in> points R. ?x < p}" for p
      proof -
        from that have "p \<in> points R" and "?x < p" by blast+
        then obtain i where i: "i < length ?a" "p = ?a ! i" "?x < ?a ! i" unfolding pts by blast
        with b(2) [of i] have "b \<le> i" by (meson not_le)
        with i show ?thesis using sorted_nth_mono [OF a(2)] by simp
      qed
    qed simp
    moreover have "\<exists>p\<in>points R. ?x < p" using lb b(3) [of b] unfolding pts by blast
    ultimately show ?thesis using False by (simp add: start_index_def succ_point_def flip: b_def)
  qed
qed

lemma point_owner_ok:
  assumes "ring_wf R" and "i < length (sorted_keys R)"
  shows "\<exists>n. owner_at R (sorted_keys R ! i) = Some n \<and> point_owner R i = Inr n"
proof -
  have "sorted_keys R ! i \<in> points R" using assms wf_keys(1) by (metis nth_mem)
  then obtain n where "owner_at R (sorted_keys R ! i) = Some n" using owner_at_point by blast
  with assms show ?thesis by (simp add: point_owner_def)
qed

definition ring_owner :: "hash_ring \<Rightarrow> string \<Rightarrow> string option" where
  "ring_owner R key =
     (if ring R = [] then None else owner_at R (succ_point (points R) (hash_key key)))"

lemma get_node_owner: "ring_wf R \<Longrightarrow> get_node R key = Inr (ring_owner R key)"
  using start_index_succ [of R key] point_owner_ok [of R "start_index R key"]
  by (auto simp: get_node_def ring_owner_def)

lemma ring_owner_Some: "ring_wf R \<Longrightarrow> ring R \<noteq> [] \<Longrightarrow> \<exists>n. ring_owner R key = Some n"
  using succ_point_in [of "points R" "hash_key key"] owner_at_point
  by (simp add: ring_owner_def)

lemma ring_owner_member: "ring_wf R \<Longrightarrow> ring_owner R key = Some n \<Longrightarrow> n \<in> ring_nodes R"
  by (auto simp: ring_owner_def owner_at_member split: if_splits)

section \<open>Joins and departures move few keys\<close>

lemma add_node_ring:
  "n \<notin> ring_nodes R \<Longrightarrow> ring (add_node n R) = place_points (virtual_nodes R) n (ring R)"
  by (simp add: add_node_def Let_def)

lemma add_node_owner_at:
  assumes "n \<notin> ring_nodes R"
  shows "owner_at (add_node n R) p =
    (if p \<in> (\<lambda>i. hash_key (virtual_key n i)) ` {..<nat (virtual_nodes R)} then Some n
     else owner_at R p)"
  using assms by (simp add: add_node_ring place_points_lookup)

lemma points_dom: "points R = dom (owner_at R)"
  by (simp add: dom_map_of_conv_image_fst)

lemma ring_Nil_points: "ring R = [] \<longleftrightarrow> points R = {}"
  by simp

lemma ring_owner_mono:
  assumes "finite (points S)" and "points T \<subseteq> points S"
    and "succ_point (points S) (hash_key key) \<in> points T"
    and "owner_at T (succ_point (points S) (hash_key key)) = owner_at S (succ_point (points S) (hash_key key))"
  shows "ring_owner T key = ring_owner S key"
  using assms succ_point_subset [of "points S" "points T" "hash_key key"]
  by (auto simp: ring_owner_def)

lemma add_node_owner:
  assumes n: "n \<notin> ring_nodes R"
  shows "ring_owner (add_node n R) key \<in> {ring_owner R key, Some n}"
proof -
  let ?S = "add_node n R" and ?p = "succ_point (points (add_node n R)) (hash_key key)"
  have sub: "points R \<subseteq> points ?S"
    unfolding points_dom by (auto simp: add_node_owner_at [OF n])
  show ?thesis
  proof (cases "owner_at ?S ?p = Some n \<or> ring ?S = []")
    case True
    with sub show ?thesis by (auto simp: ring_owner_def)
  next
    case False
    then have "?p \<in> points ?S" by (intro succ_point_in) simp_all
    with False have "owner_at ?S ?p = owner_at R ?p" and "?p \<in> points R"
      unfolding points_dom by (auto simp: add_node_owner_at [OF n] split: if_splits)
    with sub have "ring_owner R key = ring_owner ?S key" by (intro ring_owner_mono) simp_all
    then show ?thesis by simp
  qed
qed

lemma remove_node_owner_at:
  assumes "ring_wf R" and "n \<in> ring_nodes R"
  shows "owner_at (remove_node n R) p = (if owner_at R p = Some n then None else owner_at R p)"
  using assms by (simp add: remove_node_def Let_def fold_delete_filter ring_wf_def)

lemma remove_node_owner:
  assumes wf: "ring_wf R" and own: "ring_owner R key \<noteq> Some n"
  shows "ring_owner (remove_node n R) key = ring_owner R key"
proof (cases "n \<in> ring_nodes R \<and> ring R \<noteq> []")
  case True
  let ?T = "remove_node n R" and ?p = "succ_point (points R) (hash_key key)"
  note at = remove_node_owner_at [OF wf, of n]
  have sub: "points ?T \<subseteq> points R" using True unfolding points_dom by (auto simp: at split: if_splits)
  have "?p \<in> points R" using True by (intro succ_point_in) simp_all
  moreover have "owner_at R ?p \<noteq> Some n" using own True by (simp add: ring_owner_def)
  ultimately have "?p \<in> points ?T" and "owner_at ?T ?p = owner_at R ?p"
    using True unfolding points_dom by (auto simp: at)
  with sub show ?thesis by (intro ring_owner_mono) simp_all
next
  case False
  then show ?thesis by (auto simp: remove_node_def ring_owner_def)
qed

text \<open>
  Without a collision among the points, the departure of a node that has just joined restores
  the ring exactly, insertion order included.
\<close>

lemma place_points_append:
  assumes "\<And>i. i < nat vn \<Longrightarrow> hash_key (virtual_key n i) \<notin> set (keys_of r)"
  shows "\<exists>e. place_points vn n r = r @ e \<and> snd ` set e \<subseteq> {n}"
proof -
  have "set is \<subseteq> {..<nat vn} \<Longrightarrow> snd ` set e \<subseteq> {n} \<Longrightarrow>
      \<exists>e'. fold (\<lambda>i. AList.update (hash_key (virtual_key n i)) n) is (r @ e) = r @ e'
           \<and> snd ` set e' \<subseteq> {n}" for "is" e
  proof (induction "is" arbitrary: e)
    case (Cons i js)
    have "AList.update (hash_key (virtual_key n i)) n (r @ e)
        = r @ AList.update (hash_key (virtual_key n i)) n e"
    proof -
      have "k \<notin> set (keys_of r) \<Longrightarrow> AList.update k v (r @ e) = r @ AList.update k v e" for k and v :: string
        by (induction r) auto
      then show ?thesis using assms [of i] Cons.prems by simp
    qed
    moreover have "snd ` set (AList.update (hash_key (virtual_key n i)) n e) \<subseteq> {n}"
      using Cons.prems(2) by (induction e) auto
    ultimately show ?case using Cons by simp
  qed auto
  from this [of "[0..<nat vn]" "[]"] show ?thesis by (simp add: place_points_def atLeast0LessThan)
qed

lemma fold_delete_eq_filter:
  "fold AList.delete ks r = filter (\<lambda>(h, n). h \<notin> set ks) r"
proof (induction ks arbitrary: r)
  case (Cons k ks)
  have "AList.delete k r = filter (\<lambda>(h, n). h \<noteq> k) r" by (simp add: AList.delete_eq case_prod_beta' eq_commute)
  with Cons show ?case by (auto intro: filter_cong)
qed simp

lemma remove_add_node:
  assumes wf: "ring_wf R" and n: "n \<notin> ring_nodes R"
    and free: "\<And>i. i < nat (virtual_nodes R) \<Longrightarrow> hash_key (virtual_key n i) \<notin> points R"
  shows "remove_node n (add_node n R) = R"
proof -
  obtain e where e: "place_points (virtual_nodes R) n (ring R) = ring R @ e" "snd ` set e \<subseteq> {n}"
    using place_points_append [of "virtual_nodes R" n "ring R"] free by blast
  have d: "distinct (keys_of (ring R @ e))"
    using wf place_points_distinct [of "ring R" "virtual_nodes R" n] by (simp add: ring_wf_def e)
  have none: "(h, m) \<in> set (ring R) \<Longrightarrow> m \<noteq> n" for h m using wf n by (force simp: ring_wf_def)
  have all: "(h, m) \<in> set e \<Longrightarrow> m = n" for h m using e(2) by force
  have "filter (\<lambda>(h, m). m = n) (ring R) = []" and "filter (\<lambda>(h, m). m = n) e = e"
    using none all by (auto simp: filter_empty_conv intro!: filter_True)
  then have "filter (\<lambda>(h, m). m = n) (ring R @ e) = e" by simp
  then have "fold AList.delete (map fst (filter (\<lambda>(h, m). m = n) (ring R @ e))) (ring R @ e)
      = filter (\<lambda>(h, m). h \<notin> set (keys_of e)) (ring R @ e)"
    by (simp add: fold_delete_eq_filter)
  also have "\<dots> = ring R"
  proof -
    have "filter (\<lambda>(h, m). h \<notin> set (keys_of e)) (ring R) = ring R"
      using d by (intro filter_True) force
    moreover have "filter (\<lambda>(h, m). h \<notin> set (keys_of e)) e = []"
      by (force simp: filter_empty_conv)
    ultimately show ?thesis by simp
  qed
  finally show ?thesis
    using wf n by (simp add: remove_node_def add_node_def Let_def e ring_wf_def)
qed

section \<open>The replica walk\<close>

text \<open>The node of each point, clockwise from the key: what the loop of \<open>get_replicas\<close> visits.\<close>

definition clockwise :: "hash_ring \<Rightarrow> string \<Rightarrow> string list" where
  "clockwise R key =
     map (\<lambda>p. the (owner_at R p)) (rotate (start_index R key) (sorted_keys R))"

fun collect :: "int \<Rightarrow> 'a list \<Rightarrow> 'a list \<Rightarrow> 'a list" where
  "collect rf reps [] = reps"
| "collect rf reps (x # xs) =
     (if int (length reps) < rf then collect rf (if x \<in> set reps then reps else reps @ [x]) xs
      else reps)"

lemma collect_nub:
  "collect rf reps xs = reps @ take (nat rf - length reps) (nub (filter (\<lambda>x. x \<notin> set reps) xs))"
proof (induction xs arbitrary: reps)
  case (Cons x xs)
  show ?case
  proof (cases "int (length reps) < rf \<and> x \<notin> set reps")
    case True
    then have "nat rf - length reps = Suc (nat rf - length (reps @ [x]))" by (simp; linarith)
    then show ?thesis using True Cons by (simp add: conj_commute)
  qed (use Cons in auto)
qed simp

lemma rotate_nth: "rotate n xs = map (\<lambda>j. xs ! ((n + j) mod length xs)) [0..<length xs]"
  by (rule nth_equalityI) (simp_all add: nth_rotate add.commute)

lemma replica_loop_collect:
  assumes wf: "ring_wf R" and "idx < length (sorted_keys R)"
  shows "replica_loop left R rf idx reps (set reps) =
    Inr (collect rf reps
      (map (\<lambda>j. the (owner_at R (sorted_keys R ! ((idx + j) mod length (sorted_keys R))))) [0..<left]))"
  using assms(2)
proof (induction left arbitrary: idx reps)
  case (Suc left)
  let ?l = "length (sorted_keys R)"
  let ?o = "\<lambda>i. the (owner_at R (sorted_keys R ! (i mod ?l)))"
  have own: "point_owner R idx = Inr (?o idx)" using point_owner_ok [OF wf Suc.prems] Suc.prems by auto
  have "map (\<lambda>j. ?o (idx + j)) [0..<Suc left]
      = ?o idx # map (\<lambda>j. ?o ((idx + 1) mod ?l + j)) [0..<left]"
    unfolding upt_conv_Cons [OF zero_less_Suc] map_Suc_upt [symmetric] mod_add_left_eq
    by (simp add: comp_def)
  moreover have "(idx + 1) mod ?l < ?l" using Suc.prems by (intro mod_less_divisor) linarith
  ultimately show ?case
    using Suc.IH [of "(idx + 1) mod ?l" reps] Suc.IH [of "(idx + 1) mod ?l" "reps @ [?o idx]"] own
    by (simp add: insert_absorb Let_def)
qed simp

lemma get_replicas_walk:
  assumes wf: "ring_wf R"
  shows "get_replicas R key rf = Inr (take (nat rf) (nub (clockwise R key)))"
proof (cases "ring R = []")
  case True
  with wf show ?thesis by (simp add: get_replicas_def clockwise_def ring_wf_def)
next
  case False
  show ?thesis
    using replica_loop_collect [OF wf start_index_succ(1) [OF wf False, of key],
        where left = "length (ring R)" and rf = rf and reps = "[]"]
      False wf_keys(3) [OF wf]
    unfolding collect_nub
    by (simp add: get_replicas_def clockwise_def rotate_nth comp_def)
qed

lemma set_clockwise: "ring_wf R \<Longrightarrow> set (clockwise R key) = snd ` set (ring R)"
proof -
  assume wf: "ring_wf R"
  then have "set (clockwise R key) = (\<lambda>p. the (owner_at R p)) ` fst ` set (ring R)"
    by (simp add: clockwise_def wf_keys)
  also have "\<dots> = snd ` set (ring R)"
    using wf by (force simp: ring_wf_def image_image)
  finally show ?thesis .
qed

lemma hd_clockwise:
  assumes "ring_wf R" and "ring R \<noteq> []"
  shows "clockwise R key \<noteq> [] \<and> ring_owner R key = Some (hd (clockwise R key))"
proof -
  note st = start_index_succ [OF assms, of key]
  then have ne: "sorted_keys R \<noteq> []" by auto
  then have "hd (rotate (start_index R key) (sorted_keys R)) = sorted_keys R ! start_index R key"
    using st by (simp add: hd_rotate_conv_nth)
  with st ne ring_owner_Some [OF assms, of key] show ?thesis
    by (auto simp: clockwise_def hd_map ring_owner_def assms(2))
qed

section \<open>Rings built from a list of nodes\<close>

lemma fold_add_node_nodes:
  "ring_nodes (fold add_node ns R) = set ns \<union> ring_nodes R"
  by (induction ns arbitrary: R) (auto simp: add_node_def Let_def)

lemma HashRing_nodes [simp]: "ring_nodes (HashRing ns vn) = set ns"
  by (simp add: HashRing_def fold_add_node_nodes empty_ring_def)

lemma virtual_nodes_add [simp]: "virtual_nodes (add_node n R) = virtual_nodes R"
  by (simp add: add_node_def Let_def)

lemma virtual_nodes_HashRing [simp]: "virtual_nodes (HashRing ns vn) = vn"
proof -
  have "virtual_nodes (fold add_node ns R) = virtual_nodes R" for R
    by (induction ns arbitrary: R) simp_all
  then show ?thesis by (simp add: HashRing_def empty_ring_def)
qed

lemma add_node_points_mono: "points R \<subseteq> points (add_node n R)"
proof (cases "n \<in> ring_nodes R")
  case False
  then show ?thesis unfolding points_dom by (auto simp: add_node_owner_at)
qed (simp add: add_node_def)

lemma HashRing_points:
  assumes "n \<in> set ns" and "i < nat vn"
  shows "hash_key (virtual_key n i) \<in> points (HashRing ns vn)"
proof -
  have mono: "points R \<subseteq> points (fold add_node ns R)" for ns R
  proof (induction ns arbitrary: R)
    case (Cons m ms)
    show ?case using add_node_points_mono [of R m] Cons.IH [of "add_node m R"] by simp
  qed simp
  have "n \<in> set ns \<Longrightarrow> n \<notin> ring_nodes R \<Longrightarrow> virtual_nodes R = vn \<Longrightarrow>
      hash_key (virtual_key n i) \<in> points (fold add_node ns R)" for R
  proof (induction ns arbitrary: R)
    case (Cons m ms)
    show ?case
    proof (cases "m = n")
      case True
      with Cons.prems assms(2) have "hash_key (virtual_key n i) \<in> points (add_node n R)"
        unfolding points_dom by (auto simp: add_node_owner_at)
      with True mono [of "add_node n R" ms] show ?thesis by auto
    next
      case False
      with Cons show ?thesis by (simp add: add_node_def Let_def)
    qed
  qed simp
  with assms show ?thesis by (simp add: HashRing_def empty_ring_def)
qed

lemma HashRing_ne: "ns \<noteq> [] \<Longrightarrow> 0 < vn \<Longrightarrow> ring (HashRing ns vn) \<noteq> []"
  using HashRing_points [of "hd ns" ns 0 vn] by force

text \<open>The points a node places, and the node a point of a built ring belongs to: the last to place it.\<close>

definition node_points :: "int \<Rightarrow> string \<Rightarrow> int set" where
  "node_points vn n = (\<lambda>i. hash_key (virtual_key n i)) ` {..<nat vn}"

lemma fold_add_node_owner_at:
  assumes "distinct ns" and "set ns \<inter> ring_nodes R = {}"
  shows "owner_at (fold add_node ns R) p =
    (let ms = filter (\<lambda>m. p \<in> node_points (virtual_nodes R) m) ns
     in if ms = [] then owner_at R p else Some (last ms))"
  using assms
proof (induction ns arbitrary: R)
  case (Cons n ns)
  have "ring_nodes (add_node n R) = insert n (ring_nodes R)"
    using Cons.prems by (simp add: add_node_def Let_def)
  then have "set ns \<inter> ring_nodes (add_node n R) = {}" using Cons.prems by auto
  with Cons show ?case by (simp add: Let_def add_node_owner_at node_points_def)
qed simp

lemma HashRing_owner_at:
  assumes "distinct ns"
  shows "owner_at (HashRing ns vn) p =
    (let ms = filter (\<lambda>m. p \<in> node_points vn m) ns in if ms = [] then None else Some (last ms))"
  using fold_add_node_owner_at [OF assms, of "empty_ring vn" p]
  by (simp add: HashRing_def empty_ring_def Let_def)

lemma last_filter: "xs \<noteq> [] \<Longrightarrow> P (last xs) \<Longrightarrow> filter P xs \<noteq> [] \<and> last (filter P xs) = last xs"
  by (induction xs rule: rev_induct) auto

text \<open>
  Rebuilding a ring from a part of its node list, in the same order, keeps every key whose owner
  is still in the list where it is, even when points collide.
\<close>

lemma HashRing_filter_owner:
  assumes d: "distinct ns" and own: "ring_owner (HashRing ns vn) key = Some m" and m: "P m"
  shows "ring_owner (HashRing (filter P ns) vn) key = Some m"
proof -
  let ?S = "HashRing ns vn" and ?T = "HashRing (filter P ns) vn"
  let ?p = "succ_point (points ?S) (hash_key key)"
  note at = HashRing_owner_at [OF d, of vn] HashRing_owner_at [OF distinct_filter [OF d, of P], of vn]
  have sub: "points ?T \<subseteq> points ?S"
    unfolding points_dom by (auto simp: at Let_def filter_empty_conv split: if_splits)
  have pm: "owner_at ?S ?p = Some m" using own by (simp add: ring_owner_def split: if_splits)
  then have "owner_at ?T ?p = Some m"
    using m last_filter [of "filter (\<lambda>m. ?p \<in> node_points vn m) ns" P]
    by (auto simp: at Let_def conj_commute split: if_splits)
  moreover from this have "?p \<in> points ?T" unfolding points_dom by blast
  ultimately have "ring_owner ?T key = ring_owner ?S key"
    using sub pm by (intro ring_owner_mono) simp_all
  with own show ?thesis by simp
qed

section \<open>The interface the cluster manager uses\<close>

text \<open>
  A router is built from a list of node ids and answers for a key its owner and its replicas.
  The laws are what the callers rely on: answers are members, the primary comes first, and
  nothing is raised.
\<close>

locale key_router =
  fixes build :: "string list \<Rightarrow> 'r"
    and owner :: "'r \<Rightarrow> string \<Rightarrow> string option py"
    and replicas :: "'r \<Rightarrow> string \<Rightarrow> int \<Rightarrow> string list py"
  assumes owner_law: "ns \<noteq> [] \<Longrightarrow> \<exists>n\<in>set ns. owner (build ns) key = Inr (Some n)"
    and replicas_law: "\<exists>rs. replicas (build ns) key rf = Inr rs \<and> distinct rs
      \<and> set rs \<subseteq> set ns \<and> length rs \<le> nat rf"
    and primary_law: "ns \<noteq> [] \<Longrightarrow> 0 < rf \<Longrightarrow>
      \<exists>n rs. replicas (build ns) key rf = Inr (n # rs) \<and> owner (build ns) key = Inr (Some n)"
begin

lemma owner_member: "owner (build ns) key = Inr (Some n) \<Longrightarrow> ns \<noteq> [] \<Longrightarrow> n \<in> set ns"
  using owner_law [of ns key] by auto

lemma owner_single: "owner (build [n]) key = Inr (Some n)"
  using owner_law [of "[n]" key] by simp

lemma replicas_member: "replicas (build ns) key rf = Inr rs \<Longrightarrow> n \<in> set rs \<Longrightarrow> n \<in> set ns"
  using replicas_law [of ns key rf] by auto

lemma replicas_nonempty:
  "ns \<noteq> [] \<Longrightarrow> 0 < rf \<Longrightarrow> replicas (build ns) key rf = Inr rs \<Longrightarrow>
     rs \<noteq> [] \<and> owner (build ns) key = Inr (Some (hd rs))"
  using primary_law [of ns rf key] by auto

lemma never_raises:
  "ns \<noteq> [] \<Longrightarrow> owner (build ns) key \<noteq> Inl e \<and> replicas (build ns) key rf \<noteq> Inl e"
  using owner_law [of ns key] replicas_law [of ns key rf] by auto

end

lemma take_nub_clockwise:
  assumes "ring_wf R" and "ring R \<noteq> []" and "0 < rf"
  shows "\<exists>n rs. take (nat rf) (nub (clockwise R key)) = n # rs \<and> ring_owner R key = Some n"
proof -
  from hd_clockwise [OF assms(1,2), of key] obtain n ns
    where c: "clockwise R key = n # ns" "ring_owner R key = Some n" by (cases "clockwise R key") auto
  from assms(3) obtain m where "nat rf = Suc m" by (cases "nat rf") auto
  with c show ?thesis by simp
qed

interpretation ring160: key_router "\<lambda>ns. HashRing ns 160" get_node get_replicas
proof unfold_locales
  fix ns key assume ne: "ns \<noteq> ([] :: string list)"
  have wf: "ring_wf (HashRing ns 160)" by (rule ring_wf_HashRing)
  then obtain n where "ring_owner (HashRing ns 160) key = Some n"
    using ring_owner_Some HashRing_ne [OF ne, of 160] by auto
  with wf show "\<exists>n\<in>set ns. get_node (HashRing ns 160) key = Inr (Some n)"
    using ring_owner_member [OF wf] by (auto simp: get_node_owner)
next
  fix ns key rf
  have wf: "ring_wf (HashRing ns 160)" by (rule ring_wf_HashRing)
  then have "snd ` set (ring (HashRing ns 160)) \<subseteq> set ns" by (auto simp: ring_wf_def)
  with wf show "\<exists>rs. get_replicas (HashRing ns 160) key rf = Inr rs \<and> distinct rs
      \<and> set rs \<subseteq> set ns \<and> length rs \<le> nat rf"
    by (auto simp: get_replicas_walk set_clockwise dest!: in_set_takeD)
next
  fix ns key and rf :: int assume ne: "ns \<noteq> ([] :: string list)" and rf: "0 < rf"
  have wf: "ring_wf (HashRing ns 160)" by (rule ring_wf_HashRing)
  with take_nub_clockwise [OF wf HashRing_ne [OF ne] rf, of key]
  show "\<exists>n rs. get_replicas (HashRing ns 160) key rf = Inr (n # rs)
      \<and> get_node (HashRing ns 160) key = Inr (Some n)"
    by (simp add: get_replicas_walk get_node_owner)
qed

section \<open>Properties\<close>

text \<open>
  C22 The lookup never raises on a well-formed ring: it answers \<open>None\<close> for the empty ring and
  otherwise the node of the least point strictly above the key's hash, wrapping to the least
  point of all.
\<close>

theorem get_node_successor:
  assumes "ring_wf R"
  shows "get_node R key = Inr (if ring R = [] then None
    else owner_at R (succ_point (points R) (hash_key key)))"
  using assms by (simp add: get_node_owner ring_owner_def)

text \<open>
  C23 The replica loop returns the first distinct nodes met walking clockwise from the key, at
  most \<open>replication_factor\<close> of them and no fewer unless the ring holds fewer nodes: they are
  pairwise different, they own points, and the first one is the node \<open>get_node\<close> answers.
\<close>

theorem get_replicas_clockwise:
  assumes "ring_wf R"
  shows "\<exists>rs. get_replicas R key rf = Inr rs
    \<and> rs = take (nat rf) (nub (clockwise R key))
    \<and> distinct rs \<and> set rs \<subseteq> snd ` set (ring R)
    \<and> length rs = min (nat rf) (card (snd ` set (ring R)))
    \<and> (ring R \<noteq> [] \<and> 0 < rf \<longrightarrow> get_node R key = Inr (Some (hd rs)))"
proof -
  let ?rs = "take (nat rf) (nub (clockwise R key))"
  have "distinct ?rs" and "length ?rs = min (nat rf) (card (snd ` set (ring R)))"
    by (simp_all add: length_nub set_clockwise [OF assms])
  moreover have "set ?rs \<subseteq> snd ` set (ring R)"
    using set_clockwise [OF assms] by (auto dest: in_set_takeD)
  moreover have "ring R \<noteq> [] \<and> 0 < rf \<longrightarrow> get_node R key = Inr (Some (hd ?rs))"
  proof
    assume "ring R \<noteq> [] \<and> 0 < rf"
    then obtain n ns where "?rs = n # ns" and "ring_owner R key = Some n"
      using take_nub_clockwise [OF assms, of rf key] by blast
    then show "get_node R key = Inr (Some (hd ?rs))" by (simp add: get_node_owner [OF assms])
  qed
  ultimately show ?thesis using get_replicas_walk [OF assms] by blast
qed

text \<open>
  Consistency of a join: after \<open>add_node\<close>, every key is still owned by the node that
  owned it, or is owned by the new node. This holds even when points collide.
\<close>

theorem add_node_moves_keys_only_to_it:
  assumes "ring_wf R"
  shows "get_node (add_node n R) key = get_node R key
    \<or> (n \<notin> ring_nodes R \<and> get_node (add_node n R) key = Inr (Some n))"
proof (cases "n \<in> ring_nodes R")
  case False
  with add_node_owner [OF False, of key] assms show ?thesis
    by (auto simp: get_node_owner ring_wf_add)
qed (simp add: add_node_def)

text \<open>Consistency of a departure: \<open>remove_node\<close> moves only the keys the node owned.\<close>

theorem remove_node_moves_only_its_keys:
  assumes "ring_wf R" and "get_node R key \<noteq> Inr (Some n)"
  shows "get_node (remove_node n R) key = get_node R key"
  using assms by (simp add: get_node_owner ring_wf_remove remove_node_owner)

text \<open>
  C40 A node that joins and leaves again leaves no trace: when none of its points collides with
  a point already placed, \<open>remove_node\<close> after \<open>add_node\<close> gives back the same ring, the
  insertion order of its dictionary included.
\<close>

theorem remove_after_add_restores:
  assumes "ring_wf R" and "n \<notin> ring_nodes R"
    and "\<forall>i < nat (virtual_nodes R). hash_key (virtual_key n i) \<notin> points R"
  shows "remove_node n (add_node n R) = R"
  using assms by (intro remove_add_node) simp_all

text \<open>
  The binary search agrees with a linear scan: on a sorted list \<open>bisect_right\<close> returns the
  number of elements that are at most \<open>x\<close>.
\<close>

theorem bisect_right_scan:
  assumes "sorted a"
  shows "bisect_right a x = length (takeWhile (\<lambda>y. y \<le> x) a)"
proof -
  note b = bisect_right_bounds [OF assms, where x = x]
  have "takeWhile (\<lambda>y. y \<le> x) a = take (bisect_right a x) a"
    using b by (intro takeWhile_eq_take_P_nth) (auto simp: not_le)
  with b(1) show ?thesis by simp
qed

text \<open>
  Every ring the constructor builds is well formed, its members are exactly the given
  nodes, and every virtual key of every member is a point of it, whatever the order of the
  list, its repetitions or the collisions among the points; distinct virtual replicas have
  distinct names.
\<close>

theorem HashRing_points_complete:
  "ring_wf (HashRing ns vn) \<and> ring_nodes (HashRing ns vn) = set ns
   \<and> (\<lambda>(n, i). hash_key (virtual_key n i)) ` (set ns \<times> {..<nat vn}) \<subseteq> points (HashRing ns vn)
   \<and> inj (\<lambda>(n, i). virtual_key n i)"
proof (intro conjI)
  show "inj (\<lambda>(n, i). virtual_key n i)" by (auto intro!: injI dest: virtual_key_inj)
  show "(\<lambda>(n, i). hash_key (virtual_key n i)) ` (set ns \<times> {..<nat vn}) \<subseteq> points (HashRing ns vn)"
    using HashRing_points by fast
qed (simp_all add: ring_wf_HashRing)

section \<open>Witnesses\<close>

text \<open>A ring of two nodes with one point each, its hashes evaluated by the kernel.\<close>

lemma demo_hashes:
  "hash_key (virtual_key ''a'' 0) = 287417676344570401489397452454265867888"
  "hash_key (virtual_key ''b'' 0) = 40339664643828780129851524715318385961"
  "hash_key ''k'' = 187279361568289349169310600456257773043"
  by code_simp+

abbreviation demo_ring :: hash_ring where
  "demo_ring \<equiv> HashRing [''a'', ''b''] 1"

lemma demo_ring_eq:
  "demo_ring = \<lparr>virtual_nodes = 1,
     ring = [(287417676344570401489397452454265867888, ''a''),
             (40339664643828780129851524715318385961, ''b'')],
     sorted_keys = [40339664643828780129851524715318385961, 287417676344570401489397452454265867888],
     ring_nodes = {''b'', ''a''}\<rparr>"
  by (simp add: HashRing_def empty_ring_def add_node_def place_points_def demo_hashes Let_def)

lemma demo_ring_wf: "ring_wf demo_ring"
  by (rule ring_wf_HashRing)

lemma demo_owner:
  "succ_point (points demo_ring) (hash_key ''k'') = 287417676344570401489397452454265867888"
proof -
  have "{p \<in> points demo_ring. hash_key ''k'' < p} = {287417676344570401489397452454265867888}"
    by (auto simp: demo_ring_eq demo_hashes)
  moreover from this have "\<exists>p\<in>points demo_ring. hash_key ''k'' < p" by blast
  ultimately show ?thesis by (simp add: succ_point_def)
qed

lemma demo_get_node: "get_node demo_ring ''k'' = Inr (Some ''a'')"
  unfolding get_node_owner [OF demo_ring_wf] ring_owner_def demo_owner
  by (simp add: demo_ring_eq)

theorem get_node_successor_witness: "get_node demo_ring ''k'' = Inr (Some ''a'')"
  unfolding get_node_successor [OF demo_ring_wf] demo_owner by (simp add: demo_ring_eq)

theorem get_replicas_clockwise_witness:
  "\<exists>rs. get_replicas demo_ring ''k'' 3 = Inr rs \<and> length rs = 2 \<and> hd rs = ''a''"
proof -
  obtain rs where rs: "get_replicas demo_ring ''k'' 3 = Inr rs"
    "length rs = min (nat 3) (card (snd ` set (ring demo_ring)))"
    "get_node demo_ring ''k'' = Inr (Some (hd rs))"
    using get_replicas_clockwise [OF demo_ring_wf, of "''k''" 3] by (force simp: demo_ring_eq)
  with rs demo_get_node show ?thesis by (simp add: demo_ring_eq)
qed

theorem add_node_moves_keys_only_to_it_witness:
  "ring_wf demo_ring \<and>
   (get_node (add_node ''c'' demo_ring) ''k'' = get_node demo_ring ''k''
    \<or> (''c'' \<notin> ring_nodes demo_ring \<and> get_node (add_node ''c'' demo_ring) ''k'' = Inr (Some ''c'')))"
  using add_node_moves_keys_only_to_it [OF demo_ring_wf, of "''c''" "''k''"] demo_ring_wf by blast

theorem remove_node_moves_only_its_keys_witness:
  "get_node demo_ring ''k'' \<noteq> Inr (Some ''b'')
   \<and> get_node (remove_node ''b'' demo_ring) ''k'' = Inr (Some ''a'')"
proof -
  have ne: "get_node demo_ring ''k'' \<noteq> Inr (Some ''b'')" by (simp add: demo_get_node)
  from remove_node_moves_only_its_keys [OF demo_ring_wf ne] ne demo_get_node show ?thesis by simp
qed

theorem remove_after_add_restores_witness:
  "remove_node ''b'' (add_node ''b'' (HashRing [''a''] 1)) = HashRing [''a''] 1"
proof (rule remove_after_add_restores)
  show "ring_wf (HashRing [''a''] 1)" by (rule ring_wf_HashRing)
  show "''b'' \<notin> ring_nodes (HashRing [''a''] 1)" by simp
  have "points (HashRing [''a''] 1) = {287417676344570401489397452454265867888}"
    by (simp add: HashRing_def empty_ring_def add_node_def place_points_def demo_hashes Let_def)
  then show "\<forall>i < nat (virtual_nodes (HashRing [''a''] 1)).
      hash_key (virtual_key ''b'' i) \<notin> points (HashRing [''a''] 1)"
    by (simp add: demo_hashes)
qed

theorem bisect_right_scan_witness: "bisect_right [1, 3, 3, 7] 3 = 3"
  using bisect_right_scan [of "[1, 3, 3, 7]" 3] by simp

end
