(* ===== verification/Models.thy ===== *)
theory Models
  imports Prelude Float64
begin

text \<open>
  The request and response schemas of \<open>gateway/app/models/models.py\<close>, those declared for later
  phases included, and the settings of \<open>gateway/app/config.py\<close> with their defaults. A Pydantic model is a record;
  the validation Pydantic performs before a handler runs (and the environment that may override
  a setting) is outside the model, so a record holds values of the declared types. Fields carry
  a prefix of their class because record fields are global names.
\<close>

section \<open>Node models\<close>

datatype node_status = NODE_ALIVE | NODE_SUSPECT | NODE_DEAD | NODE_RECOVERED

record node_info =
  info_node_id :: string
  info_host :: string
  info_port :: int
  info_zone :: string
  info_status :: node_status
  info_cache_size :: int
  info_cache_capacity :: int
  info_hit_ratio :: rat
  info_memory_bytes :: int
  info_uptime_s :: int
  info_last_heartbeat :: time

record heartbeat_payload =
  hb_node_id :: string
  hb_host :: string
  hb_port :: int
  hb_zone :: string
  hb_status :: string
  hb_cache_size :: int
  hb_cache_capacity :: int
  hb_hit_ratio :: rat
  hb_memory_bytes :: int
  hb_uptime_s :: int
  hb_timestamp :: int

record node_registration =
  nreg_node_id :: string
  nreg_host :: string
  nreg_port :: int
  nreg_zone :: string
  nreg_cache_capacity :: int

section \<open>Cache models\<close>

record cache_get_request =
  cg_zone :: "string option"

record cache_put_request =
  put_value :: string
  put_ttl :: "int option"

record cache_get_response =
  gr_key :: string
  gr_value :: string
  gr_node_id :: string
  gr_zone :: string

record cache_put_response =
  pr_status :: string
  pr_key :: string
  pr_node_id :: string

record cache_delete_response =
  dr_status :: string
  dr_key :: string

record cache_error_response =
  er_error :: string
  er_key :: "string option"

section \<open>Replication models\<close>

record snapshot_entry_model =
  se_key :: string
  se_value :: string
  se_ttl :: int

record snapshot_response =
  sr_node_id :: string
  sr_entries :: "snapshot_entry_model list"

record bulk_load_request =
  blq_entries :: "snapshot_entry_model list"

record bulk_load_response =
  bl_status :: string
  bl_count :: int

section \<open>Cluster models\<close>

record cluster_stats_response =
  total_nodes :: int
  alive_nodes :: int
  dead_nodes :: int
  suspect_nodes :: int
  total_cache_size :: int
  total_capacity :: int
  avg_hit_ratio :: rat
  stats_replication_factor :: int

text \<open>\<open>Any\<close> is a type variable.\<close>

record 'any cluster_event_log =
  clog_timestamp :: string
  clog_event_type :: string
  clog_data :: "(string \<times> 'any) list"

record health_response =
  health_status_text :: string
  health_cluster_size :: int
  health_alive_nodes :: int
  health_uptime_s :: int

section \<open>Rebalancing and circuit breaker models\<close>

record rebalance_request =
  rq_force :: "bool option"

record rebalance_status =
  rbs_status :: string
  rbs_moved_keys :: int
  rbs_remaining_keys :: int
  rbs_affected_nodes :: "string list"

record circuit_breaker_status =
  cbs_node_id :: string
  cbs_status :: string
  cbs_failures :: int
  cbs_last_failure_time :: "rat option"
  cbs_recovery_time :: "rat option"

section \<open>Metrics models\<close>

record node_metrics =
  nx_node_id :: string
  nx_zone :: string
  nx_hits :: int
  nx_misses :: int
  nx_evictions :: int
  nx_expirations :: int
  nx_total_puts :: int
  nx_total_deletes :: int
  nx_hit_ratio :: rat
  nx_cache_size :: int
  nx_cache_capacity :: int
  nx_memory_bytes :: int
  nx_total_requests :: int

record latency_metrics =
  lat_p50_ms :: rat
  lat_p95_ms :: rat
  lat_p99_ms :: rat
  lat_p999_ms :: rat

record request_metrics =
  rm_requests_per_second :: rat
  rm_average_latency_ms :: rat
  rm_max_latency_ms :: rat

section \<open>Settings\<close>

record settings =
  set_host :: string
  set_port :: int
  set_heartbeat_timeout_s :: int
  set_heartbeat_check_interval_s :: int
  set_replication_factor :: int
  set_circuit_breaker_failure_threshold :: int
  set_circuit_breaker_timeout_s :: int
  set_node_request_timeout_s :: int
  set_bloom_filter_size_bytes :: int
  set_read_after_write_pin_ms :: int
  set_log_level :: string

definition default_settings :: settings where
  "default_settings =
     \<lparr>set_host = ''0.0.0.0'', set_port = 8000,
      set_heartbeat_timeout_s = 10, set_heartbeat_check_interval_s = 2,
      set_replication_factor = 3,
      set_circuit_breaker_failure_threshold = 5, set_circuit_breaker_timeout_s = 30,
      set_node_request_timeout_s = 5, set_bloom_filter_size_bytes = 1000000,
      set_read_after_write_pin_ms = 500, set_log_level = ''INFO''\<rparr>"

end
