(* ===== verification/Cluster_Manager.thy ===== *)
theory Cluster_Manager
  imports Prelude Float64 Hash_Ring Models
begin

text \<open>
  The cluster manager, \<open>gateway/app/services/cluster_manager.py\<close>: the node table, the health
  state machine driven by heartbeats and by the timeout scan, the hash ring rebuilt from it, the
  routing and information queries, and the bounded event log.

  An operation takes the reading \<open>now\<close> of \<open>time.time()\<close> and the text \<open>stamp\<close> that
  \<open>datetime.now().isoformat()\<close> gives when it logs; the scan logs at most one event per node and
  takes one text per node. Node objects are shared by nobody but the table, so mutating one is an
  update of its entry.
\<close>

section \<open>Model\<close>

datatype health_status = ALIVE | SUSPECT | DEAD | RECOVERED

record node_metadata =
  nm_node_id :: string
  nm_host :: string
  nm_port :: int
  nm_zone :: string
  nm_status :: health_status
  nm_last_heartbeat :: time
  nm_memory_bytes :: int
  nm_cache_size :: int
  nm_cache_capacity :: int
  nm_hit_ratio :: rat
  nm_failed_attempts :: int
  nm_uptime_s :: int

text \<open>The dataclass constructor with the defaults of the fields it is not given.\<close>

definition NodeMetadata :: "time \<Rightarrow> string \<Rightarrow> string \<Rightarrow> int \<Rightarrow> string \<Rightarrow> node_metadata" where
  "NodeMetadata now node_id host port zone =
     \<lparr>nm_node_id = node_id, nm_host = host, nm_port = port, nm_zone = zone,
      nm_status = ALIVE, nm_last_heartbeat = now, nm_memory_bytes = 0, nm_cache_size = 0,
      nm_cache_capacity = 0, nm_hit_ratio = 0, nm_failed_attempts = 0, nm_uptime_s = 0\<rparr>"

text \<open>The payloads of the event log: the event type and the fields each type carries.\<close>

datatype event_data =
    Node_Registered string string nat
  | Node_Deregistered string nat
  | Node_Recovered string
  | Node_Dead string rat
  | Node_Suspect string int

fun event_type :: "event_data \<Rightarrow> string" where
  "event_type (Node_Registered n z k) = ''node_registered''"
| "event_type (Node_Deregistered n k) = ''node_deregistered''"
| "event_type (Node_Recovered n) = ''node_recovered''"
| "event_type (Node_Dead n t) = ''node_dead''"
| "event_type (Node_Suspect n k) = ''node_suspect''"

type_synonym cluster_event = "string \<times> event_data"

definition HEARTBEAT_TIMEOUT_S :: int where
  "HEARTBEAT_TIMEOUT_S = 15"

definition DEAD_THRESHOLD :: int where
  "DEAD_THRESHOLD = 3"

record cluster_manager =
  heartbeat_timeout_s :: int
  replication_factor :: int
  cm_nodes :: "(string \<times> node_metadata) list"
  cm_ring :: "hash_ring option"
  metrics_log :: "cluster_event list"
  event_log :: "cluster_event list"

definition ClusterManager :: "int \<Rightarrow> int \<Rightarrow> cluster_manager" where
  "ClusterManager timeout rf =
     \<lparr>heartbeat_timeout_s = timeout, replication_factor = rf, cm_nodes = [], cm_ring = None,
      metrics_log = [], event_log = []\<rparr>"

definition log_event :: "string \<Rightarrow> event_data \<Rightarrow> cluster_manager \<Rightarrow> cluster_manager" where
  "log_event stamp data cm =
     (let log = event_log cm @ [(stamp, data)]
      in cm\<lparr>event_log := (if length log > 1000 then tl log else log)\<rparr>)"

definition alive_ids :: "cluster_manager \<Rightarrow> string list" where
  "alive_ids cm = map fst (filter (\<lambda>(nid, n). nm_status n = ALIVE) (cm_nodes cm))"

definition rebuild_hash_ring :: "cluster_manager \<Rightarrow> cluster_manager" where
  "rebuild_hash_ring cm =
     (let alive_nodes = alive_ids cm
      in if alive_nodes = [] then cm\<lparr>cm_ring := None\<rparr>
         else cm\<lparr>cm_ring := Some (HashRing alive_nodes 160)\<rparr>)"

text \<open>The \<open>cache_capacity\<close> argument is accepted and not used, as in the source.\<close>

definition register_node ::
  "time \<Rightarrow> string \<Rightarrow> string \<Rightarrow> string \<Rightarrow> int \<Rightarrow> string \<Rightarrow> int \<Rightarrow> cluster_manager \<Rightarrow> cluster_manager" where
  "register_node now stamp node_id host port zone cache_capacity cm =
     (let cm1 = cm\<lparr>cm_nodes := AList.update node_id (NodeMetadata now node_id host port zone)
                                (cm_nodes cm)\<rparr>;
          cm2 = rebuild_hash_ring cm1
      in log_event stamp (Node_Registered node_id zone (length (cm_nodes cm2))) cm2)"

definition deregister_node :: "string \<Rightarrow> string \<Rightarrow> cluster_manager \<Rightarrow> cluster_manager" where
  "deregister_node stamp node_id cm =
     (if node_id \<notin> set (keys_of (cm_nodes cm)) then cm
      else let cm1 = cm\<lparr>cm_nodes := AList.delete node_id (cm_nodes cm)\<rparr>;
               cm2 = rebuild_hash_ring cm1
           in log_event stamp (Node_Deregistered node_id (length (cm_nodes cm2))) cm2)"

text \<open>The metrics dictionary of a heartbeat, each entry present or not.\<close>

record heartbeat_metrics =
  m_memory_bytes :: "int option"
  m_cache_size :: "int option"
  m_hit_ratio :: "rat option"
  m_uptime_s :: "int option"

definition get_default :: "'a option \<Rightarrow> 'a \<Rightarrow> 'a" where
  "get_default v d = (case v of None \<Rightarrow> d | Some x \<Rightarrow> x)"

definition store_node :: "string \<Rightarrow> node_metadata \<Rightarrow> cluster_manager \<Rightarrow> cluster_manager" where
  "store_node node_id n cm = cm\<lparr>cm_nodes := AList.update node_id n (cm_nodes cm)\<rparr>"

definition process_heartbeat ::
  "time \<Rightarrow> string \<Rightarrow> string \<Rightarrow> heartbeat_metrics \<Rightarrow> cluster_manager \<Rightarrow> cluster_manager" where
  "process_heartbeat now stamp node_id metrics cm =
     (case map_of (cm_nodes cm) node_id of
        None \<Rightarrow> cm
      | Some node \<Rightarrow>
          let node1 = node\<lparr>nm_last_heartbeat := now,
                           nm_memory_bytes := get_default (m_memory_bytes metrics) 0,
                           nm_cache_size := get_default (m_cache_size metrics) 0,
                           nm_hit_ratio := get_default (m_hit_ratio metrics) 0,
                           nm_uptime_s := get_default (m_uptime_s metrics) 0,
                           nm_failed_attempts := 0\<rparr>;
              old_status = nm_status node1
          in if old_status = DEAD
             then rebuild_hash_ring (log_event stamp (Node_Recovered node_id)
                    (store_node node_id (node1\<lparr>nm_status := RECOVERED\<rparr>) cm))
             else if old_status = SUSPECT
             then rebuild_hash_ring (store_node node_id (node1\<lparr>nm_status := ALIVE\<rparr>) cm)
             else store_node node_id node1 cm)"

text \<open>
  \<open>round(x, 1)\<close>: correctly rounded to one decimal, ties to even, and back to a double.
\<close>

definition round_1 :: "rat \<Rightarrow> rat" where
  "round_1 x = fl (of_int (round_half_even (x * 10)) / 10)"

text \<open>One iteration of the scan, on the node \<open>node_id\<close>, with the list of newly dead so far.\<close>

definition check_node ::
  "time \<Rightarrow> (string \<Rightarrow> string) \<Rightarrow> string \<Rightarrow> cluster_manager \<times> string list \<Rightarrow> cluster_manager \<times> string list" where
  "check_node now stamps node_id s =
     (case s of (cm, newly_dead) \<Rightarrow>
        case map_of (cm_nodes cm) node_id of
          None \<Rightarrow> (cm, newly_dead)
        | Some node \<Rightarrow>
            if nm_status node = DEAD then (cm, newly_dead)
            else let time_since_heartbeat = fl (now - nm_last_heartbeat node)
                 in if time_since_heartbeat > of_int (heartbeat_timeout_s cm)
                    then let old_status = nm_status node;
                             node1 = node\<lparr>nm_failed_attempts := nm_failed_attempts node + 1\<rparr>
                         in if nm_failed_attempts node1 \<ge> DEAD_THRESHOLD
                            then (rebuild_hash_ring
                                    (log_event (stamps node_id)
                                       (Node_Dead node_id (round_1 time_since_heartbeat))
                                       (store_node node_id (node1\<lparr>nm_status := DEAD\<rparr>) cm)),
                                  newly_dead @ [node_id])
                            else if old_status = ALIVE
                            then (log_event (stamps node_id)
                                    (Node_Suspect node_id (nm_failed_attempts node1))
                                    (store_node node_id (node1\<lparr>nm_status := SUSPECT\<rparr>) cm),
                                  newly_dead)
                            else (store_node node_id node1 cm, newly_dead)
                    else (cm, newly_dead))"

definition check_heartbeat_timeouts ::
  "time \<Rightarrow> (string \<Rightarrow> string) \<Rightarrow> cluster_manager \<Rightarrow> cluster_manager \<times> string list" where
  "check_heartbeat_timeouts now stamps cm =
     fold (check_node now stamps) (keys_of (cm_nodes cm)) (cm, [])"

definition get_node_for_key :: "cluster_manager \<Rightarrow> string \<Rightarrow> string option py" where
  "get_node_for_key cm key =
     (case cm_ring cm of None \<Rightarrow> Inr None | Some R \<Rightarrow> get_node R key)"

definition get_replicas_for_key :: "cluster_manager \<Rightarrow> string \<Rightarrow> string list py" where
  "get_replicas_for_key cm key =
     (case cm_ring cm of None \<Rightarrow> Inr [] | Some R \<Rightarrow> get_replicas R key (replication_factor cm))"

text \<open>Pydantic reads the \<open>HealthStatus\<close> member as the \<open>NodeStatus\<close> of the same value.\<close>

fun to_node_status :: "health_status \<Rightarrow> node_status" where
  "to_node_status ALIVE = NODE_ALIVE"
| "to_node_status SUSPECT = NODE_SUSPECT"
| "to_node_status DEAD = NODE_DEAD"
| "to_node_status RECOVERED = NODE_RECOVERED"

definition get_node_info :: "cluster_manager \<Rightarrow> string \<Rightarrow> node_info option" where
  "get_node_info cm node_id =
     (case map_of (cm_nodes cm) node_id of
        None \<Rightarrow> None
      | Some n \<Rightarrow> Some
          \<lparr>info_node_id = nm_node_id n, info_host = nm_host n, info_port = nm_port n,
           info_zone = nm_zone n, info_status = to_node_status (nm_status n),
           info_cache_size = nm_cache_size n, info_cache_capacity = nm_cache_capacity n,
           info_hit_ratio = nm_hit_ratio n, info_memory_bytes = nm_memory_bytes n,
           info_uptime_s = nm_uptime_s n, info_last_heartbeat = nm_last_heartbeat n\<rparr>)"

definition get_all_node_infos :: "cluster_manager \<Rightarrow> node_info option list" where
  "get_all_node_infos cm = map (get_node_info cm) (sort (keys_of (cm_nodes cm)))"

text \<open>The float sum runs from the left, rounding each addition (Python 3.11, as deployed).\<close>

definition get_cluster_stats :: "cluster_manager \<Rightarrow> cluster_stats_response" where
  "get_cluster_stats cm =
     (let nodes = map snd (cm_nodes cm);
          count = (\<lambda>s. int (length (filter (\<lambda>n. nm_status n = s) nodes)))
      in \<lparr>total_nodes = int (length (cm_nodes cm)), alive_nodes = count ALIVE,
          dead_nodes = count DEAD, suspect_nodes = count SUSPECT,
          total_cache_size = sum_list (map nm_cache_size nodes),
          total_capacity = sum_list (map nm_cache_capacity nodes),
          avg_hit_ratio =
            (if nodes = [] then 0
             else fl (foldl (\<lambda>s n. fl (s + nm_hit_ratio n)) 0 nodes / of_nat (length nodes))),
          stats_replication_factor = replication_factor cm\<rparr>)"

text \<open>The slice \<open>xs[i:]\<close> with Python's reading of a negative index.\<close>

definition slice_from :: "'a list \<Rightarrow> int \<Rightarrow> 'a list" where
  "slice_from xs i = (if i < 0 then drop (nat (int (length xs) + i)) xs else drop (nat i) xs)"

definition get_event_log :: "cluster_manager \<Rightarrow> int \<Rightarrow> cluster_event list" where
  "get_event_log cm limit = slice_from (event_log cm) (- limit)"

section \<open>Sequences of operations\<close>

text \<open>
  The operations that change the manager. \<open>Relocate\<close> is the assignment the heartbeat endpoint
  makes to the host and port of a known node.
\<close>

definition relocate_node :: "string \<Rightarrow> string \<Rightarrow> int \<Rightarrow> cluster_manager \<Rightarrow> cluster_manager" where
  "relocate_node node_id host port cm =
     (case map_of (cm_nodes cm) node_id of
        None \<Rightarrow> cm
      | Some node \<Rightarrow> store_node node_id (node\<lparr>nm_host := host, nm_port := port\<rparr>) cm)"

datatype cluster_op =
    Register time string string string int string int
  | Deregister string string
  | Relocate string string int
  | Heartbeat time string string heartbeat_metrics
  | Scan time "string \<Rightarrow> string"

fun cluster_step :: "cluster_manager \<Rightarrow> cluster_op \<Rightarrow> cluster_manager" where
  "cluster_step cm (Register now stamp n host port zone cap) = register_node now stamp n host port zone cap cm"
| "cluster_step cm (Deregister stamp n) = deregister_node stamp n cm"
| "cluster_step cm (Relocate n host port) = relocate_node n host port cm"
| "cluster_step cm (Heartbeat now stamp n m) = process_heartbeat now stamp n m cm"
| "cluster_step cm (Scan now stamps) = fst (check_heartbeat_timeouts now stamps cm)"

abbreviation node_of :: "cluster_manager \<Rightarrow> string \<Rightarrow> node_metadata option" where
  "node_of cm n \<equiv> map_of (cm_nodes cm) n"

definition status_of :: "cluster_manager \<Rightarrow> string \<Rightarrow> health_status option" where
  "status_of cm n = map_option nm_status (node_of cm n)"

section \<open>Frames\<close>

lemma log_event_frame [simp]:
  "cm_nodes (log_event stamp d cm) = cm_nodes cm" "cm_ring (log_event stamp d cm) = cm_ring cm"
  "heartbeat_timeout_s (log_event stamp d cm) = heartbeat_timeout_s cm"
  "replication_factor (log_event stamp d cm) = replication_factor cm"
  by (simp_all add: log_event_def Let_def)

lemma rebuild_frame [simp]:
  "cm_nodes (rebuild_hash_ring cm) = cm_nodes cm" "event_log (rebuild_hash_ring cm) = event_log cm"
  "heartbeat_timeout_s (rebuild_hash_ring cm) = heartbeat_timeout_s cm"
  "replication_factor (rebuild_hash_ring cm) = replication_factor cm"
  by (simp_all add: rebuild_hash_ring_def Let_def)

lemma store_node_frame [simp]:
  "cm_nodes (store_node n x cm) = AList.update n x (cm_nodes cm)" "cm_ring (store_node n x cm) = cm_ring cm"
  "event_log (store_node n x cm) = event_log cm"
  "heartbeat_timeout_s (store_node n x cm) = heartbeat_timeout_s cm"
  "replication_factor (store_node n x cm) = replication_factor cm"
  by (simp_all add: store_node_def)

lemma keys_store_present:
  "node_of cm n = Some x \<Longrightarrow> keys_of (AList.update n y (cm_nodes cm)) = keys_of (cm_nodes cm)"
  by (auto simp: update_keys dest!: map_of_SomeD intro: rev_image_eqI)

section \<open>The scan, node by node\<close>

text \<open>What one iteration does to the node it looks at.\<close>

definition aged :: "time \<Rightarrow> int \<Rightarrow> node_metadata \<Rightarrow> node_metadata" where
  "aged now timeout node =
     (if nm_status node = DEAD \<or> \<not> of_int timeout < fl (now - nm_last_heartbeat node) then node
      else if DEAD_THRESHOLD \<le> nm_failed_attempts node + 1
      then node\<lparr>nm_failed_attempts := nm_failed_attempts node + 1, nm_status := DEAD\<rparr>
      else node\<lparr>nm_failed_attempts := nm_failed_attempts node + 1,
                nm_status := (if nm_status node = ALIVE then SUSPECT else nm_status node)\<rparr>)"

definition newly_dead_by :: "time \<Rightarrow> int \<Rightarrow> node_metadata \<Rightarrow> bool" where
  "newly_dead_by now timeout node \<longleftrightarrow>
     nm_status node \<noteq> DEAD \<and> nm_status (aged now timeout node) = DEAD"

lemma aged_unchanged: "nm_status node = DEAD \<Longrightarrow> aged now timeout node = node"
  by (simp add: aged_def)

lemma update_same: "map_of d k = Some v \<Longrightarrow> AList.update k v d = d"
  by (rule update_triv)

lemma check_node_nodes:
  assumes "node_of cm n = Some node"
  shows "cm_nodes (fst (check_node now stamps n (cm, dead)))
      = AList.update n (aged now (heartbeat_timeout_s cm) node) (cm_nodes cm)"
    and "heartbeat_timeout_s (fst (check_node now stamps n (cm, dead))) = heartbeat_timeout_s cm"
    and "replication_factor (fst (check_node now stamps n (cm, dead))) = replication_factor cm"
    and "snd (check_node now stamps n (cm, dead))
      = dead @ (if newly_dead_by now (heartbeat_timeout_s cm) node then [n] else [])"
  using assms by (auto simp: check_node_def aged_def newly_dead_by_def Let_def update_same)

lemma check_node_frame:
  "m \<noteq> n \<Longrightarrow> node_of (fst (check_node now stamps n s)) m = node_of (fst s) m"
  by (cases s; cases "node_of (fst s) n")
    (auto simp: check_node_nodes dict_maps, simp add: check_node_def)

lemma check_node_absent: "node_of cm n = None \<Longrightarrow> check_node now stamps n (cm, dead) = (cm, dead)"
  by (simp add: check_node_def)

lemma check_node_keys:
  "keys_of (cm_nodes (fst (check_node now stamps n (cm, dead)))) = keys_of (cm_nodes cm)"
proof (cases "node_of cm n")
  case (Some node)
  then show ?thesis by (simp only: check_node_nodes(1) [OF Some] keys_store_present)
qed (simp add: check_node_absent)

lemma fold_check_node:
  assumes "distinct ns" and "set ns \<subseteq> set (keys_of (cm_nodes cm))"
  shows "(\<forall>m. node_of (fst (fold (check_node now stamps) ns (cm, dead))) m
        = (if m \<in> set ns then map_option (aged now (heartbeat_timeout_s cm)) (node_of cm m) else node_of cm m))
    \<and> keys_of (cm_nodes (fst (fold (check_node now stamps) ns (cm, dead)))) = keys_of (cm_nodes cm)
    \<and> heartbeat_timeout_s (fst (fold (check_node now stamps) ns (cm, dead))) = heartbeat_timeout_s cm
    \<and> replication_factor (fst (fold (check_node now stamps) ns (cm, dead))) = replication_factor cm
    \<and> snd (fold (check_node now stamps) ns (cm, dead)) = dead @
        filter (\<lambda>n. newly_dead_by now (heartbeat_timeout_s cm) (the (node_of cm n))) ns"
  using assms
proof (induction ns arbitrary: cm dead)
  case (Cons n ns)
  from Cons.prems(2) obtain node where node: "node_of cm n = Some node"
    by (metis list.set_intros(1) map_of_eq_None option.exhaust subsetD)
  obtain cm1 d1 where s: "check_node now stamps n (cm, dead) = (cm1, d1)" by (metis surj_pair)
  note facts = check_node_nodes [OF node, of now stamps dead, unfolded s fst_conv snd_conv]
  have k: "keys_of (cm_nodes cm1) = keys_of (cm_nodes cm)"
    using check_node_keys [of now stamps n cm dead] by (simp add: s)
  have at: "node_of cm1 m = (if m = n then Some (aged now (heartbeat_timeout_s cm) node) else node_of cm m)" for m
    using facts(1) by (simp add: dict_maps)
  have filt: "filter (\<lambda>m. newly_dead_by now (heartbeat_timeout_s cm) (the (node_of cm1 m))) ns
      = filter (\<lambda>m. newly_dead_by now (heartbeat_timeout_s cm) (the (node_of cm m))) ns"
    using Cons.prems(1) by (intro filter_cong) (auto simp: at facts(2))
  have sub: "set ns \<subseteq> set (keys_of (cm_nodes cm1))" unfolding k using Cons.prems(2) by simp
  have step: "fold (check_node now stamps) (n # ns) (cm, dead) = fold (check_node now stamps) ns (cm1, d1)"
    by (simp add: s)
  from Cons.prems(1) have n: "n \<notin> set ns" and d: "distinct ns" by simp_all
  from Cons.IH [OF d sub, of d1] n node show ?case
    unfolding step facts(2,3,4) k unfolding filt unfolding at by auto
qed simp

lemma scan_facts:
  assumes "distinct (keys_of (cm_nodes cm))" and "check_heartbeat_timeouts now stamps cm = (cm', dead)"
  shows "node_of cm' n = map_option (aged now (heartbeat_timeout_s cm)) (node_of cm n)"
    and "keys_of (cm_nodes cm') = keys_of (cm_nodes cm)"
    and "heartbeat_timeout_s cm' = heartbeat_timeout_s cm"
    and "replication_factor cm' = replication_factor cm"
    and "dead = filter (\<lambda>n. newly_dead_by now (heartbeat_timeout_s cm) (the (node_of cm n)))
           (keys_of (cm_nodes cm))"
proof -
  have f: "fst (fold (check_node now stamps) (keys_of (cm_nodes cm)) (cm, [])) = cm'"
    "snd (fold (check_node now stamps) (keys_of (cm_nodes cm)) (cm, [])) = dead"
    using assms(2) by (simp_all add: check_heartbeat_timeouts_def)
  note all = fold_check_node [OF assms(1) order_refl, of now stamps "[]", unfolded f]
  have "n \<notin> set (keys_of (cm_nodes cm)) \<Longrightarrow> node_of cm n = None" by (simp add: map_of_eq_None_iff)
  with all show "node_of cm' n = map_option (aged now (heartbeat_timeout_s cm)) (node_of cm n)"
    by (cases "n \<in> set (keys_of (cm_nodes cm))") simp_all
  from all show "keys_of (cm_nodes cm') = keys_of (cm_nodes cm)"
    and "heartbeat_timeout_s cm' = heartbeat_timeout_s cm"
    and "replication_factor cm' = replication_factor cm"
    and "dead = filter (\<lambda>n. newly_dead_by now (heartbeat_timeout_s cm) (the (node_of cm n)))
           (keys_of (cm_nodes cm))" by simp_all
qed

section \<open>The invariant\<close>

text \<open>The missed-heartbeat counter is tied to the status, and no capacity is ever recorded.\<close>

fun attempts_ok :: "health_status \<Rightarrow> int \<Rightarrow> bool" where
  "attempts_ok ALIVE k = (k = 0)"
| "attempts_ok SUSPECT k = (k = 1 \<or> k = 2)"
| "attempts_ok RECOVERED k = (k = 0 \<or> k = 1 \<or> k = 2)"
| "attempts_ok DEAD k = (k = 3)"

definition node_ok :: "node_metadata \<Rightarrow> bool" where
  "node_ok n \<longleftrightarrow> nm_cache_capacity n = 0 \<and> attempts_ok (nm_status n) (nm_failed_attempts n)"

definition table_ok :: "(string \<times> node_metadata) list \<Rightarrow> bool" where
  "table_ok t \<longleftrightarrow> distinct (keys_of t)
     \<and> (\<forall>n x. map_of t n = Some x \<longrightarrow> nm_node_id x = n \<and> node_ok x)"

text \<open>
  The ring is a ring of 160 points per node over a part of the table, in the order of the table,
  that holds every ALIVE node and no node that is not ALIVE or SUSPECT: a suspicion does not
  rebuild the ring, every other change of status does.
\<close>

definition ring_ok :: "cluster_manager \<Rightarrow> bool" where
  "ring_ok cm \<longleftrightarrow> (case cm_ring cm of
       None \<Rightarrow> \<forall>n. status_of cm n \<noteq> Some ALIVE
     | Some R \<Rightarrow> \<exists>ns. ns \<noteq> [] \<and> R = HashRing ns 160
         \<and> (\<exists>P. ns = filter P (keys_of (cm_nodes cm)))
         \<and> (\<forall>n. status_of cm n = Some ALIVE \<longrightarrow> n \<in> set ns)
         \<and> (\<forall>n\<in>set ns. status_of cm n \<in> {Some ALIVE, Some SUSPECT}))"

definition cluster_ok :: "cluster_manager \<Rightarrow> bool" where
  "cluster_ok cm \<longleftrightarrow> table_ok (cm_nodes cm) \<and> ring_ok cm \<and> length (event_log cm) \<le> 1000"

lemma cluster_ok_init: "cluster_ok (ClusterManager timeout rf)"
  by (simp add: cluster_ok_def ClusterManager_def table_ok_def ring_ok_def status_of_def)

lemma table_ok_update:
  "table_ok t \<Longrightarrow> nm_node_id x = n \<Longrightarrow> node_ok x \<Longrightarrow> table_ok (AList.update n x t)"
  by (auto simp: table_ok_def dict_maps dict_distinct split: if_splits)

lemma table_ok_delete: "table_ok t \<Longrightarrow> table_ok (AList.delete n t)"
  by (auto simp: table_ok_def dict_maps dict_distinct split: if_splits)

lemma log_bound: "length (event_log cm) \<le> 1000 \<Longrightarrow> length (event_log (log_event stamp d cm)) \<le> 1000"
  by (simp add: log_event_def Let_def)

lemma status_of_log [simp]: "status_of (log_event stamp d cm) = status_of cm"
  by (simp add: status_of_def fun_eq_iff)

lemma status_of_rebuild [simp]: "status_of (rebuild_hash_ring cm) = status_of cm"
  by (simp add: status_of_def fun_eq_iff)

lemma status_of_store [simp]: "status_of (store_node n x cm) = (status_of cm)(n \<mapsto> nm_status x)"
  by (auto simp: status_of_def fun_eq_iff dict_maps)

lemma set_alive_ids:
  "distinct (keys_of (cm_nodes cm)) \<Longrightarrow> n \<in> set (alive_ids cm) \<longleftrightarrow> status_of cm n = Some ALIVE"
  by (force simp: alive_ids_def status_of_def image_iff)

lemma alive_ids_filter:
  "distinct (keys_of (cm_nodes cm)) \<Longrightarrow>
     alive_ids cm = filter (\<lambda>n. status_of cm n = Some ALIVE) (keys_of (cm_nodes cm))"
  unfolding alive_ids_def filter_map
  by (intro arg_cong [where f = "map fst"] filter_cong)
    (auto simp: status_of_def dest: eq_key_imp_eq_value)

lemma ring_ok_rebuild:
  assumes "distinct (keys_of (cm_nodes cm))"
  shows "ring_ok (rebuild_hash_ring cm)"
proof (cases "alive_ids cm = []")
  case True
  then have "status_of cm n \<noteq> Some ALIVE" for n using set_alive_ids [OF assms, of n] by simp
  moreover have "cm_ring (rebuild_hash_ring cm) = None" using True by (simp add: rebuild_hash_ring_def)
  ultimately show ?thesis by (simp add: ring_ok_def)
next
  case False
  then have "cm_ring (rebuild_hash_ring cm) = Some (HashRing (alive_ids cm) 160)"
    by (simp add: rebuild_hash_ring_def Let_def)
  with False set_alive_ids [OF assms] alive_ids_filter [OF assms] show ?thesis
    unfolding ring_ok_def by (auto intro!: exI [of _ "alive_ids cm"])
qed

lemma ring_ok_log [simp]: "ring_ok (log_event stamp d cm) = ring_ok cm"
  by (simp add: ring_ok_def split: option.split)

lemma ring_ok_store:
  assumes "ring_ok cm" and "status_of cm n = Some old"
    and "nm_status x = old \<or> old = ALIVE \<and> nm_status x = SUSPECT"
  shows "ring_ok (store_node n x cm)"
proof (cases "cm_ring cm")
  case None
  with assms show ?thesis by (auto simp: ring_ok_def)
next
  case (Some R)
  with assms(1) obtain ns where ns: "ns \<noteq> []" "R = HashRing ns 160"
    "\<forall>m. status_of cm m = Some ALIVE \<longrightarrow> m \<in> set ns"
    "\<forall>m\<in>set ns. status_of cm m \<in> {Some ALIVE, Some SUSPECT}"
    "\<exists>P. ns = filter P (keys_of (cm_nodes cm))"
    unfolding ring_ok_def by auto
  from assms(2) have keys: "keys_of (AList.update n x (cm_nodes cm)) = keys_of (cm_nodes cm)"
    by (auto simp: status_of_def keys_store_present)
  have "\<forall>m. ((status_of cm)(n \<mapsto> nm_status x)) m = Some ALIVE \<longrightarrow> m \<in> set ns"
    using ns(3) assms(2,3) by auto
  moreover have "\<forall>m\<in>set ns. ((status_of cm)(n \<mapsto> nm_status x)) m \<in> {Some ALIVE, Some SUSPECT}"
    using ns(4) assms(2,3) by auto
  ultimately show ?thesis
    unfolding ring_ok_def store_node_frame Some option.case status_of_store keys
    by (intro exI [of _ ns] conjI ns(1) ns(2) ns(5))
qed

lemma cluster_ok_rebuild:
  "table_ok (cm_nodes cm) \<Longrightarrow> length (event_log cm) \<le> 1000 \<Longrightarrow> cluster_ok (rebuild_hash_ring cm)"
  by (simp add: cluster_ok_def ring_ok_rebuild table_ok_def)

lemma cluster_ok_log: "cluster_ok cm \<Longrightarrow> cluster_ok (log_event stamp d cm)"
  by (simp add: cluster_ok_def log_bound)

lemma cluster_ok_store:
  assumes "cluster_ok cm" and "node_of cm n = Some old" and "nm_node_id x = n" and "node_ok x"
    and "nm_status x = nm_status old \<or> nm_status old = ALIVE \<and> nm_status x = SUSPECT"
  shows "cluster_ok (store_node n x cm)"
  using assms by (auto simp: cluster_ok_def table_ok_update status_of_def intro!: ring_ok_store)

lemma cluster_ok_node:
  "cluster_ok cm \<Longrightarrow> node_of cm n = Some x \<Longrightarrow> nm_node_id x = n \<and> node_ok x"
  by (simp add: cluster_ok_def table_ok_def)

lemma cluster_ok_keys: "cluster_ok cm \<Longrightarrow> distinct (keys_of (cm_nodes cm))"
  by (simp add: cluster_ok_def table_ok_def)

text \<open>Storing a changed copy of the node that is there.\<close>

lemma same_node_ok:
  assumes ok: "cluster_ok cm" and node: "node_of cm n = Some node"
  shows "nm_node_id x = nm_node_id node \<Longrightarrow> node_ok x \<Longrightarrow>
      nm_status x = nm_status node \<or> nm_status node = ALIVE \<and> nm_status x = SUSPECT \<Longrightarrow>
      cluster_ok (store_node n x cm)"
    and "nm_node_id x = nm_node_id node \<Longrightarrow> node_ok x \<Longrightarrow> table_ok (AList.update n x (cm_nodes cm))"
    and "length (event_log cm) \<le> 1000"
  using cluster_ok_store [OF ok node, of x] cluster_ok_node [OF ok node] ok
  by (auto simp: cluster_ok_def intro: table_ok_update)

lemma cluster_ok_register: "cluster_ok cm \<Longrightarrow> cluster_ok (register_node now stamp n host port zone cap cm)"
  unfolding register_node_def Let_def
  by (intro cluster_ok_log cluster_ok_rebuild)
    (auto simp: cluster_ok_def NodeMetadata_def node_ok_def intro!: table_ok_update)

lemma cluster_ok_deregister: "cluster_ok cm \<Longrightarrow> cluster_ok (deregister_node stamp n cm)"
  unfolding deregister_node_def Let_def
  by (auto intro!: cluster_ok_log cluster_ok_rebuild) (simp_all add: cluster_ok_def table_ok_delete)

lemma cluster_ok_relocate: "cluster_ok cm \<Longrightarrow> cluster_ok (relocate_node n host port cm)"
  using cluster_ok_node [of cm n]
  by (auto simp: relocate_node_def node_ok_def split: option.split intro!: cluster_ok_store)

lemma cluster_ok_heartbeat:
  assumes ok: "cluster_ok cm"
  shows "cluster_ok (process_heartbeat now stamp n m cm)"
proof (cases "node_of cm n")
  case (Some node)
  from cluster_ok_node [OF ok Some] have node: "node_ok node" by simp
  note upd = same_node_ok [OF ok Some]
  show ?thesis
    using node upd(3) unfolding process_heartbeat_def Some Let_def option.case
    by (cases "nm_status node")
      (auto simp: node_ok_def intro!: cluster_ok_rebuild upd(1,2) log_bound)
qed (use ok in \<open>simp add: process_heartbeat_def\<close>)

lemma cluster_ok_check:
  assumes ok: "cluster_ok cm"
  shows "cluster_ok (fst (check_node now stamps n (cm, dead)))"
proof (cases "node_of cm n")
  case (Some node)
  from cluster_ok_node [OF ok Some] have node: "node_ok node" by simp
  note upd = same_node_ok [OF ok Some]
  show ?thesis
    using node ok upd(3) unfolding check_node_def Some Let_def option.case prod.case
    by (cases "nm_status node")
      (auto simp: node_ok_def DEAD_THRESHOLD_def
        intro!: cluster_ok_rebuild cluster_ok_log upd(1,2) log_bound)
qed (use ok in \<open>simp add: check_node_absent\<close>)

lemma cluster_ok_scan:
  assumes "cluster_ok cm"
  shows "cluster_ok (fst (check_heartbeat_timeouts now stamps cm))"
proof -
  have "cluster_ok (fst s) \<Longrightarrow> cluster_ok (fst (fold (check_node now stamps) ns s))" for ns s
  proof (induction ns arbitrary: s)
    case (Cons n ns)
    then have "cluster_ok (fst (check_node now stamps n s))"
      using cluster_ok_check [of "fst s" now stamps n "snd s"] by simp
    with Cons.IH show ?case by simp
  qed simp
  with assms show ?thesis by (simp add: check_heartbeat_timeouts_def)
qed

lemmas cluster_ok_ops [machine_inv] =
  cluster_ok_register cluster_ok_deregister cluster_ok_relocate cluster_ok_heartbeat cluster_ok_scan

interpretation cluster: event_machine cluster_step cluster_ok
proof unfold_locales
  show "cluster_ok cm \<Longrightarrow> cluster_ok (cluster_step cm e)" for cm e
    by (cases e) (simp_all add: cluster_ok_ops)
qed

end
