(* ===== verification/Cluster_Routing.thy ===== *)
theory Cluster_Routing
  imports Cluster_Manager
begin

text \<open>
  What the cluster manager promises to the request handlers: the invariant over every sequence
  of operations, where keys are routed and which nodes may be routed to, what a topology change
  may move, the aggregate statistics and the event log.
\<close>

section \<open>Routing on states that satisfy the invariant\<close>

definition routable :: "cluster_manager \<Rightarrow> string \<Rightarrow> bool" where
  "routable cm n \<longleftrightarrow> status_of cm n = Some ALIVE \<or> status_of cm n = Some SUSPECT"

lemma ring_ok_ring:
  assumes "ring_ok cm" and "cm_ring cm = Some R"
  obtains ns where "ns \<noteq> []" "R = HashRing ns 160" "\<forall>n\<in>set ns. routable cm n"
  using assms by (auto simp: ring_ok_def routable_def)

lemma route_owner:
  assumes "ring_ok cm"
  shows "\<exists>n. get_node_for_key cm key = Inr n \<and> (n = None \<longleftrightarrow> cm_ring cm = None)
    \<and> (\<forall>m. n = Some m \<longrightarrow> routable cm m)"
proof (cases "cm_ring cm")
  case (Some R)
  with ring_ok_ring [OF assms] obtain ns where ns: "ns \<noteq> []" "R = HashRing ns 160"
    "\<forall>n\<in>set ns. routable cm n" by metis
  with ring160.owner_law [OF ns(1), of key] Some show ?thesis
    by (auto simp: get_node_for_key_def)
qed (simp add: get_node_for_key_def)

lemma route_replicas:
  assumes "ring_ok cm"
  shows "\<exists>rs. get_replicas_for_key cm key = Inr rs \<and> distinct rs
    \<and> length rs \<le> nat (replication_factor cm) \<and> (\<forall>n\<in>set rs. routable cm n)"
proof (cases "cm_ring cm")
  case (Some R)
  with ring_ok_ring [OF assms] obtain ns where ns: "R = HashRing ns 160" "\<forall>n\<in>set ns. routable cm n"
    by metis
  with ring160.replicas_law [of ns key "replication_factor cm"] Some show ?thesis
    by (auto simp: get_replicas_for_key_def)
qed (simp add: get_replicas_for_key_def)

lemma route_primary:
  assumes "ring_ok cm" and "0 < replication_factor cm" and "get_replicas_for_key cm key = Inr rs"
  shows "get_node_for_key cm key = Inr (if rs = [] then None else Some (hd rs))"
proof (cases "cm_ring cm")
  case (Some R)
  with ring_ok_ring [OF assms(1)] obtain ns where ns: "ns \<noteq> []" "R = HashRing ns 160" by metis
  with ring160.replicas_nonempty [OF ns(1) assms(2), of key rs] Some assms(3) show ?thesis
    by (simp add: get_replicas_for_key_def get_node_for_key_def)
qed (use assms(3) in \<open>simp add: get_replicas_for_key_def get_node_for_key_def\<close>)

lemma route_dead:
  assumes "ring_ok cm" and "\<not> routable cm n"
  shows "get_node_for_key cm key \<noteq> Inr (Some n)"
    and "get_replicas_for_key cm key = Inr rs \<Longrightarrow> n \<notin> set rs"
  using route_owner [OF assms(1), of key] route_replicas [OF assms(1), of key] assms(2) by auto

lemma ring_ok_alive: "ring_ok cm \<Longrightarrow> status_of cm n = Some ALIVE \<Longrightarrow> cm_ring cm \<noteq> None"
  by (auto simp: ring_ok_def split: option.splits)

text \<open>The states the operations lead to from a new manager.\<close>

abbreviation cluster_run :: "int \<Rightarrow> int \<Rightarrow> cluster_op list \<Rightarrow> cluster_manager" where
  "cluster_run timeout rf ops \<equiv> foldl cluster_step (ClusterManager timeout rf) ops"

lemma cluster_run_ok: "cluster_ok (cluster_run timeout rf ops)"
  by (rule cluster.inv_run [OF cluster_ok_init])

lemma cluster_run_ring: "ring_ok (cluster_run timeout rf ops)"
  using cluster_run_ok by (simp add: cluster_ok_def)

lemma scan_config:
  "heartbeat_timeout_s (fst (fold (check_node now stamps) ns s)) = heartbeat_timeout_s (fst s)
   \<and> replication_factor (fst (fold (check_node now stamps) ns s)) = replication_factor (fst s)"
proof (induction ns arbitrary: s)
  case (Cons n ns)
  have "heartbeat_timeout_s (fst (check_node now stamps n s)) = heartbeat_timeout_s (fst s)
      \<and> replication_factor (fst (check_node now stamps n s)) = replication_factor (fst s)"
    by (cases s; cases "node_of (fst s) n") (simp_all add: check_node_absent check_node_nodes)
  with Cons show ?case by simp
qed simp

lemma cluster_step_config:
  "heartbeat_timeout_s (cluster_step cm e) = heartbeat_timeout_s cm
   \<and> replication_factor (cluster_step cm e) = replication_factor cm"
  by (cases e)
    (simp_all add: register_node_def deregister_node_def relocate_node_def process_heartbeat_def
      check_heartbeat_timeouts_def scan_config Let_def split: option.split)

lemma cluster_run_config:
  "heartbeat_timeout_s (cluster_run timeout rf ops) = timeout
   \<and> replication_factor (cluster_run timeout rf ops) = rf"
  by (induction ops rule: rev_induct) (simp_all add: cluster_step_config, simp add: ClusterManager_def)

section \<open>What a topology change moves\<close>

lemma HashRing_common_owner:
  assumes "distinct ns" and "distinct ns'"
    and common: "filter (\<lambda>x. x \<in> set ns) ns' = filter (\<lambda>x. x \<in> set ns') ns"
    and "ring_owner (HashRing ns vn) key = Some a" and "a \<in> set ns'"
    and "ring_owner (HashRing ns' vn) key = Some b" and "b \<in> set ns"
  shows "a = b"
proof -
  from assms have "ring_owner (HashRing (filter (\<lambda>x. x \<in> set ns') ns) vn) key = Some a"
    by (intro HashRing_filter_owner)
  moreover from assms have "ring_owner (HashRing (filter (\<lambda>x. x \<in> set ns) ns') vn) key = Some b"
    by (intro HashRing_filter_owner)
  ultimately show ?thesis by (simp add: common)
qed

lemma filter_common:
  assumes "filter (\<lambda>x. x \<in> set K) K' = filter (\<lambda>x. x \<in> set K') K"
  shows "filter (\<lambda>x. x \<in> set (filter P K)) (filter P' K')
    = filter (\<lambda>x. x \<in> set (filter P' K')) (filter P K)"
proof -
  have "filter (\<lambda>x. x \<in> set (filter P K)) (filter P' K')
      = filter (\<lambda>x. P x \<and> P' x) (filter (\<lambda>x. x \<in> set K) K')"
    unfolding filter_filter by (rule filter_cong) auto
  also have "\<dots> = filter (\<lambda>x. x \<in> set (filter P' K')) (filter P K)"
    unfolding assms filter_filter by (rule filter_cong) auto
  finally show ?thesis .
qed

lemma fold_check_keys:
  "keys_of (cm_nodes (fst (fold (check_node now stamps) ns s))) = keys_of (cm_nodes (fst s))"
proof (induction ns arbitrary: s)
  case (Cons n ns)
  then show ?case using check_node_keys [of now stamps n "fst s" "snd s"] by simp
qed simp

lemma filter_in_self: "filter (\<lambda>x. x \<in> set xs) xs = xs" "filter (\<lambda>x. x \<in> set xs \<or> P x) xs = xs"
  by (simp_all add: filter_id_conv)

text \<open>Every operation keeps the order of the nodes that stay in the table.\<close>

lemma cluster_step_keys:
  "filter (\<lambda>n. n \<in> set (keys_of (cm_nodes cm))) (keys_of (cm_nodes (cluster_step cm e)))
    = filter (\<lambda>n. n \<in> set (keys_of (cm_nodes (cluster_step cm e)))) (keys_of (cm_nodes cm))"
proof (cases e)
  case (Register now stamp n host port zone cap)
  then show ?thesis
    by (auto simp: register_node_def Let_def update_keys filter_in_self simp del: set_map)
next
  case (Deregister stamp n)
  then show ?thesis
    by (auto simp: deregister_node_def Let_def delete_keys filter_in_self
        removeAll_filter_not_eq simp del: set_map intro!: filter_cong)
next
  case (Relocate n host port)
  then show ?thesis by (simp add: relocate_node_def keys_store_present del: set_map split: option.split)
next
  case (Heartbeat now stamp n m)
  then show ?thesis
    by (simp add: process_heartbeat_def keys_store_present Let_def del: set_map split: option.split)
next
  case (Scan now stamps)
  then show ?thesis by (simp add: check_heartbeat_timeouts_def fold_check_keys)
qed

definition ring_members :: "cluster_manager \<Rightarrow> string set" where
  "ring_members cm = (case cm_ring cm of None \<Rightarrow> {} | Some R \<Rightarrow> ring_nodes R)"

lemma ring_members_owner:
  assumes "cluster_ok cm" and "get_node_for_key cm key = Inr (Some a)"
  obtains P where "ring_members cm = set (filter P (keys_of (cm_nodes cm)))"
    and "ring_owner (HashRing (filter P (keys_of (cm_nodes cm))) 160) key = Some a"
proof -
  from assms obtain R where R: "cm_ring cm = Some R" "get_node R key = Inr (Some a)"
    by (auto simp: get_node_for_key_def split: option.splits)
  with assms(1) obtain P where P: "R = HashRing (filter P (keys_of (cm_nodes cm))) 160"
    by (auto simp: cluster_ok_def ring_ok_def)
  show thesis
  proof (rule that)
    show "ring_members cm = set (filter P (keys_of (cm_nodes cm)))"
      unfolding ring_members_def R(1) P option.case by (rule HashRing_nodes)
    show "ring_owner (HashRing (filter P (keys_of (cm_nodes cm))) 160) key = Some a"
      using R(2) unfolding P by (simp add: get_node_owner ring_wf_HashRing)
  qed
qed

lemma step_owner:
  assumes ok: "cluster_ok cm" and a: "get_node_for_key cm key = Inr (Some a)"
    and b: "get_node_for_key (cluster_step cm e) key = Inr (Some b)"
    and "a \<in> ring_members (cluster_step cm e)" and "b \<in> ring_members cm"
  shows "a = b"
proof -
  have ok': "cluster_ok (cluster_step cm e)" by (rule cluster.inv_step [OF ok])
  obtain P where P: "ring_members cm = set (filter P (keys_of (cm_nodes cm)))"
    "ring_owner (HashRing (filter P (keys_of (cm_nodes cm))) 160) key = Some a"
    by (rule ring_members_owner [OF ok a])
  obtain P' where P': "ring_members (cluster_step cm e) = set (filter P' (keys_of (cm_nodes (cluster_step cm e))))"
    "ring_owner (HashRing (filter P' (keys_of (cm_nodes (cluster_step cm e)))) 160) key = Some b"
    by (rule ring_members_owner [OF ok' b])
  show ?thesis
    using assms(4,5) cluster_ok_keys [OF ok] cluster_ok_keys [OF ok'] P(2) P'(2)
    unfolding P(1) P'(1)
    by (intro HashRing_common_owner [OF _ _ filter_common [OF cluster_step_keys]])
      (assumption | rule distinct_filter)+
qed

section \<open>Statistics and the event log\<close>

lemma count_statuses:
  "length xs = length (filter (\<lambda>n. nm_status n = ALIVE) xs) + length (filter (\<lambda>n. nm_status n = DEAD) xs)
     + length (filter (\<lambda>n. nm_status n = SUSPECT) xs) + length (filter (\<lambda>n. nm_status n = RECOVERED) xs)"
proof (induction xs)
  case (Cons x xs)
  then show ?case by (cases "nm_status x") simp_all
qed simp

lemma float_sum_bounds:
  assumes "\<forall>x\<in>set xs. 0 \<le> f x \<and> f x \<le> 1" and "0 \<le> s" and "s \<le> of_nat k"
    and "k + length xs \<le> 2 ^ 53"
  shows "0 \<le> foldl (\<lambda>s x. fl (s + f x)) s xs \<and> foldl (\<lambda>s x. fl (s + f x)) s xs \<le> of_nat (k + length xs)"
  using assms
proof (induction xs arbitrary: s k)
  case (Cons x xs)
  have "\<bar>int (Suc k)\<bar> \<le> 2 ^ 53" using Cons.prems(4) by simp
  moreover have "s + f x \<le> of_int (int (Suc k))" using Cons.prems(1,3) by (simp add: add_mono)
  ultimately have "fl (s + f x) \<le> of_int (int (Suc k))" by (intro double.rnd_le_int)
  moreover have "0 \<le> fl (s + f x)" using Cons.prems(1,2) by (intro fl_nonneg) simp
  ultimately show ?case using Cons.IH [of "fl (s + f x)" "Suc k"] Cons.prems(1,4) by simp
qed simp

definition last_n :: "nat \<Rightarrow> 'a list \<Rightarrow> 'a list" where
  "last_n n xs = drop (length xs - n) xs"

lemma tl_last_n: "length xs = Suc n \<Longrightarrow> tl xs = last_n n xs"
  by (simp add: last_n_def drop_Suc)

lemma last_n_snoc: "last_n (Suc n) (xs @ [x]) = last_n n xs @ [x]"
  by (simp add: last_n_def)

lemma log_event_log: "event_log (log_event t d cm) =
  (let log = event_log cm @ [(t, d)] in if length log > 1000 then tl log else log)"
  by (simp add: log_event_def Let_def)

lemma log_window:
  "event_log (fold (\<lambda>(t, d). log_event t d) evs (ClusterManager timeout rf)) = last_n 1000 evs"
proof (induction evs rule: rev_induct)
  case Nil
  show ?case by (simp add: ClusterManager_def last_n_def)
next
  case (snoc ev evs)
  obtain t d where ev: "ev = (t, d)" by fastforce
  show ?case
    unfolding fold_append comp_def
    by (simp add: ev log_event_log snoc Let_def) (auto simp: last_n_def tl_drop simp flip: drop_Suc intro!: arg_cong2 [where f = drop])
qed

lemma slice_last_n: "0 < limit \<Longrightarrow> slice_from xs (- limit) = last_n (nat limit) xs"
  by (auto simp: slice_from_def last_n_def intro!: arg_cong2 [where f = drop])

lemma last_n_last_n: "last_n m (last_n n xs) = last_n (min m n) xs"
  by (auto simp: last_n_def min_def intro!: arg_cong2 [where f = drop])

section \<open>Properties\<close>

text \<open>
  Invariant: whatever the order of registrations, departures, heartbeats and scans, each
  table entry is filed under its own id once, its missed-heartbeat counter is 0 when ALIVE, 1 or
  2 when SUSPECT, at most 2 when RECOVERED and exactly 3 when DEAD, and the event log holds at
  most 1000 events.
\<close>

theorem cluster_invariant:
  assumes "node_of (cluster_run timeout rf ops) n = Some node"
  shows "nm_node_id node = n
    \<and> distinct (keys_of (cm_nodes (cluster_run timeout rf ops)))
    \<and> nm_failed_attempts node \<in> (case nm_status node of ALIVE \<Rightarrow> {0} | SUSPECT \<Rightarrow> {1, 2}
         | RECOVERED \<Rightarrow> {0, 1, 2} | DEAD \<Rightarrow> {DEAD_THRESHOLD})
    \<and> length (event_log (cluster_run timeout rf ops)) \<le> 1000"
proof -
  note ok = cluster_run_ok [of timeout rf ops]
  from cluster_ok_node [OF ok assms] have "nm_node_id node = n" and "node_ok node" by simp_all
  then show ?thesis using cluster_ok_keys [OF ok] ok
    by (cases "nm_status node") (auto simp: node_ok_def cluster_ok_def DEAD_THRESHOLD_def)
qed

text \<open>
  C19 Routing is total and safe: after any sequence of operations, looking up a key never raises;
  the owner and every replica it answers are registered nodes that are ALIVE or SUSPECT, never
  DEAD, RECOVERED or unknown ones; the replicas are different nodes, no more than the replication
  factor, and the first of them is the owner; and as long as some node is ALIVE there is an owner.
\<close>

theorem routing_safe:
  assumes "0 < rf" and "cm = cluster_run timeout rf ops"
  shows "\<exists>rs. get_replicas_for_key cm key = Inr rs
    \<and> get_node_for_key cm key = Inr (if rs = [] then None else Some (hd rs))
    \<and> distinct rs \<and> int (length rs) \<le> rf
    \<and> (\<forall>n\<in>set rs. status_of cm n \<in> {Some ALIVE, Some SUSPECT})
    \<and> (\<forall>n. status_of cm n = Some ALIVE \<longrightarrow> rs \<noteq> [])"
proof -
  have ok: "ring_ok cm" and rf: "replication_factor cm = rf"
    using cluster_run_ring cluster_run_config by (simp_all add: assms(2))
  from route_replicas [OF ok, of key] rf obtain rs where rs: "get_replicas_for_key cm key = Inr rs"
    "distinct rs" "length rs \<le> nat rf" "\<forall>n\<in>set rs. routable cm n" by auto
  from route_primary [OF ok _ rs(1)] rf assms(1)
  have own: "get_node_for_key cm key = Inr (if rs = [] then None else Some (hd rs))" by simp
  with route_owner [OF ok, of key] have "rs = [] \<Longrightarrow> cm_ring cm = None" by (auto split: if_splits)
  with rs own assms(1) ring_ok_alive [OF ok] show ?thesis by (auto simp: routable_def)
qed

text \<open>
  C20 Minimal movement: a single operation of any kind, on any reachable state, moves a key from
  one node to another only if the node it left is no longer on the ring or the node it went to
  was not on the ring before. In particular the death of a node moves only the keys of nodes that
  leave the ring, and a registration moves keys only to nodes that enter it.
\<close>

theorem topology_change_moves_little:
  assumes "cm = cluster_run timeout rf ops" and "cm' = cluster_step cm e"
    and "get_node_for_key cm key = Inr (Some a)" and "get_node_for_key cm' key = Inr (Some b)"
  shows "a = b \<or> a \<notin> ring_members cm' \<or> b \<notin> ring_members cm"
  using step_owner [OF cluster_run_ok, of timeout rf ops key a e b] assms by metis

text \<open>
  Capacity is never recorded: \<open>register_node\<close> drops its \<open>cache_capacity\<close> argument and
  heartbeats do not carry it to the table, so whatever happens every node reports capacity 0 and
  so does the cluster, while the other totals add up to the whole table.
\<close>

theorem capacity_never_recorded:
  "total_capacity (get_cluster_stats (cluster_run timeout rf ops)) = 0
   \<and> map_option info_cache_capacity (get_node_info (cluster_run timeout rf ops) n) \<in> {None, Some 0}"
proof -
  let ?cm = "cluster_run timeout rf ops"
  have cap: "nm_cache_capacity x = 0" if "(m, x) \<in> set (cm_nodes ?cm)" for m x
    using that cluster_ok_node [OF cluster_run_ok, of timeout rf ops m x] cluster_ok_keys [OF cluster_run_ok]
    by (simp add: node_ok_def)
  then have z: "map nm_cache_capacity (map snd (cm_nodes ?cm)) = map (\<lambda>_. 0) (cm_nodes ?cm)"
    unfolding map_map by (intro map_cong) auto
  have "total_capacity (get_cluster_stats ?cm) = 0"
    unfolding get_cluster_stats_def Let_def by (simp add: z del: map_map)
  moreover have "map_option info_cache_capacity (get_node_info ?cm n) \<in> {None, Some 0}"
    using cap [of n] by (cases "node_of ?cm n") (auto simp: get_node_info_def dest: map_of_SomeD)
  ultimately show ?thesis by blast
qed

text \<open>
  The statistics are consistent: the four statuses partition the table, RECOVERED nodes being
  counted in the total only, and when every node reports a hit ratio between 0 and 1 (in a
  cluster of at most \<open>2 ^ 53\<close> nodes) the reported average lies between 0 and 1 in spite of
  the rounding of every addition and of the division.
\<close>

theorem cluster_stats_consistent:
  assumes "\<forall>(m, x)\<in>set (cm_nodes cm). 0 \<le> nm_hit_ratio x \<and> nm_hit_ratio x \<le> 1"
    and "length (cm_nodes cm) \<le> 2 ^ 53"
  shows "total_nodes (get_cluster_stats cm) = alive_nodes (get_cluster_stats cm)
      + dead_nodes (get_cluster_stats cm) + suspect_nodes (get_cluster_stats cm)
      + int (length (filter (\<lambda>(m, x). nm_status x = RECOVERED) (cm_nodes cm)))
    \<and> 0 \<le> avg_hit_ratio (get_cluster_stats cm) \<and> avg_hit_ratio (get_cluster_stats cm) \<le> 1"
proof (intro conjI)
  let ?xs = "map snd (cm_nodes cm)"
  let ?sum = "foldl (\<lambda>s x. fl (s + nm_hit_ratio x)) 0 ?xs"
  show "total_nodes (get_cluster_stats cm) = alive_nodes (get_cluster_stats cm)
      + dead_nodes (get_cluster_stats cm) + suspect_nodes (get_cluster_stats cm)
      + int (length (filter (\<lambda>(m, x). nm_status x = RECOVERED) (cm_nodes cm)))"
    using count_statuses [of ?xs]
    by (simp add: get_cluster_stats_def Let_def filter_map comp_def case_prod_unfold)
  have sum: "0 \<le> ?sum \<and> ?sum \<le> of_nat (length ?xs)"
    using float_sum_bounds [of ?xs nm_hit_ratio 0 0] assms by fastforce
  show "0 \<le> avg_hit_ratio (get_cluster_stats cm)"
    using sum by (auto simp: get_cluster_stats_def Let_def intro!: fl_nonneg)
  have "?xs \<noteq> [] \<Longrightarrow> ?sum / of_nat (length ?xs) \<le> 1"
    using sum by (simp add: divide_le_eq)
  then show "avg_hit_ratio (get_cluster_stats cm) \<le> 1"
    using fl_mono [of "?sum / of_nat (length ?xs)" 1] by (simp add: get_cluster_stats_def Let_def)
qed

text \<open>
  The event log is a window: whatever is logged, it holds the last 1000 events in order, and
  \<open>get_event_log(limit)\<close> returns the last \<open>limit\<close> of them for a positive limit, but the whole
  log for a limit of 0 and the log without its first \<open>-limit\<close> events for a negative one.
\<close>

theorem event_log_window:
  "event_log (fold (\<lambda>(t, d). log_event t d) evs (ClusterManager timeout rf)) = last_n 1000 evs
   \<and> get_event_log (fold (\<lambda>(t, d). log_event t d) evs (ClusterManager timeout rf)) limit
     = (if 0 < limit then last_n (min (nat limit) 1000) evs
        else drop (nat (- limit)) (last_n 1000 evs))"
  using log_window [of evs timeout rf] slice_last_n [of limit "last_n 1000 evs"]
  by (simp add: get_event_log_def last_n_last_n slice_from_def)

section \<open>Witnesses\<close>

abbreviation demo_join :: "string \<Rightarrow> cluster_op" where
  "demo_join n \<equiv> Register 0 ''t'' n ''host'' 8001 ''zone'' 100"

lemmas cluster_eval = register_node_def rebuild_hash_ring_def ClusterManager_def NodeMetadata_def
  log_event_def alive_ids_def Let_def check_heartbeat_timeouts_def check_node_def store_node_def
  DEAD_THRESHOLD_def status_of_def process_heartbeat_def get_default_def deregister_node_def

lemma demo_suspect:
  "node_of (cluster_run 15 3 [demo_join ''a'', Scan 16 (\<lambda>n. ''t'')]) ''a''
     = Some ((NodeMetadata 0 ''a'' ''host'' 8001 ''zone'')\<lparr>nm_status := SUSPECT, nm_failed_attempts := 1\<rparr>)"
  by (simp add: cluster_eval)

theorem cluster_invariant_witness:
  "nm_failed_attempts (the (node_of (cluster_run 15 3 [demo_join ''a'', Scan 16 (\<lambda>n. ''t'')]) ''a'')) \<in> {1, 2}"
  using cluster_invariant [OF demo_suspect] by (simp add: NodeMetadata_def demo_suspect del: foldl_Cons foldl.simps)

theorem routing_safe_witness:
  "\<exists>rs. get_replicas_for_key (cluster_run 15 3 [demo_join ''a'']) ''k'' = Inr rs \<and> rs \<noteq> []
    \<and> get_node_for_key (cluster_run 15 3 [demo_join ''a'']) ''k'' = Inr (Some (hd rs))"
proof -
  have "status_of (cluster_run 15 3 [demo_join ''a'']) ''a'' = Some ALIVE" by (simp add: cluster_eval)
  with routing_safe [of 3 "cluster_run 15 3 [demo_join ''a'']" 15 "[demo_join ''a'']" "''k''"]
  show ?thesis by fastforce
qed

lemma demo_ring_a:
  "cm_ring (cluster_run 15 3 [demo_join ''a'']) = Some (HashRing [''a''] 160)"
  "cm_ring (cluster_step (cluster_run 15 3 [demo_join ''a'']) (demo_join ''b'')) = Some (HashRing [''a'', ''b''] 160)"
  by (simp_all add: cluster_eval)

theorem topology_change_moves_little_witness:
  "\<exists>n. get_node_for_key (cluster_run 15 3 [demo_join ''a'']) ''k'' = Inr (Some ''a'')
    \<and> get_node_for_key (cluster_step (cluster_run 15 3 [demo_join ''a'']) (demo_join ''b'')) ''k'' = Inr (Some n)
    \<and> (''a'' = n \<or> n \<notin> ring_members (cluster_run 15 3 [demo_join ''a'']))"
proof -
  have a: "get_node_for_key (cluster_run 15 3 [demo_join ''a'']) ''k'' = Inr (Some ''a'')"
    unfolding get_node_for_key_def demo_ring_a by (simp add: ring160.owner_single)
  obtain n where n: "get_node_for_key (cluster_step (cluster_run 15 3 [demo_join ''a'']) (demo_join ''b'')) ''k''
      = Inr (Some n)"
    using ring160.owner_law [of "[''a'', ''b'']" "''k''"]
    unfolding get_node_for_key_def demo_ring_a by auto
  have "''a'' \<in> ring_members (cluster_step (cluster_run 15 3 [demo_join ''a'']) (demo_join ''b''))"
    unfolding ring_members_def demo_ring_a by simp
  with topology_change_moves_little [OF refl refl a n] a n show ?thesis by blast
qed

theorem cluster_stats_consistent_witness:
  "0 \<le> avg_hit_ratio (get_cluster_stats (cluster_run 15 3 [demo_join ''a'', demo_join ''b'',
     Heartbeat 1 ''t'' ''b'' \<lparr>m_memory_bytes = None, m_cache_size = None, m_hit_ratio = Some (1/2), m_uptime_s = None\<rparr>]))"
  by (rule cluster_stats_consistent [THEN conjunct2, THEN conjunct1]) (simp_all add: cluster_eval)

end
