(* ===== verification/Failure_Detection.thy ===== *)
theory Failure_Detection
  imports Cluster_Routing
begin

text \<open>
  The health state machine of the cluster manager over arbitrary interleavings of operations:
  what a heartbeat and a scan do to a node, that a silent node is declared DEAD after exactly
  three scans that find it late and is not routed to afterwards, that a node heard from in time
  is never suspected, and what becomes of a node that recovers.
\<close>

section \<open>One operation, seen from one node\<close>

text \<open>The operations that contact the table entry of a node, and the scans that find it late.\<close>

fun contact :: "string \<Rightarrow> cluster_op \<Rightarrow> bool" where
  "contact n (Register now stamp m host port zone cap) = (m = n)"
| "contact n (Deregister stamp m) = (m = n)"
| "contact n (Relocate m host port) = False"
| "contact n (Heartbeat now stamp m metrics) = (m = n)"
| "contact n (Scan now stamps) = False"

fun late_scan :: "int \<Rightarrow> time \<Rightarrow> cluster_op \<Rightarrow> bool" where
  "late_scan timeout heard (Scan now stamps) = (of_int timeout < fl (now - heard))"
| "late_scan timeout heard e = False"

lemma register_other: "m \<noteq> n \<Longrightarrow> node_of (register_node now stamp m host port zone cap cm) n = node_of cm n"
  by (simp add: register_node_def Let_def dict_maps)

lemma deregister_other: "m \<noteq> n \<Longrightarrow> node_of (deregister_node stamp m cm) n = node_of cm n"
  by (simp add: deregister_node_def Let_def dict_maps)

lemma heartbeat_other: "m \<noteq> n \<Longrightarrow> node_of (process_heartbeat now stamp m metrics cm) n = node_of cm n"
  by (simp add: process_heartbeat_def Let_def dict_maps split: option.split)

lemma relocate_node_of:
  "node_of (relocate_node m host port cm) n =
     (if m = n then map_option (\<lambda>x. x\<lparr>nm_host := host, nm_port := port\<rparr>) (node_of cm n) else node_of cm n)"
  by (auto simp: relocate_node_def dict_maps split: option.split)

lemma scan_node_of:
  "cluster_ok cm \<Longrightarrow> node_of (fst (check_heartbeat_timeouts now stamps cm)) n
     = map_option (aged now (heartbeat_timeout_s cm)) (node_of cm n)"
  using scan_facts(1) [OF cluster_ok_keys, of cm now stamps _ _ n] by (metis prod.collapse)

text \<open>The part of a node the detector works with.\<close>

definition health :: "node_metadata \<Rightarrow> health_status \<times> int \<times> time" where
  "health x = (nm_status x, nm_failed_attempts x, nm_last_heartbeat x)"

fun missed_one :: "health_status \<times> int \<times> time \<Rightarrow> health_status \<times> int \<times> time" where
  "missed_one (DEAD, k, t) = (DEAD, k, t)"
| "missed_one (s, k, t) =
     (if 3 \<le> k + 1 then DEAD else if s = ALIVE then SUSPECT else s, k + 1, t)"

lemma health_aged:
  "health (aged now timeout x) =
     (if of_int timeout < fl (now - nm_last_heartbeat x) then missed_one (health x) else health x)"
  by (cases "nm_status x") (auto simp: health_def aged_def DEAD_THRESHOLD_def)

lemma quiet_step:
  assumes ok: "cluster_ok cm" and x: "node_of cm n = Some x" and q: "\<not> contact n e"
  shows "\<exists>y. node_of (cluster_step cm e) n = Some y
    \<and> health y = (if late_scan (heartbeat_timeout_s cm) (nm_last_heartbeat x) e
        then missed_one (health x) else health x)"
  using x q
  by (cases e)
    (auto simp: register_other deregister_other heartbeat_other relocate_node_of
      scan_node_of [OF ok] health_aged, auto simp: health_def)

lemma missed_one_time: "snd (snd (missed_one h)) = snd (snd h)"
  by (induction h rule: missed_one.induct) simp_all

lemma quiet_run:
  assumes "cluster_ok cm" and "node_of cm n = Some x" and "\<forall>e\<in>set es. \<not> contact n e"
  shows "\<exists>y. node_of (foldl cluster_step cm es) n = Some y
    \<and> health y = (missed_one ^^ length (filter (late_scan (heartbeat_timeout_s cm) (nm_last_heartbeat x)) es)) (health x)"
  using assms
proof (induction es arbitrary: cm x)
  case (Cons e es)
  let ?late = "late_scan (heartbeat_timeout_s cm) (nm_last_heartbeat x)"
  from quiet_step [OF Cons.prems(1,2)] Cons.prems(3) obtain y where
    y: "node_of (cluster_step cm e) n = Some y" "health y = (if ?late e then missed_one (health x) else health x)"
    by auto
  have last: "nm_last_heartbeat y = nm_last_heartbeat x"
    using missed_one_time [of "health x"] arg_cong [OF y(2), of "\<lambda>h. snd (snd h)"]
    by (cases "?late e") (simp_all add: health_def [of y] health_def [of x])
  from Cons.IH [OF cluster.inv_step [OF Cons.prems(1)] y(1)] Cons.prems(3) show ?case
    using y(2) by (cases "?late e") (simp_all add: cluster_step_config last funpow_swap1)
qed simp

text \<open>Missing \<open>k\<close> scans at once.\<close>

fun missed_many :: "nat \<Rightarrow> health_status \<times> int \<times> time \<Rightarrow> health_status \<times> int \<times> time" where
  "missed_many j (s, k, t) =
     (if s = DEAD \<or> j = 0 then (s, k, t)
      else (if 3 \<le> k + int j then DEAD else if s = ALIVE then SUSPECT else s, min 3 (k + int j), t))"

lemma missed_one_many:
  "attempts_ok s k \<Longrightarrow> (missed_one ^^ j) (s, k, t) = missed_many j (s, k, t)"
proof (induction j)
  case (Suc j)
  then show ?case by (cases s) auto
qed simp

lemma failure_detector:
  assumes "cm = cluster_run timeout rf ops" and "node_of cm n = Some x" and "nm_status x \<noteq> DEAD"
    and "\<forall>e\<in>set es. \<not> contact n e"
  defines "missed \<equiv> nm_failed_attempts x + int (length (filter (late_scan timeout (nm_last_heartbeat x)) es))"
  shows "\<exists>y. node_of (foldl cluster_step cm es) n = Some y
    \<and> nm_failed_attempts y = min 3 missed
    \<and> nm_status y = (if 3 \<le> missed then DEAD
        else if nm_status x = ALIVE \<and> 0 < missed then SUSPECT else nm_status x)
    \<and> nm_last_heartbeat y = nm_last_heartbeat x"
proof -
  have ok: "cluster_ok cm" and to: "heartbeat_timeout_s cm = timeout"
    by (simp_all add: assms(1) cluster_run_ok cluster_run_config)
  from cluster_ok_node [OF ok assms(2)] have att: "attempts_ok (nm_status x) (nm_failed_attempts x)"
    by (simp add: node_ok_def)
  from quiet_run [OF ok assms(2,4)] obtain y where y: "node_of (foldl cluster_step cm es) n = Some y"
    "health y = missed_many (length (filter (late_scan timeout (nm_last_heartbeat x)) es)) (health x)"
    by (auto simp: to health_def missed_one_many [OF att])
  have "health y = (if 3 \<le> missed then DEAD
        else if nm_status x = ALIVE \<and> 0 < missed then SUSPECT else nm_status x,
      min 3 missed, nm_last_heartbeat x)"
    using att assms(3) unfolding y(2) missed_def by (cases "nm_status x") (auto simp: health_def)
  with y(1) show ?thesis by (simp add: health_def)
qed

section \<open>Heartbeats and recovery\<close>

fun after_heartbeat :: "health_status \<Rightarrow> health_status" where
  "after_heartbeat DEAD = RECOVERED"
| "after_heartbeat SUSPECT = ALIVE"
| "after_heartbeat ALIVE = ALIVE"
| "after_heartbeat RECOVERED = RECOVERED"

lemma heartbeat_node_of:
  "node_of cm n = Some x \<Longrightarrow> node_of (process_heartbeat now stamp n m cm) n = Some
     (x\<lparr>nm_last_heartbeat := now, nm_memory_bytes := get_default (m_memory_bytes m) 0,
        nm_cache_size := get_default (m_cache_size m) 0, nm_hit_ratio := get_default (m_hit_ratio m) 0,
        nm_uptime_s := get_default (m_uptime_s m) 0, nm_failed_attempts := 0,
        nm_status := after_heartbeat (nm_status x)\<rparr>)"
  by (cases "nm_status x") (simp_all add: process_heartbeat_def Let_def dict_maps)

lemma heartbeat_status:
  "status_of cm n = Some s \<Longrightarrow> status_of (process_heartbeat now stamp n m cm) n = Some (after_heartbeat s)"
  using heartbeat_node_of [of cm n _ now stamp m] by (auto simp: status_of_def)

lemma heartbeat_ring:
  "node_of cm n = Some x \<Longrightarrow> cm_ring (process_heartbeat now stamp n m cm) =
     (if after_heartbeat (nm_status x) = nm_status x then cm_ring cm
      else cm_ring (rebuild_hash_ring (process_heartbeat now stamp n m cm)))"
  by (cases "nm_status x")
    (simp_all add: process_heartbeat_def Let_def, simp_all add: rebuild_hash_ring_def alive_ids_def Let_def)

lemma heartbeat_log:
  "node_of cm n = Some x \<Longrightarrow> event_log (process_heartbeat now stamp n m cm) =
     (if nm_status x = DEAD then event_log (log_event stamp (Node_Recovered n) cm) else event_log cm)"
  by (simp add: process_heartbeat_def log_event_log Let_def)

lemma rebuilt_members:
  "distinct (keys_of (cm_nodes cm)) \<Longrightarrow>
     n \<in> ring_members (rebuild_hash_ring cm) \<longleftrightarrow> status_of cm n = Some ALIVE"
  using set_alive_ids [of cm n] by (auto simp: ring_members_def rebuild_hash_ring_def Let_def)

fun readmits :: "string \<Rightarrow> cluster_op \<Rightarrow> bool" where
  "readmits n (Register now stamp m host port zone cap) = (m = n)"
| "readmits n (Deregister stamp m) = (m = n)"
| "readmits n (Relocate m host port) = False"
| "readmits n (Heartbeat now stamp m metrics) = False"
| "readmits n (Scan now stamps) = False"

lemma aged_recovered:
  "nm_status x = RECOVERED \<or> nm_status x = DEAD \<Longrightarrow>
     nm_status (aged now timeout x) = RECOVERED \<or> nm_status (aged now timeout x) = DEAD"
  by (auto simp: aged_def)

lemma recovered_step:
  assumes ok: "cluster_ok cm" and s: "status_of cm n \<in> {Some RECOVERED, Some DEAD}" and "\<not> readmits n e"
  shows "status_of (cluster_step cm e) n \<in> {Some RECOVERED, Some DEAD}"
proof (cases e)
  case (Heartbeat now stamp m metrics)
  show ?thesis
  proof (cases "m = n")
    case True
    with s Heartbeat heartbeat_status [of cm n] show ?thesis by auto
  qed (use s Heartbeat in \<open>simp add: status_of_def heartbeat_other\<close>)
next
  case (Scan now stamps)
  with s show ?thesis
    using aged_recovered by (fastforce simp: status_of_def scan_node_of [OF ok])
qed (use assms(2,3) in \<open>auto simp: status_of_def register_other deregister_other relocate_node_of\<close>)

lemma recovered_run:
  assumes "cluster_ok cm" and "status_of cm n \<in> {Some RECOVERED, Some DEAD}" and "\<forall>e\<in>set es. \<not> readmits n e"
  shows "status_of (foldl cluster_step cm es) n \<in> {Some RECOVERED, Some DEAD}"
  using assms
proof (induction es arbitrary: cm)
  case (Cons e es)
  then have "status_of (cluster_step cm e) n \<in> {Some RECOVERED, Some DEAD}"
    by (intro recovered_step) simp_all
  with Cons.IH [OF cluster.inv_step [OF Cons.prems(1)]] Cons.prems(3) show ?case by simp
qed simp

section \<open>Properties\<close>

text \<open>
  C12 The failure detector is exact: over any sequence of operations in which the node is neither
  registered, deregistered nor heard from, its missed-heartbeat counter grows by one for every
  scan that finds its last heartbeat older than the timeout, up to three, and it is DEAD exactly
  when the counter has reached three; until then an ALIVE node is SUSPECT from the first such
  scan on and any other status stays.
\<close>

theorem failure_detector_exact:
  assumes "cm = cluster_run timeout rf ops" and "node_of cm n = Some x" and "nm_status x \<noteq> DEAD"
    and "\<forall>e\<in>set es. \<not> contact n e"
    and "missed = nm_failed_attempts x + int (length (filter (late_scan timeout (nm_last_heartbeat x)) es))"
  shows "\<exists>y. node_of (foldl cluster_step cm es) n = Some y
    \<and> nm_failed_attempts y = min 3 missed
    \<and> nm_status y = (if 3 \<le> missed then DEAD
        else if nm_status x = ALIVE \<and> 0 < missed then SUSPECT else nm_status x)
    \<and> nm_last_heartbeat y = nm_last_heartbeat x"
  unfolding assms(5) by (rule failure_detector [OF assms(1,2,3,4)])

text \<open>
  Self-healing, the cut-off: a node that is not DEAD and falls silent is declared DEAD by
  three scans made at least a second past the timeout after its last heartbeat, whatever the rest
  of the cluster does, and from then on no key is routed to it.
\<close>

theorem silent_node_is_cut_off:
  assumes "cm = cluster_run timeout rf ops" and "\<bar>timeout\<bar> < 2 ^ 53"
    and "node_of cm n = Some x" and "nm_status x \<noteq> DEAD" and "\<forall>e\<in>set es. \<not> contact n e"
    and "3 \<le> length (filter (\<lambda>e. case e of Scan now stamps \<Rightarrow> of_int timeout + 1 \<le> now - nm_last_heartbeat x
           | _ \<Rightarrow> False) es)"
  shows "status_of (foldl cluster_step cm es) n = Some DEAD
    \<and> get_node_for_key (foldl cluster_step cm es) key \<noteq> Inr (Some n)
    \<and> (\<forall>rs. get_replicas_for_key (foldl cluster_step cm es) key = Inr rs \<longrightarrow> n \<notin> set rs)"
proof -
  let ?late = "late_scan timeout (nm_last_heartbeat x)"
  let ?past = "\<lambda>e. case e of Scan now stamps \<Rightarrow> of_int timeout + 1 \<le> now - nm_last_heartbeat x | _ \<Rightarrow> False"
  have "?past e \<Longrightarrow> ?late e" for e
    using assms(2) by (cases e) (auto intro!: double.rnd_gt_int)
  then have "length (filter ?past es) \<le> length (filter ?late es)"
    by (induction es) auto
  moreover have "0 \<le> nm_failed_attempts x"
    using cluster_ok_node [OF cluster_run_ok, of timeout rf ops n x] assms(1,3)
    by (cases "nm_status x") (auto simp: node_ok_def)
  ultimately have "3 \<le> nm_failed_attempts x + int (length (filter ?late es))"
    using assms(6) by linarith
  with failure_detector [OF assms(1,3,4,5)] have "status_of (foldl cluster_step cm es) n = Some DEAD"
    by (auto simp: status_of_def)
  moreover have "ring_ok (foldl cluster_step cm es)"
    using cluster.inv_run [OF cluster_run_ok, of timeout rf ops es] by (simp add: assms(1) cluster_ok_def)
  ultimately show ?thesis using route_dead [of "foldl cluster_step cm es" n] by (simp add: routable_def)
qed

text \<open>
  No false suspicion: scans made no later than the timeout after a node's last heartbeat
  leave its status and its counter as they are, however many there are and whatever else happens
  meanwhile to other nodes.
\<close>

theorem no_false_suspicion:
  assumes "cm = cluster_run timeout rf ops" and "\<bar>timeout\<bar> \<le> 2 ^ 53"
    and "node_of cm n = Some x" and "nm_status x \<noteq> DEAD" and "\<forall>e\<in>set es. \<not> contact n e"
    and "\<forall>now stamps. Scan now stamps \<in> set es \<longrightarrow> now - nm_last_heartbeat x \<le> of_int timeout"
  shows "\<exists>y. node_of (foldl cluster_step cm es) n = Some y \<and> nm_status y = nm_status x
    \<and> nm_failed_attempts y = nm_failed_attempts x"
proof -
  have "\<not> late_scan timeout (nm_last_heartbeat x) e" if "e \<in> set es" for e
  proof (cases e)
    case (Scan now stamps)
    with that assms(6) have "now - nm_last_heartbeat x \<le> of_int timeout" by blast
    from double.rnd_le_int [OF this assms(2)] Scan show ?thesis by (simp add: not_less)
  qed simp_all
  then have none: "filter (late_scan timeout (nm_last_heartbeat x)) es = []" by (simp add: filter_empty_conv)
  have "attempts_ok (nm_status x) (nm_failed_attempts x)"
    using cluster_ok_node [OF cluster_run_ok, of timeout rf ops n x] assms(1,3) by (simp add: node_ok_def)
  with failure_detector [OF assms(1,3,4,5)] assms(4) show ?thesis
    unfolding none by (cases "nm_status x") (auto split: if_splits)
qed

text \<open>
  The scan reports exactly the deaths: the list it returns holds, once each and in the order of
  the table, the nodes that were not DEAD before it and are DEAD after it, and none of them is
  routed to any more.
\<close>

theorem scan_reports_deaths:
  assumes "cm = cluster_run timeout rf ops" and "check_heartbeat_timeouts now stamps cm = (cm', dead)"
  shows "dead = filter (\<lambda>n. status_of cm n \<noteq> Some DEAD \<and> status_of cm' n = Some DEAD) (keys_of (cm_nodes cm))
    \<and> distinct dead
    \<and> (\<forall>n\<in>set dead. get_node_for_key cm' key \<noteq> Inr (Some n))"
proof -
  have ok: "cluster_ok cm" by (simp add: assms(1) cluster_run_ok)
  note facts = scan_facts [OF cluster_ok_keys [OF ok] assms(2)]
  have dead: "dead = filter (\<lambda>n. status_of cm n \<noteq> Some DEAD \<and> status_of cm' n = Some DEAD) (keys_of (cm_nodes cm))"
    unfolding facts(5)
    by (rule filter_cong)
      (auto simp: status_of_def facts(1) newly_dead_by_def dest: map_of_is_SomeI [OF cluster_ok_keys [OF ok]])
  have "cluster_ok cm'" using cluster_ok_scan [OF ok, of now stamps] by (simp add: assms(2))
  then have "\<forall>n\<in>set dead. get_node_for_key cm' key \<noteq> Inr (Some n)"
    using route_dead(1) [of cm' _ key] by (auto simp: dead cluster_ok_def routable_def)
  with dead cluster_ok_keys [OF ok] show ?thesis by simp
qed

text \<open>
  What a heartbeat does to a known node: it records the time and the metrics, clears the
  counter, turns DEAD into RECOVERED and SUSPECT into ALIVE and keeps the other statuses, leaves
  every other node alone, logs an event exactly on recovery, and when the status changed the ring
  consists of exactly the ALIVE nodes afterwards.
\<close>

theorem heartbeat_effect:
  assumes "cm = cluster_run timeout rf ops" and "node_of cm n = Some x"
    and "cm' = process_heartbeat now stamp n m cm"
  shows "\<exists>y. node_of cm' n = Some y
    \<and> nm_last_heartbeat y = now \<and> nm_failed_attempts y = 0
    \<and> nm_cache_size y = get_default (m_cache_size m) 0 \<and> nm_hit_ratio y = get_default (m_hit_ratio m) 0
    \<and> nm_status y = (case nm_status x of DEAD \<Rightarrow> RECOVERED | SUSPECT \<Rightarrow> ALIVE | s \<Rightarrow> s)
    \<and> (\<forall>k. k \<noteq> n \<longrightarrow> node_of cm' k = node_of cm k)
    \<and> event_log cm' = (if nm_status x = DEAD then event_log (log_event stamp (Node_Recovered n) cm) else event_log cm)
    \<and> (if nm_status y = nm_status x then cm_ring cm' = cm_ring cm
       else ring_members cm' = {k. status_of cm' k = Some ALIVE})"
proof -
  have "cluster_ok cm'"
    unfolding assms(3) by (intro cluster_ok_heartbeat) (simp add: assms(1) cluster_run_ok)
  then have mem: "ring_members (rebuild_hash_ring cm') = {k. status_of cm' k = Some ALIVE}"
    using rebuilt_members [OF cluster_ok_keys] by auto
  have ring: "if after_heartbeat (nm_status x) = nm_status x then cm_ring cm' = cm_ring cm
       else ring_members cm' = {k. status_of cm' k = Some ALIVE}"
    using heartbeat_ring [OF assms(2), of now stamp m] mem unfolding assms(3) ring_members_def by presburger
  show ?thesis
    using ring heartbeat_node_of [OF assms(2), of now stamp m] heartbeat_other [of n _ now stamp m cm]
      heartbeat_log [OF assms(2), of now stamp m]
    unfolding assms(3) [symmetric] by (cases "nm_status x") simp_all
qed

text \<open>
  C38 A recovered node does not rejoin: once a node is RECOVERED, no sequence of heartbeats, scans
  and operations on other nodes makes it ALIVE again, and no key is routed to it, until it is
  registered anew.
\<close>

theorem recovered_never_rejoins:
  assumes "cm = cluster_run timeout rf ops" and "status_of cm n = Some RECOVERED"
    and "\<forall>e\<in>set es. \<not> readmits n e"
  shows "status_of (foldl cluster_step cm es) n \<in> {Some RECOVERED, Some DEAD}
    \<and> get_node_for_key (foldl cluster_step cm es) key \<noteq> Inr (Some n)
    \<and> (\<forall>rs. get_replicas_for_key (foldl cluster_step cm es) key = Inr rs \<longrightarrow> n \<notin> set rs)"
proof -
  have ok: "cluster_ok cm" by (simp add: assms(1) cluster_run_ok)
  have "cluster_ok (foldl cluster_step cm es)" by (rule cluster.inv_run [OF ok])
  moreover have "status_of (foldl cluster_step cm es) n \<in> {Some RECOVERED, Some DEAD}"
    using assms(2) by (intro recovered_run [OF ok _ assms(3)]) simp
  ultimately show ?thesis using route_dead [of "foldl cluster_step cm es" n] by (auto simp: cluster_ok_def routable_def)
qed

section \<open>Witnesses\<close>

abbreviation demo_scan :: "time \<Rightarrow> cluster_op" where
  "demo_scan now \<equiv> Scan now (\<lambda>n. ''t'')"

abbreviation demo_beat :: "time \<Rightarrow> string \<Rightarrow> cluster_op" where
  "demo_beat now n \<equiv> Heartbeat now ''t'' n
     \<lparr>m_memory_bytes = None, m_cache_size = Some 7, m_hit_ratio = None, m_uptime_s = None\<rparr>"

abbreviation demo_a :: node_metadata where
  "demo_a \<equiv> NodeMetadata 0 ''a'' ''host'' 8001 ''zone''"

lemma demo_alive: "node_of (cluster_run 15 3 [demo_join ''a'']) ''a'' = Some demo_a"
  by (simp add: cluster_eval)

lemma demo_a_fields: "nm_status demo_a = ALIVE" "nm_failed_attempts demo_a = 0" "nm_last_heartbeat demo_a = 0"
  by (simp_all add: NodeMetadata_def)

theorem failure_detector_exact_witness:
  "status_of (foldl cluster_step (cluster_run 15 3 [demo_join ''a''])
     [demo_scan 16, demo_scan 15, demo_scan 19, demo_scan 22]) ''a'' = Some DEAD"
proof -
  have "\<forall>e\<in>set [demo_scan 16, demo_scan 15, demo_scan 19, demo_scan 22]. \<not> contact ''a'' e" by simp
  from failure_detector_exact [OF refl demo_alive _ this refl] show ?thesis
    by (auto simp: demo_a_fields status_of_def simp del: foldl.simps foldl_Cons)
qed

theorem silent_node_is_cut_off_witness:
  "get_node_for_key (foldl cluster_step (cluster_run 15 3 [demo_join ''a'', demo_join ''b''])
     [demo_scan 16, demo_scan 19, demo_beat 20 ''b'', demo_scan 22]) ''k'' \<noteq> Inr (Some ''a'')"
proof -
  have "node_of (cluster_run 15 3 [demo_join ''a'', demo_join ''b'']) ''a'' = Some demo_a"
    by (simp add: cluster_eval)
  from silent_node_is_cut_off [OF refl _ this, of "[demo_scan 16, demo_scan 19, demo_beat 20 ''b'', demo_scan 22]" "''k''"]
  show ?thesis by (simp add: demo_a_fields del: foldl.simps foldl_Cons)
qed

theorem no_false_suspicion_witness:
  "status_of (foldl cluster_step (cluster_run 15 3 [demo_join ''a'']) [demo_scan 3, demo_scan 15]) ''a'' = Some ALIVE"
proof -
  have "\<forall>e\<in>set [demo_scan 3, demo_scan 15]. \<not> contact ''a'' e" by simp
  from no_false_suspicion [OF refl _ demo_alive _ this] show ?thesis
    by (auto simp: demo_a_fields status_of_def simp del: foldl.simps foldl_Cons)
qed

theorem scan_reports_deaths_witness:
  "snd (check_heartbeat_timeouts 22 (\<lambda>n. ''t'') (cluster_run 15 3 [demo_join ''a'', demo_scan 16, demo_scan 19]))
     = [''a'']"
proof -
  obtain cm' dead where scan: "check_heartbeat_timeouts 22 (\<lambda>n. ''t'')
      (cluster_run 15 3 [demo_join ''a'', demo_scan 16, demo_scan 19]) = (cm', dead)" by fastforce
  then have "cm' = cluster_run 15 3 [demo_join ''a'', demo_scan 16, demo_scan 19, demo_scan 22]" by simp
  then have "status_of cm' ''a'' = Some DEAD" by (simp add: cluster_eval)
  with scan_reports_deaths [OF refl scan] show ?thesis unfolding scan by (simp add: cluster_eval)
qed

theorem heartbeat_effect_witness:
  "status_of (cluster_step (cluster_run 15 3 [demo_join ''a'', demo_scan 16]) (demo_beat 20 ''a'')) ''a'' = Some ALIVE"
  using heartbeat_effect [OF refl demo_suspect refl, of 20 "''t''"
    "\<lparr>m_memory_bytes = None, m_cache_size = Some 7, m_hit_ratio = None, m_uptime_s = None\<rparr>"]
  by (auto simp: status_of_def simp del: foldl.simps foldl_Cons)

theorem recovered_never_rejoins_witness:
  "get_node_for_key (foldl cluster_step (cluster_run 15 3
      [demo_join ''a'', demo_join ''b'', demo_scan 16, demo_beat 17 ''b'', demo_scan 19, demo_scan 22, demo_beat 23 ''a''])
     [demo_beat 24 ''a'', demo_beat 25 ''a'']) ''k'' \<noteq> Inr (Some ''a'')"
proof -
  have "status_of (cluster_run 15 3 [demo_join ''a'', demo_join ''b'', demo_scan 16, demo_beat 17 ''b'',
      demo_scan 19, demo_scan 22, demo_beat 23 ''a'']) ''a'' = Some RECOVERED"
    by (simp add: cluster_eval)
  from recovered_never_rejoins [OF refl this, of "[demo_beat 24 ''a'', demo_beat 25 ''a'']" "''k''"]
  show ?thesis by (simp del: foldl.simps foldl_Cons)
qed

end
