(* ===== verification/Circuit_Breaker.thy ===== *)
theory Circuit_Breaker
  imports Prelude Float64
begin

text \<open>
  The per-node circuit breaker, \<open>gateway/app/services/circuit_breaker.py\<close>: the enum
  \<open>BreakerState\<close>, the classes \<open>NodeCircuit\<close> and \<open>CircuitBreaker\<close> and every method.
  \<open>_get\<close> creates the circuit of a node on first use, so each method may add an entry, the
  queries \<open>is_available\<close> and \<open>get_status\<close> included. Each method takes the reading
  \<open>now\<close> of the clock; one reading stands for all the calls of \<open>time.time()\<close> in one
  method, which runs without suspension.

  The theorems relate the breaker to an abstract machine per node, show the invariant that ties
  the state to the failure count, and bound when a probe is admitted.
\<close>

section \<open>Model\<close>

datatype breaker_state = CLOSED | OPEN | HALF_OPEN

record node_circuit =
  circuit_node_id :: string
  state :: breaker_state
  failure_count :: int
  last_failure_time :: time
  last_success_time :: time

definition NodeCircuit :: "time \<Rightarrow> string \<Rightarrow> node_circuit" where
  "NodeCircuit now node_id =
     \<lparr>circuit_node_id = node_id, state = CLOSED, failure_count = 0,
      last_failure_time = now, last_success_time = now\<rparr>"

record circuit_breaker =
  failure_threshold :: int
  timeout_s :: int
  states :: "(string \<times> node_circuit) list"

definition CircuitBreaker :: "int \<Rightarrow> int \<Rightarrow> circuit_breaker" where
  "CircuitBreaker threshold timeout =
     \<lparr>failure_threshold = threshold, timeout_s = timeout, states = []\<rparr>"

text \<open>\<open>_get\<close>: the circuit and the breaker that holds it.\<close>

definition get_circuit :: "time \<Rightarrow> string \<Rightarrow> circuit_breaker \<Rightarrow> node_circuit \<times> circuit_breaker" where
  "get_circuit now node_id cb =
     (case map_of (states cb) node_id of
        Some c \<Rightarrow> (c, cb)
      | None \<Rightarrow> let c = NodeCircuit now node_id
                in (c, cb\<lparr>states := AList.update node_id c (states cb)\<rparr>))"

text \<open>The methods mutate the circuit they got, which is the one the dictionary holds.\<close>

definition store_circuit :: "string \<Rightarrow> node_circuit \<Rightarrow> circuit_breaker \<Rightarrow> circuit_breaker" where
  "store_circuit node_id c cb = cb\<lparr>states := AList.update node_id c (states cb)\<rparr>"

definition record_success :: "time \<Rightarrow> string \<Rightarrow> circuit_breaker \<Rightarrow> circuit_breaker" where
  "record_success now node_id cb =
     (case get_circuit now node_id cb of (c, cb') \<Rightarrow>
        store_circuit node_id
          (c\<lparr>last_success_time := now, state := CLOSED, failure_count := 0\<rparr>) cb')"

definition record_failure :: "time \<Rightarrow> string \<Rightarrow> circuit_breaker \<Rightarrow> circuit_breaker" where
  "record_failure now node_id cb =
     (case get_circuit now node_id cb of (c, cb') \<Rightarrow>
        let c1 = c\<lparr>failure_count := failure_count c + 1, last_failure_time := now\<rparr>;
            c2 = if failure_count c1 \<ge> failure_threshold cb' \<and> state c1 \<noteq> OPEN
                 then c1\<lparr>state := OPEN\<rparr> else c1
        in store_circuit node_id c2 cb')"

definition is_available :: "time \<Rightarrow> string \<Rightarrow> circuit_breaker \<Rightarrow> bool \<times> circuit_breaker" where
  "is_available now node_id cb =
     (case get_circuit now node_id cb of (c, cb') \<Rightarrow>
        if state c = CLOSED then (True, cb')
        else if state c = OPEN then
          if fl (now - last_failure_time c) \<ge> of_int (timeout_s cb')
          then (True, store_circuit node_id (c\<lparr>state := HALF_OPEN, failure_count := 0\<rparr>) cb')
          else (False, cb')
        else (True, cb'))"

record breaker_status =
  status_node_id :: string
  status_state :: breaker_state
  status_failures :: int
  status_last_failure_time :: time

definition get_status :: "time \<Rightarrow> string \<Rightarrow> circuit_breaker \<Rightarrow> breaker_status \<times> circuit_breaker" where
  "get_status now node_id cb =
     (case get_circuit now node_id cb of (c, cb') \<Rightarrow>
        (\<lparr>status_node_id = node_id, status_state = state c, status_failures = failure_count c,
          status_last_failure_time = last_failure_time c\<rparr>, cb'))"

section \<open>Sequences of calls\<close>

datatype breaker_event =
    Success time string
  | Failure time string
  | Probe time string
  | Status time string

fun event_node :: "breaker_event \<Rightarrow> string" where
  "event_node (Success t n) = n"
| "event_node (Failure t n) = n"
| "event_node (Probe t n) = n"
| "event_node (Status t n) = n"

fun breaker_step :: "circuit_breaker \<Rightarrow> breaker_event \<Rightarrow> circuit_breaker" where
  "breaker_step cb (Success t n) = record_success t n cb"
| "breaker_step cb (Failure t n) = record_failure t n cb"
| "breaker_step cb (Probe t n) = snd (is_available t n cb)"
| "breaker_step cb (Status t n) = snd (get_status t n cb)"

text \<open>The circuit a method on \<open>n\<close> works on, and the state it is in.\<close>

abbreviation circuit_of :: "circuit_breaker \<Rightarrow> string \<Rightarrow> node_circuit option" where
  "circuit_of cb n \<equiv> map_of (states cb) n"

definition breaker_state_of :: "circuit_breaker \<Rightarrow> string \<Rightarrow> breaker_state" where
  "breaker_state_of cb n = (case circuit_of cb n of None \<Rightarrow> CLOSED | Some c \<Rightarrow> state c)"

lemmas breaker_defs =
  record_success_def record_failure_def is_available_def get_status_def get_circuit_def
  store_circuit_def Let_def

lemma breaker_step_config [simp]:
  "failure_threshold (breaker_step cb e) = failure_threshold cb"
  "timeout_s (breaker_step cb e) = timeout_s cb"
  by (cases e; auto simp: breaker_defs split: option.split)+

lemma breaker_step_frame:
  "m \<noteq> event_node e \<Longrightarrow> circuit_of (breaker_step cb e) m = circuit_of cb m"
  by (cases e) (auto simp: breaker_defs dict_maps split: option.split)

lemma record_failure_config [simp]:
  "failure_threshold (record_failure t n cb) = failure_threshold cb"
  "timeout_s (record_failure t n cb) = timeout_s cb"
  using breaker_step_config [of cb "Failure t n"] by simp_all

section \<open>The abstract machine of one node\<close>

text \<open>
  Closed and half-open count failures, open remembers the last one. The threshold and the
  cooldown are the machine's parameters.
\<close>

datatype spec_state = Closed int | Open time | Half_Open int

fun spec_failure :: "int \<Rightarrow> time \<Rightarrow> spec_state \<Rightarrow> spec_state" where
  "spec_failure thr t (Closed k) = (if thr \<le> k + 1 then Open t else Closed (k + 1))"
| "spec_failure thr t (Half_Open k) = (if thr \<le> k + 1 then Open t else Half_Open (k + 1))"
| "spec_failure thr t (Open s) = Open t"

fun spec_probe :: "int \<Rightarrow> time \<Rightarrow> spec_state \<Rightarrow> spec_state" where
  "spec_probe tmo t (Open s) = (if of_int tmo \<le> fl (t - s) then Half_Open 0 else Open s)"
| "spec_probe tmo t s = s"

fun spec_step :: "int \<Rightarrow> int \<Rightarrow> string \<Rightarrow> spec_state \<Rightarrow> breaker_event \<Rightarrow> spec_state" where
  "spec_step thr tmo n s (Success t m) = (if m = n then Closed 0 else s)"
| "spec_step thr tmo n s (Failure t m) = (if m = n then spec_failure thr t s else s)"
| "spec_step thr tmo n s (Probe t m) = (if m = n then spec_probe tmo t s else s)"
| "spec_step thr tmo n s (Status t m) = s"

definition abs_circuit :: "node_circuit \<Rightarrow> spec_state" where
  "abs_circuit c = (case state c of CLOSED \<Rightarrow> Closed (failure_count c)
     | OPEN \<Rightarrow> Open (last_failure_time c) | HALF_OPEN \<Rightarrow> Half_Open (failure_count c))"

definition abs_breaker :: "circuit_breaker \<Rightarrow> string \<Rightarrow> spec_state" where
  "abs_breaker cb n = (case circuit_of cb n of None \<Rightarrow> Closed 0 | Some c \<Rightarrow> abs_circuit c)"

lemma abs_breaker_step:
  "abs_breaker (breaker_step cb e) n
     = spec_step (failure_threshold cb) (timeout_s cb) n (abs_breaker cb n) e"
  by (cases e)
    (auto simp: breaker_defs abs_breaker_def abs_circuit_def NodeCircuit_def dict_maps
       split: option.split breaker_state.split)

section \<open>The invariant\<close>

definition circuit_ok :: "int \<Rightarrow> node_circuit \<Rightarrow> bool" where
  "circuit_ok thr c \<longleftrightarrow> 0 \<le> failure_count c \<and> (state c = OPEN \<longleftrightarrow> thr \<le> failure_count c)"

definition breaker_ok :: "circuit_breaker \<Rightarrow> bool" where
  "breaker_ok cb \<longleftrightarrow> 1 \<le> failure_threshold cb \<and> distinct (keys_of (states cb))
     \<and> (\<forall>n c. circuit_of cb n = Some c \<longrightarrow>
          circuit_node_id c = n \<and> circuit_ok (failure_threshold cb) c)"

lemma breaker_ok_init: "1 \<le> thr \<Longrightarrow> breaker_ok (CircuitBreaker thr tmo)"
  by (simp add: breaker_ok_def CircuitBreaker_def)

lemma breaker_ok_get:
  "breaker_ok cb \<Longrightarrow> get_circuit t n cb = (c, cb') \<Longrightarrow>
     breaker_ok cb' \<and> 1 \<le> failure_threshold cb' \<and> circuit_node_id c = n
     \<and> circuit_ok (failure_threshold cb') c"
  by (auto simp: breaker_ok_def get_circuit_def circuit_ok_def NodeCircuit_def Let_def dict_maps
      dict_distinct split: option.splits if_splits)

lemma breaker_ok_store:
  "breaker_ok cb \<Longrightarrow> circuit_node_id c = n \<Longrightarrow> circuit_ok (failure_threshold cb) c \<Longrightarrow>
     breaker_ok (store_circuit n c cb)"
  by (auto simp: breaker_ok_def store_circuit_def dict_maps dict_distinct split: if_splits)

lemma breaker_ok_success: "breaker_ok cb \<Longrightarrow> breaker_ok (record_success t n cb)"
  using breaker_ok_get [of cb t n]
  by (auto simp: record_success_def circuit_ok_def split: prod.split intro!: breaker_ok_store)

lemma breaker_ok_failure: "breaker_ok cb \<Longrightarrow> breaker_ok (record_failure t n cb)"
  using breaker_ok_get [of cb t n]
  by (auto simp: record_failure_def circuit_ok_def Let_def split: prod.split intro!: breaker_ok_store)

lemma breaker_ok_probe: "breaker_ok cb \<Longrightarrow> breaker_ok (snd (is_available t n cb))"
  using breaker_ok_get [of cb t n]
  by (auto simp: is_available_def circuit_ok_def split: prod.split intro!: breaker_ok_store)

lemma breaker_ok_status: "breaker_ok cb \<Longrightarrow> breaker_ok (snd (get_status t n cb))"
  using breaker_ok_get [of cb t n] by (auto simp: get_status_def split: prod.split)

lemmas breaker_ok_ops [machine_inv] =
  breaker_ok_success breaker_ok_failure breaker_ok_probe breaker_ok_status

interpretation breaker: event_machine breaker_step breaker_ok
  by unfold_locales (metis (full_types) breaker_ok_ops breaker_step.simps breaker_event.exhaust)

section \<open>Properties\<close>


text \<open>
  Invariant: with a threshold of at least one, after any sequence of calls on a new breaker
  a circuit is OPEN exactly when its failure count has reached the threshold, counts are never
  negative, and each circuit is stored under its own node id.
\<close>

theorem breaker_open_iff_threshold:
  assumes "1 \<le> thr" and "circuit_of (foldl breaker_step (CircuitBreaker thr tmo) es) n = Some c"
  shows "circuit_node_id c = n \<and> 0 \<le> failure_count c
    \<and> (state c = OPEN \<longleftrightarrow> thr \<le> failure_count c)"
proof -
  have "breaker_ok (foldl breaker_step (CircuitBreaker thr tmo) es)"
    using breaker_ok_init [OF assms(1)] by (rule breaker.inv_run)
  moreover have "failure_threshold (foldl breaker_step cb es) = failure_threshold cb" for cb
    by (induction es arbitrary: cb) simp_all
  ultimately show ?thesis
    using assms(2) by (simp add: breaker_ok_def circuit_ok_def CircuitBreaker_def)
qed

lemma abs_breaker_open: "breaker_state_of cb n = OPEN \<longleftrightarrow> (\<exists>t. abs_breaker cb n = Open t)"
  by (auto simp: breaker_state_of_def abs_breaker_def abs_circuit_def
      split: option.split breaker_state.split)

lemma abs_breaker_nonneg:
  "breaker_ok cb \<Longrightarrow> (\<exists>t. abs_breaker cb n = Open t)
     \<or> (\<exists>k \<ge> 0. abs_breaker cb n = Closed k \<or> abs_breaker cb n = Half_Open k)"
  by (auto simp: breaker_ok_def abs_breaker_def abs_circuit_def circuit_ok_def
      split: option.splits breaker_state.split)

lemma spec_open_stays: "\<exists>t. fold (spec_failure thr) ts (Open u) = Open t"
  by (induction ts arbitrary: u) auto

lemma spec_failures_open:
  assumes "thr \<le> k + int (length ts)" and "ts \<noteq> []" and "s = Closed k \<or> s = Half_Open k"
  shows "\<exists>t. fold (spec_failure thr) ts s = Open t"
  using assms
proof (induction ts arbitrary: k s)
  case (Cons t ts)
  show ?case
  proof (cases "thr \<le> k + 1")
    case True
    with Cons.prems have "spec_failure thr t s = Open t" by auto
    with spec_open_stays show ?thesis by simp
  next
    case False
    with Cons.prems have ts: "ts \<noteq> []" "thr \<le> k + 1 + int (length ts)" by auto
    from False Cons.prems(3)
    have s: "spec_failure thr t s = Closed (k + 1) \<or> spec_failure thr t s = Half_Open (k + 1)"
      by auto
    from Cons.IH [OF ts(2,1) s] show ?thesis by simp
  qed
qed simp

lemma abs_breaker_failures:
  "abs_breaker (fold (\<lambda>t. record_failure t n) ts cb) n
     = fold (spec_failure (failure_threshold cb)) ts (abs_breaker cb n)"
proof (induction ts arbitrary: cb)
  case (Cons t ts)
  from abs_breaker_step [of cb "Failure t n" n] Cons show ?case by simp
qed simp

lemma failures_open:
  assumes ok: "breaker_ok cb" and ts: "failure_threshold cb \<le> int (length ts)"
  shows "breaker_state_of (fold (\<lambda>t. record_failure t n) ts cb) n = OPEN"
proof -
  from ok ts have ne: "ts \<noteq> []" by (auto simp: breaker_ok_def)
  consider t where "abs_breaker cb n = Open t"
    | k where "0 \<le> k" "abs_breaker cb n = Closed k \<or> abs_breaker cb n = Half_Open k"
    using abs_breaker_nonneg [OF ok, of n] by blast
  then have "\<exists>t. fold (spec_failure (failure_threshold cb)) ts (abs_breaker cb n) = Open t"
  proof cases
    case 1
    with spec_open_stays show ?thesis by simp
  next
    case 2
    with ts ne show ?thesis by (intro spec_failures_open [where k = k]) auto
  qed
  then show ?thesis by (simp add: abs_breaker_open abs_breaker_failures)
qed

text \<open>
  A node that keeps failing is cut off: from any reachable breaker state, as many failures
  in a row as the threshold open the circuit of that node, whatever the times they happened at.
\<close>

theorem consecutive_failures_open:
  assumes "breaker_ok cb" and "failure_threshold cb \<le> int (length ts)"
  shows "breaker_state_of (fold (\<lambda>t. record_failure t n) ts cb) n = OPEN"
  using assms by (rule failures_open)

text \<open>
  Fail fast and recovery probe: while a circuit is OPEN, a call more than a second before
  the cooldown has passed is refused and changes nothing; once the cooldown has passed, the
  call is admitted, the circuit becomes HALF_OPEN and its failure count restarts at zero. The
  elapsed time is the rounded floating-point difference the code computes.
\<close>

theorem open_circuit_probe:
  assumes c: "circuit_of cb n = Some c" "state c = OPEN" and T: "\<bar>timeout_s cb\<bar> < 2 ^ 53"
  shows "(now - last_failure_time c \<le> of_int (timeout_s cb) - 1 \<longrightarrow>
      is_available now n cb = (False, cb))
    \<and> (of_int (timeout_s cb) \<le> now - last_failure_time c \<longrightarrow>
      is_available now n cb
        = (True, store_circuit n (c\<lparr>state := HALF_OPEN, failure_count := 0\<rparr>) cb))"
proof (intro conjI impI)
  assume "now - last_failure_time c \<le> of_int (timeout_s cb) - 1"
  with T double.rnd_lt_int have "fl (now - last_failure_time c) < of_int (timeout_s cb)" by simp
  with c show "is_available now n cb = (False, cb)"
    by (simp add: is_available_def get_circuit_def)
next
  assume "of_int (timeout_s cb) \<le> now - last_failure_time c"
  with T double.rnd_ge_int have "of_int (timeout_s cb) \<le> fl (now - last_failure_time c)" by simp
  with c show "is_available now n cb
      = (True, store_circuit n (c\<lparr>state := HALF_OPEN, failure_count := 0\<rparr>) cb)"
    by (simp add: is_available_def get_circuit_def)
qed

text \<open>
  Half-open is not limited to one probe: a HALF_OPEN circuit admits every call and stays as
  it is, and with a threshold above one a failed probe leaves it HALF_OPEN, still admitting
  calls; only a run of failures as long as the threshold reopens it.
\<close>

theorem half_open_admits_every_probe:
  assumes c: "circuit_of cb n = Some c" "state c = HALF_OPEN" "failure_count c = 0"
    and thr: "2 \<le> failure_threshold cb"
  shows "is_available now n cb = (True, cb)
    \<and> breaker_state_of (record_failure now n cb) n = HALF_OPEN
    \<and> fst (is_available now' n (record_failure now n cb))
    \<and> (failure_threshold cb \<le> int (length ts) \<longrightarrow>
         breaker_state_of (fold (\<lambda>t. record_failure t n) ts cb) n = OPEN)"
proof -
  have a: "abs_breaker cb n = Half_Open 0" using c by (simp add: abs_breaker_def abs_circuit_def)
  have probe: "is_available now n cb = (True, cb)"
    using c by (simp add: is_available_def get_circuit_def)
  have fail: "record_failure now n cb
      = store_circuit n (c\<lparr>failure_count := 1, last_failure_time := now\<rparr>) cb"
    using c thr by (simp add: record_failure_def get_circuit_def)
  have "breaker_state_of (fold (\<lambda>t. record_failure t n) ts cb) n = OPEN"
    if "failure_threshold cb \<le> int (length ts)"
  proof -
    from that thr have "ts \<noteq> []" by auto
    with that show ?thesis
      unfolding abs_breaker_open abs_breaker_failures a
      by (intro spec_failures_open [where k = 0]) simp_all
  qed
  with probe fail c(2) show ?thesis
    by (simp add: breaker_state_of_def store_circuit_def is_available_def get_circuit_def dict_maps)
qed

section \<open>Witnesses\<close>

lemma demo_breaker:
  "circuit_of (record_failure 10 ''n'' (CircuitBreaker 1 30)) ''n''
     = Some \<lparr>circuit_node_id = ''n'', state = OPEN, failure_count = 1,
             last_failure_time = 10, last_success_time = 10\<rparr>"
  by (simp add: breaker_defs CircuitBreaker_def NodeCircuit_def)

theorem breaker_open_iff_threshold_witness:
  "state \<lparr>circuit_node_id = ''n'', state = OPEN, failure_count = 1,
          last_failure_time = 10, last_success_time = 10\<rparr> = OPEN
   \<and> circuit_of (foldl breaker_step (CircuitBreaker 1 30) [Failure 10 ''n'']) ''n'' \<noteq> None"
  using breaker_open_iff_threshold [of 1 30 "[Failure 10 ''n'']" "''n''"] demo_breaker by simp

theorem consecutive_failures_open_witness:
  "breaker_state_of (fold (\<lambda>t. record_failure t ''n'') [1, 2, 3] (CircuitBreaker 3 30)) ''n'' = OPEN"
  by (rule consecutive_failures_open) (simp_all add: breaker_ok_init, simp add: CircuitBreaker_def)

theorem open_circuit_probe_witness:
  "fst (is_available 20 ''n'' (record_failure 10 ''n'' (CircuitBreaker 1 30))) = False
   \<and> fst (is_available 40 ''n'' (record_failure 10 ''n'' (CircuitBreaker 1 30))) = True"
proof -
  have t: "timeout_s (record_failure 10 ''n'' (CircuitBreaker 1 30)) = 30"
    by (simp add: CircuitBreaker_def)
  from open_circuit_probe [OF demo_breaker, of 20] open_circuit_probe [OF demo_breaker, of 40] t
  show ?thesis by simp
qed

theorem half_open_admits_every_probe_witness:
  "fst (is_available 41 ''n'' (snd (is_available 40 ''n''
     (foldl breaker_step (CircuitBreaker 2 30) [Failure 9 ''n'', Failure 10 ''n'']))))"
proof -
  let ?cb = "snd (is_available 40 ''n''
     (foldl breaker_step (CircuitBreaker 2 30) [Failure 9 ''n'', Failure 10 ''n'']))"
  let ?c = "\<lparr>circuit_node_id = ''n'', state = HALF_OPEN, failure_count = 0,
             last_failure_time = 10, last_success_time = 9\<rparr>"
  have c: "circuit_of ?cb ''n'' = Some ?c" and thr: "2 \<le> failure_threshold ?cb"
    by (simp_all add: breaker_defs CircuitBreaker_def NodeCircuit_def)
  from half_open_admits_every_probe [OF c _ _ thr, of 41] show ?thesis by simp
qed

end
