(* ===== verification/Zone_Router.thy ===== *)
theory Zone_Router
  imports Prelude Float64
begin

text \<open>
  The zone router, \<open>gateway/app/services/zone_router.py\<close>: latency averages per node, the choice
  of a replica to read from, and the pins that are to send reads of a freshly written key to its
  primary. Latencies and clock readings are doubles; every arithmetic operation of the source is
  rounded by \<open>fl\<close> where the source computes it.
\<close>

section \<open>Model\<close>

definition READ_YOUR_WRITES_PIN_MS :: rat where
  "READ_YOUR_WRITES_PIN_MS = 500"

record zone_router =
  latency_map :: "(string \<times> rat) list"
  recent_writes :: "(string \<times> string \<times> time) list"

definition ZoneRouter :: zone_router where
  "ZoneRouter = \<lparr>latency_map = [], recent_writes = []\<rparr>"

definition smoothed :: "rat \<Rightarrow> rat \<Rightarrow> rat" where
  "smoothed latency_ms old =
     (let alpha = fl (3/10) in fl (fl (alpha * latency_ms) + fl (fl (1 - alpha) * old)))"

definition update_latency :: "string \<Rightarrow> rat \<Rightarrow> zone_router \<Rightarrow> zone_router" where
  "update_latency node_id latency_ms zr =
     (case map_of (latency_map zr) node_id of
        None \<Rightarrow> zr\<lparr>latency_map := AList.update node_id latency_ms (latency_map zr)\<rparr>
      | Some old \<Rightarrow>
          zr\<lparr>latency_map := AList.update node_id (smoothed latency_ms old) (latency_map zr)\<rparr>)"

text \<open>The latency a node sorts by; 100 ms when nothing was measured.\<close>

definition latency_of :: "zone_router \<Rightarrow> string \<Rightarrow> rat" where
  "latency_of zr n = dict_get (latency_map zr) n 100"

definition pick_by_latency :: "zone_router \<Rightarrow> string list \<Rightarrow> string option" where
  "pick_by_latency zr nodes =
     (if nodes = [] then None else Some (hd (sort_key (latency_of zr) nodes)))"

definition pick_replica ::
  "zone_router \<Rightarrow> string list \<Rightarrow> string option \<Rightarrow> string \<Rightarrow> string option" where
  "pick_replica zr replicas client_zone primary =
     (if replicas = [] then Some primary
      else if client_zone = None \<or> client_zone = Some '''' then pick_by_latency zr replicas
      else pick_by_latency zr replicas)"

definition pin_write :: "time \<Rightarrow> string \<Rightarrow> string \<Rightarrow> string \<Rightarrow> zone_router \<Rightarrow> zone_router" where
  "pin_write now key primary client_zone zr =
     zr\<lparr>recent_writes := AList.update key (primary, now) (recent_writes zr)\<rparr>"

definition pin_expired :: "time \<Rightarrow> time \<Rightarrow> bool" where
  "pin_expired now write_time \<longleftrightarrow>
     fl (fl (now - write_time) * 1000) > READ_YOUR_WRITES_PIN_MS"

definition is_pinned_to_primary ::
  "time \<Rightarrow> string \<Rightarrow> string \<Rightarrow> zone_router \<Rightarrow> bool \<times> zone_router" where
  "is_pinned_to_primary now key primary zr =
     (case map_of (recent_writes zr) key of
        None \<Rightarrow> (False, zr)
      | Some (pinned_node, write_time) \<Rightarrow>
          if pinned_node \<noteq> primary then (False, zr)
          else if pin_expired now write_time
          then (False, zr\<lparr>recent_writes := AList.delete key (recent_writes zr)\<rparr>)
          else (True, zr))"

definition cleanup_expired_pins :: "time \<Rightarrow> zone_router \<Rightarrow> nat \<times> zone_router" where
  "cleanup_expired_pins now zr =
     (let expired = map fst (filter (\<lambda>(k, _, ts). pin_expired now ts) (recent_writes zr))
      in (length expired,
          zr\<lparr>recent_writes := fold AList.delete expired (recent_writes zr)\<rparr>))"

section \<open>Rounded averages\<close>

context rounding_error
begin

text \<open>A weighted mean of two non-negative numbers, every operation rounded.\<close>

lemma weighted_upper:
  assumes a: "0 \<le> a" "a \<le> 1" and "0 \<le> x" "0 \<le> y" "x \<le> m" "y \<le> m"
  shows "rnd (rnd (a * x) + rnd (rnd (1 - a) * y)) \<le> (1 + eps) ^ 3 * m"
proof -
  let ?e = "1 + eps"
  have e: "1 \<le> ?e" using eps_nonneg by simp
  have m: "0 \<le> m" using assms by simp
  have b0: "0 \<le> rnd (1 - a)" using rnd_ge_int [of 0 "1 - a"] a by simp
  have b: "rnd (1 - a) \<le> ?e * (1 - a)" using rnd_le [of "1 - a"] a by simp
  have ax: "rnd (a * x) \<le> ?e * (a * m)"
    using rnd_le [of "a * x"] assms e by (intro order_trans [OF rnd_le] mult_left_mono) auto
  have "rnd (1 - a) * y \<le> ?e * (1 - a) * m"
    using assms b b0 e m by (intro mult_mono) auto
  then have "rnd (rnd (1 - a) * y) \<le> ?e * (?e * (1 - a) * m)"
    using assms b0 e by (intro order_trans [OF rnd_le] mult_left_mono) auto
  moreover have "?e * (a * m) \<le> ?e * (?e * a * m)"
    using mult_right_mono [OF e, of "?e * (a * m)"] a m e by (simp add: ac_simps)
  ultimately have s: "rnd (a * x) + rnd (rnd (1 - a) * y) \<le> ?e ^ 2 * m"
    using ax by (simp add: algebra_simps power2_eq_square)
  have "0 \<le> rnd (a * x)" and "0 \<le> rnd (rnd (1 - a) * y)"
    using rnd_ge_int [of 0 "a * x"] rnd_ge_int [of 0 "rnd (1 - a) * y"] assms b0 by auto
  then have "rnd (rnd (a * x) + rnd (rnd (1 - a) * y)) \<le> ?e * (rnd (a * x) + rnd (rnd (1 - a) * y))"
    by (intro rnd_le) simp
  also have "\<dots> \<le> ?e * (?e ^ 2 * m)" using s e by (intro mult_left_mono) auto
  finally show ?thesis by (simp add: power3_eq_cube power2_eq_square ac_simps)
qed

lemma weighted_lower:
  assumes a: "0 \<le> a" "a \<le> 1" and m: "0 \<le> m" "m \<le> x" "m \<le> y" and eps: "eps \<le> 1"
  shows "(1 - eps) ^ 3 * m \<le> rnd (rnd (a * x) + rnd (rnd (1 - a) * y))"
proof -
  let ?e = "1 - eps"
  have e: "0 \<le> ?e" "?e \<le> 1" using eps eps_nonneg by simp_all
  have b: "?e * (1 - a) \<le> rnd (1 - a)" using rnd_ge [of "1 - a"] a by simp
  have b0: "0 \<le> rnd (1 - a)" using rnd_ge_int [of 0 "1 - a"] a by simp
  have "a * m \<le> a * x" using assms by (intro mult_left_mono)
  then have ax: "?e * (a * m) \<le> rnd (a * x)"
    using rnd_ge [of "a * x"] assms e by (meson mult_left_mono mult_nonneg_nonneg order_trans)
  have "?e * (1 - a) * m \<le> rnd (1 - a) * y"
    using assms b b0 e by (intro mult_mono) auto
  then have by': "?e * (?e * (1 - a) * m) \<le> rnd (rnd (1 - a) * y)"
    using rnd_ge [of "rnd (1 - a) * y"] assms b0 e
    by (meson mult_left_mono mult_nonneg_nonneg order_trans)
  have "?e * (?e * (a * m)) \<le> 1 * (?e * (a * m))" using a m e by (intro mult_right_mono) auto
  with ax by' have s: "?e ^ 2 * m \<le> rnd (a * x) + rnd (rnd (1 - a) * y)"
    by (simp add: algebra_simps power2_eq_square)
  have "0 \<le> ?e ^ 2 * m" using e m by simp
  with s have "?e * (rnd (a * x) + rnd (rnd (1 - a) * y)) \<le> rnd (rnd (a * x) + rnd (rnd (1 - a) * y))"
    by (intro rnd_ge) linarith
  moreover have "?e * (?e ^ 2 * m) \<le> ?e * (rnd (a * x) + rnd (rnd (1 - a) * y))"
    using s e by (intro mult_left_mono)
  ultimately show ?thesis by (simp add: power3_eq_cube power2_eq_square ac_simps)
qed

end

section \<open>The first minimum\<close>

lemma hd_sort_key:
  assumes "xs \<noteq> []"
  shows "\<exists>ys zs. xs = ys @ hd (sort_key f xs) # zs
    \<and> (\<forall>y\<in>set ys. f (hd (sort_key f xs)) < f y) \<and> (\<forall>z\<in>set zs. f (hd (sort_key f xs)) \<le> f z)"
proof -
  obtain m ms where s: "sort_key f xs = m # ms" using assms by (cases "sort_key f xs") (auto dest: arg_cong [where f = length])
  have "sorted (map f (sort_key f xs))" by simp
  then have "\<forall>x\<in>set (m # ms). f m \<le> f x" by (simp add: s)
  then have le: "\<forall>x\<in>set xs. f m \<le> f x" by (metis s set_sort)
  have "filter (\<lambda>y. f y = f m) xs = m # filter (\<lambda>y. f y = f m) ms"
    using sort_key_stable [of f "f m" xs] by (simp add: s)
  then obtain us vs where "xs = us @ m # vs" "\<forall>u\<in>set us. f u \<noteq> f m"
    unfolding filter_eq_Cons_iff by blast
  with le s show ?thesis by (intro exI [of _ us] exI [of _ vs]) force
qed

section \<open>Pins\<close>

lemma pin_kept: "now - t \<le> 1/2 \<Longrightarrow> \<not> pin_expired now t"
proof -
  assume "now - t \<le> 1/2"
  then have "fl (now - t) \<le> 1/2" using fl_mono fl_half by metis
  then have "fl (fl (now - t) * 1000) \<le> of_int 500" by (intro double.rnd_le_int) simp_all
  then show ?thesis by (simp add: pin_expired_def READ_YOUR_WRITES_PIN_MS_def)
qed

lemma pin_lost: "501/1000 \<le> now - t \<Longrightarrow> pin_expired now t"
proof -
  assume le: "501/1000 \<le> now - t"
  have "500999/1000000 \<le> (1 - 1 / 2 ^ 53) * (501/1000 :: rat)" by simp
  also have "\<dots> \<le> fl (501/1000)" by (rule double.rnd_ge) simp
  also have "\<dots> \<le> fl (now - t)" using le by (rule fl_mono)
  finally have "500999/1000 \<le> fl (now - t) * 1000" by simp
  then have "fl (500999/1000) \<le> fl (fl (now - t) * 1000)" by (rule fl_mono)
  moreover have "(500 :: rat) < (1 - 1 / 2 ^ 53) * (500999/1000)" by simp
  moreover have "(1 - 1 / 2 ^ 53) * (500999/1000) \<le> fl (500999/1000)"
    by (rule double.rnd_ge) simp
  ultimately show ?thesis by (simp add: pin_expired_def READ_YOUR_WRITES_PIN_MS_def)
qed

lemma pin_expired_later: "pin_expired now t \<Longrightarrow> now \<le> now' \<Longrightarrow> pin_expired now' t"
  using fl_mono [of "now - t" "now' - t"] fl_mono [of "fl (now - t) * 1000" "fl (now' - t) * 1000"]
  by (simp add: pin_expired_def)

text \<open>The keys the sweep collects, and the dictionary it leaves.\<close>

abbreviation expired_keys :: "time \<Rightarrow> (string \<times> string \<times> time) list \<Rightarrow> string list" where
  "expired_keys now r \<equiv> map fst (filter (\<lambda>(k, _, ts). pin_expired now ts) r)"

lemma set_expired_keys:
  assumes "distinct (keys_of r)"
  shows "k \<in> set (expired_keys now r)
    \<longleftrightarrow> (\<exists>n ts. map_of r k = Some (n, ts) \<and> pin_expired now ts)"
  using assms by (force simp: image_iff)

lemma sweep_lookup:
  assumes "distinct (keys_of r)"
  shows "map_of (fold AList.delete (expired_keys now r) r) k = Some (n, ts)
    \<longleftrightarrow> map_of r k = Some (n, ts) \<and> \<not> pin_expired now ts"
  unfolding alist.lookup_fold_del set_expired_keys [OF assms] by auto

lemma distinct_expired_keys: "distinct (keys_of r) \<Longrightarrow> distinct (expired_keys now r)"
  by (induction r) auto

section \<open>Properties\<close>

text \<open>
  The first measurement of a node is stored as it is; every later one moves the average to
  within \<open>2 ^ -50\<close> (relative) of the interval between the old average and the new
  measurement, rounding included, and no other node's average changes.
\<close>

theorem update_latency_average:
  assumes "0 \<le> l"
  shows "(map_of (latency_map zr) n = None \<longrightarrow>
      map_of (latency_map (update_latency n l zr)) = (map_of (latency_map zr))(n \<mapsto> l))
    \<and> (\<forall>old. map_of (latency_map zr) n = Some old \<and> 0 \<le> old \<longrightarrow>
      (\<exists>new. map_of (latency_map (update_latency n l zr)) = (map_of (latency_map zr))(n \<mapsto> new)
         \<and> (1 - 1 / 2 ^ 50) * min l old \<le> new \<and> new \<le> (1 + 1 / 2 ^ 50) * max l old))"
proof -
  have a: "0 \<le> fl (3/10)" "fl (3/10) \<le> 1"
    using double.rnd_ge_int [of 0 "3/10"] double.rnd_le_int [of "3/10" 1] by simp_all
  have "(1 - 1 / 2 ^ 50) * min l old \<le> smoothed l old \<and> smoothed l old \<le> (1 + 1 / 2 ^ 50) * max l old"
    if old: "0 \<le> old" for old
  proof
    have "(1 - 1 / 2 ^ 50) * min l old \<le> (1 - 1 / 2 ^ 53) ^ 3 * min l old"
      using assms old by (intro mult_right_mono) (simp_all add: power3_eq_cube)
    also have "\<dots> \<le> smoothed l old"
      unfolding smoothed_def Let_def using a assms old by (intro double.weighted_lower) simp_all
    finally show "(1 - 1 / 2 ^ 50) * min l old \<le> smoothed l old" .
    have "smoothed l old \<le> (1 + 1 / 2 ^ 53) ^ 3 * max l old"
      unfolding smoothed_def Let_def using a assms old by (intro double.weighted_upper) simp_all
    also have "\<dots> \<le> (1 + 1 / 2 ^ 50) * max l old"
      using assms old by (intro mult_right_mono) (simp_all add: power3_eq_cube)
    finally show "smoothed l old \<le> (1 + 1 / 2 ^ 50) * max l old" .
  qed
  then show ?thesis by (auto simp: update_latency_def dict_maps)
qed

text \<open>
  The replica chosen for a read is the first of those with the least latency, unmeasured
  nodes counting 100 ms. The client's zone plays no part in the choice, and with no measurement
  at all the first replica is chosen.
\<close>

theorem pick_replica_first_minimum:
  assumes "replicas \<noteq> []"
  shows "\<exists>n ys zs. pick_replica zr replicas zone primary = Some n \<and> replicas = ys @ n # zs
      \<and> (\<forall>y\<in>set ys. latency_of zr n < latency_of zr y)
      \<and> (\<forall>z\<in>set zs. latency_of zr n \<le> latency_of zr z)
      \<and> (latency_map zr = [] \<longrightarrow> n = hd replicas)"
proof -
  define n where "n = hd (sort_key (latency_of zr) replicas)"
  obtain ys zs where s: "replicas = ys @ n # zs" "\<forall>y\<in>set ys. latency_of zr n < latency_of zr y"
    "\<forall>z\<in>set zs. latency_of zr n \<le> latency_of zr z"
    using hd_sort_key [OF assms, of "latency_of zr"] unfolding n_def by blast
  moreover have "latency_map zr = [] \<longrightarrow> n = hd replicas"
    using s by (cases ys) (auto simp: latency_of_def)
  moreover have "pick_replica zr replicas zone primary = Some n"
    using assms by (simp add: pick_replica_def pick_by_latency_def n_def)
  ultimately show ?thesis by blast
qed

text \<open>
  The read-your-writes window: after a write, the key is pinned to the node that took it for
  half a second, and asking changes nothing; from 501 ms on it is not pinned and its entry is
  dropped; for any other node it is never pinned. A later write replaces the pin.
\<close>

theorem pin_window:
  "(now - t \<le> 1/2 \<longrightarrow>
      is_pinned_to_primary now key p (pin_write t key p zone zr) = (True, pin_write t key p zone zr))
   \<and> (501/1000 \<le> now - t \<longrightarrow>
      \<not> fst (is_pinned_to_primary now key p (pin_write t key p zone zr))
      \<and> map_of (recent_writes (snd (is_pinned_to_primary now key p (pin_write t key p zone zr)))) key
          = None)
   \<and> (q \<noteq> p \<longrightarrow> \<not> fst (is_pinned_to_primary now key q (pin_write t key p zone zr)))
   \<and> map_of (recent_writes (pin_write t' key q zone' (pin_write t key p zone zr))) key = Some (q, t')"
  using pin_kept [of now t] pin_lost [of now t]
  by (simp add: is_pinned_to_primary_def pin_write_def dict_maps)

text \<open>
  The sweep removes exactly the pins that have expired and reports how many: what is left
  answers every query at that time as before, nothing expired remains, and a second sweep at
  the same time removes nothing.
\<close>

theorem cleanup_expired_pins_exact:
  assumes "distinct (keys_of (recent_writes zr))"
    and "cleanup_expired_pins now zr = (count, zr')"
  shows "count = card {k. \<exists>n ts. map_of (recent_writes zr) k = Some (n, ts) \<and> pin_expired now ts}
    \<and> (\<forall>k n ts. map_of (recent_writes zr') k = Some (n, ts)
         \<longleftrightarrow> map_of (recent_writes zr) k = Some (n, ts) \<and> \<not> pin_expired now ts)
    \<and> (\<forall>k p. fst (is_pinned_to_primary now k p zr') = fst (is_pinned_to_primary now k p zr))
    \<and> fst (cleanup_expired_pins now zr') = 0"
proof -
  let ?r = "recent_writes zr"
  have c: "count = length (expired_keys now ?r)"
    and r': "recent_writes zr' = fold AList.delete (expired_keys now ?r) ?r"
    using assms(2) by (auto simp: cleanup_expired_pins_def Let_def)
  have d': "distinct (keys_of (recent_writes zr'))" using assms(1) by (simp add: r' dict_distinct)
  have left: "map_of (recent_writes zr') k = Some (n, ts)
      \<longleftrightarrow> map_of ?r k = Some (n, ts) \<and> \<not> pin_expired now ts" for k n ts
    unfolding r' by (rule sweep_lookup [OF assms(1)])
  have "count = card (set (expired_keys now ?r))"
    using c distinct_card [OF distinct_expired_keys [OF assms(1)]] by simp
  also have "set (expired_keys now ?r)
      = {k. \<exists>n ts. map_of ?r k = Some (n, ts) \<and> pin_expired now ts}"
    using set_expired_keys [OF assms(1)] by blast
  finally have count: "count = card \<dots>" .
  have pinned: "fst (is_pinned_to_primary now k p z) \<longleftrightarrow>
      (\<exists>ts. map_of (recent_writes z) k = Some (p, ts) \<and> \<not> pin_expired now ts)" for k p z
    by (auto simp: is_pinned_to_primary_def split: option.split prod.split if_splits)
  have "set (expired_keys now (recent_writes zr')) = {}"
    using set_expired_keys [OF d'] left by (metis equals0I)
  then have "expired_keys now (recent_writes zr') = []" by (simp only: set_empty)
  then have "fst (cleanup_expired_pins now zr') = 0"
    by (simp only: cleanup_expired_pins_def Let_def fst_conv list.size)
  with count left pinned show ?thesis by auto
qed

section \<open>Witnesses\<close>

abbreviation demo_zone :: zone_router where
  "demo_zone \<equiv> \<lparr>latency_map = [(''a'', 40), (''b'', 20)], recent_writes = [(''x'', ''a'', 0), (''y'', ''b'', 9)]\<rparr>"

theorem update_latency_average_witness:
  "\<exists>new. map_of (latency_map (update_latency ''a'' 80 demo_zone)) ''a'' = Some new
     \<and> 39 \<le> new \<and> new \<le> 81"
proof -
  from update_latency_average [of 80 demo_zone "''a''"] obtain new
    where "map_of (latency_map (update_latency ''a'' 80 demo_zone)) = (map_of (latency_map demo_zone))(''a'' \<mapsto> new)"
      and "(1 - 1 / 2 ^ 50) * 40 \<le> new" and "new \<le> (1 + 1 / 2 ^ 50) * 80" by auto
  then show ?thesis by auto
qed

theorem pick_replica_first_minimum_witness:
  "pick_replica demo_zone [''c'', ''a'', ''b''] (Some ''asia'') ''c'' = Some ''b''"
proof -
  obtain n ys zs where n: "pick_replica demo_zone [''c'', ''a'', ''b''] (Some ''asia'') ''c'' = Some n"
    "[''c'', ''a'', ''b''] = ys @ n # zs" "\<forall>z\<in>set zs. latency_of demo_zone n \<le> latency_of demo_zone z"
    using pick_replica_first_minimum [of "[''c'', ''a'', ''b'']" demo_zone "Some ''asia''" "''c''"] by auto
  have "n = ''b''"
    using n(2,3) by (auto simp: latency_of_def dict_get_def Cons_eq_append_conv)
  with n(1) show ?thesis by simp
qed

theorem pin_window_witness:
  "fst (is_pinned_to_primary (41/4) ''k'' ''a'' (pin_write 10 ''k'' ''a'' ''z'' demo_zone))
   \<and> \<not> fst (is_pinned_to_primary 11 ''k'' ''a'' (pin_write 10 ''k'' ''a'' ''z'' demo_zone))"
  using pin_window [of "41/4" 10 "''k''" "''a''" "''z''" demo_zone] pin_window [of 11 10 "''k''" "''a''" "''z''" demo_zone]
  by simp

theorem cleanup_expired_pins_exact_witness:
  "\<exists>zr. cleanup_expired_pins 9 demo_zone = (1, zr) \<and> map_of (recent_writes zr) ''y'' = Some (''b'', 9)"
proof -
  obtain c zr where e: "cleanup_expired_pins 9 demo_zone = (c, zr)" by (metis surj_pair)
  have x: "pin_expired 9 0" and y: "\<not> pin_expired 9 9"
    using pin_lost [of 9 0] pin_kept [of 9 9] by simp_all
  have "{k. \<exists>n ts. map_of (recent_writes demo_zone) k = Some (n, ts) \<and> pin_expired 9 ts} = {''x''}"
    using x y by auto
  with cleanup_expired_pins_exact [OF _ e] y have "c = 1"
    and "map_of (recent_writes zr) ''y'' = Some (''b'', 9)" by auto
  with e show ?thesis by simp
qed

end
