(* ===== verification/Http.thy ===== *)
theory Http
  imports Prelude
begin

text \<open>
  What the gateway sees of an HTTP call to a cache node. The call and the node are outside the
  gateway: the outcome is an argument of the definitions that make a call. An outcome is a
  response with its status code and body, or the exception \<open>httpx\<close> raises. The body is the
  value \<open>resp.json()\<close> gives, or \<open>None\<close> where \<open>resp.json()\<close> raises.
\<close>

datatype httpx_error = ConnectError | TimeoutException | OtherError

datatype 'j http_outcome =
    Response int "'j option"
  | Raised httpx_error

text \<open>The exceptions a handler raises, as FastAPI answers them: status code and detail.\<close>

datatype http_exception = HTTPException int string

fun status_code :: "http_exception \<Rightarrow> int" where
  "status_code (HTTPException code detail) = code"

text \<open>An endpoint: host and port.\<close>

type_synonym endpoint = "string \<times> int"

end
