(* ===== verification/Cache_Api.thy ===== *)
theory Cache_Api
  imports Cluster_Routing Circuit_Breaker Zone_Router Models Http
begin

text \<open>
  The client API, \<open>gateway/app/api/cache.py\<close>. A handler suspends at the one \<open>await\<close> of the
  call to the cache node, and other handlers run meanwhile; so each handler is two definitions,
  what it does up to sending the request and what it does with the outcome, on the state the
  gateway has by then. Each reading of the clock is an argument. \<open>None\<close> for the gateway stands
  for the module globals before \<open>initialize\<close>.

  The body of a successful answer is passed through, so its type is a variable.
\<close>

section \<open>Model\<close>

record gateway =
  gw_cluster :: cluster_manager
  gw_breaker :: circuit_breaker
  gw_zone :: zone_router

definition initialize :: "cluster_manager \<Rightarrow> circuit_breaker \<Rightarrow> zone_router \<Rightarrow> gateway option" where
  "initialize cm cb zr = Some \<lparr>gw_cluster = cm, gw_breaker = cb, gw_zone = zr\<rparr>"

text \<open>What a handler raises: the exception FastAPI answers with, or any other exception.\<close>

datatype raised =
    Http http_exception
  | Python py_error
  | Httpx httpx_error

record request =
  req_node :: string
  req_method :: string
  req_host :: string
  req_port :: int
  req_path :: string
  req_body :: "(string \<times> int) option" \<comment> \<open>\<open>value\<close> and \<open>ttl\<close>\<close>

definition call_start ::
  "cluster_manager \<Rightarrow> string \<Rightarrow> string \<Rightarrow> string \<Rightarrow> (string \<times> int) option \<Rightarrow> raised + request" where
  "call_start cm node_id method path body =
     (case get_node_info cm node_id of
        None \<Rightarrow> Inl (Http (HTTPException 503 (''Node '' @ node_id @ '' not found'')))
      | Some node_info \<Rightarrow>
          if method \<in> {''GET'', ''PUT'', ''DELETE'', ''POST''}
          then Inr \<lparr>req_node = node_id, req_method = method, req_host = info_host node_info,
                    req_port = info_port node_info, req_path = path,
                    req_body = (if method \<in> {''PUT'', ''POST''} then body else None)\<rparr>
          else Inl (Python ValueError))"

definition call_finish ::
  "time \<Rightarrow> string \<Rightarrow> 'j http_outcome \<Rightarrow> circuit_breaker \<Rightarrow> (raised + int \<times> 'j option) \<times> circuit_breaker" where
  "call_finish now node_id outcome cb =
     (case outcome of
        Response status body \<Rightarrow>
          (Inr (status, body),
           if status \<ge> 500 then record_failure now node_id cb else record_success now node_id cb)
      | Raised e \<Rightarrow>
          if e = ConnectError \<or> e = TimeoutException
          then (Inl (Http (HTTPException 503 (''Node '' @ node_id @ '' unreachable''))),
                record_failure now node_id cb)
          else (Inl (Httpx e), cb))"

text \<open>The two \<open>except\<close> clauses every handler has around its call.\<close>

fun except_handler :: "raised \<Rightarrow> raised" where
  "except_handler (Http e) = Http e"
| "except_handler (Python e) = Http (HTTPException 500 ''Internal server error'')"
| "except_handler (Httpx e) = Http (HTTPException 500 ''Internal server error'')"

definition unavailable :: "string \<Rightarrow> raised" where
  "unavailable detail = Http (HTTPException 503 detail)"

text \<open>The comprehension that asks the breaker about every replica.\<close>

fun available_replicas ::
  "(string \<Rightarrow> time) \<Rightarrow> string list \<Rightarrow> circuit_breaker \<Rightarrow> string list \<times> circuit_breaker" where
  "available_replicas clock [] cb = ([], cb)"
| "available_replicas clock (n # ns) cb =
     (case is_available (clock n) n cb of (ok, cb1) \<Rightarrow>
        case available_replicas clock ns cb1 of (rest, cb2) \<Rightarrow>
          (if ok then n # rest else rest, cb2))"

definition cache_path :: "string \<Rightarrow> string" where
  "cache_path key = ''/cache/'' @ key"

definition guard_call :: "raised + request \<Rightarrow> raised + request" where
  "guard_call r = (case r of Inl e \<Rightarrow> Inl (except_handler e) | Inr q \<Rightarrow> Inr q)"

definition get_key_start ::
  "(string \<Rightarrow> time) \<Rightarrow> string \<Rightarrow> string option \<Rightarrow> gateway option \<Rightarrow> (raised + request) \<times> gateway option" where
  "get_key_start clock key x_client_zone g0 =
     (case g0 of
        None \<Rightarrow> (Inl (unavailable ''Not initialized''), g0)
      | Some g \<Rightarrow>
          (case get_replicas_for_key (gw_cluster g) key of
             Inl e \<Rightarrow> (Inl (Python e), g0)
           | Inr replicas \<Rightarrow>
               if replicas = [] then (Inl (unavailable ''No nodes available''), g0)
               else let primary = hd replicas
                    in case available_replicas clock replicas (gw_breaker g) of (available, cb) \<Rightarrow>
                      let g1 = g\<lparr>gw_breaker := cb\<rparr>
                      in if available = [] then (Inl (unavailable ''All replicas unavailable''), Some g1)
                         else (case pick_replica (gw_zone g) available x_client_zone primary of
                             None \<Rightarrow> (Inl (unavailable ''Node None not found''), Some g1)
                           | Some target_node \<Rightarrow>
                               (guard_call (call_start (gw_cluster g) target_node ''GET'' (cache_path key) None),
                                Some g1))))"

definition get_key_finish ::
  "time \<Rightarrow> request \<Rightarrow> 'j http_outcome \<Rightarrow> gateway \<Rightarrow> (raised + 'j) \<times> gateway" where
  "get_key_finish now q outcome g =
     (case call_finish now (req_node q) outcome (gw_breaker g) of (r, cb) \<Rightarrow>
        (case r of
           Inl e \<Rightarrow> Inl (except_handler e)
         | Inr (status, body) \<Rightarrow>
             if status = 404 then Inl (Http (HTTPException 404 ''Key not found''))
             else if status \<noteq> 200 then Inl (Http (HTTPException status ''Cache node error''))
             else case body of
               None \<Rightarrow> Inl (Http (HTTPException 500 ''Internal server error''))
             | Some j \<Rightarrow> Inr j,
         g\<lparr>gw_breaker := cb\<rparr>))"

text \<open>Python reads an absent id and an empty id alike in \<open>if not primary\<close>.\<close>

definition falsy :: "string option \<Rightarrow> bool" where
  "falsy s \<longleftrightarrow> s = None \<or> s = Some ''''"

definition primary_start ::
  "time \<Rightarrow> string \<Rightarrow> string \<Rightarrow> (string \<times> int) option \<Rightarrow> gateway option \<Rightarrow> (raised + request) \<times> gateway option" where
  "primary_start now key method body g0 =
     (case g0 of
        None \<Rightarrow> (Inl (unavailable ''Not initialized''), g0)
      | Some g \<Rightarrow>
          (case get_node_for_key (gw_cluster g) key of
             Inl e \<Rightarrow> (Inl (Python e), g0)
           | Inr primary \<Rightarrow>
               if falsy primary then (Inl (unavailable ''No nodes available''), g0)
               else case is_available now (the primary) (gw_breaker g) of (ok, cb) \<Rightarrow>
                 let g1 = g\<lparr>gw_breaker := cb\<rparr>
                 in if \<not> ok then (Inl (unavailable ''Primary node unavailable''), Some g1)
                    else (guard_call (call_start (gw_cluster g) (the primary) method (cache_path key) body), Some g1)))"

definition put_key_start ::
  "time \<Rightarrow> string \<Rightarrow> cache_put_request \<Rightarrow> gateway option \<Rightarrow> (raised + request) \<times> gateway option" where
  "put_key_start now key put =
     primary_start now key ''PUT'' (Some (put_value put, case put_ttl put of None \<Rightarrow> 0 | Some t \<Rightarrow> t))"

definition put_key_finish ::
  "time \<Rightarrow> time \<Rightarrow> string \<Rightarrow> string option \<Rightarrow> request \<Rightarrow> 'j http_outcome \<Rightarrow> gateway \<Rightarrow> (raised + 'j) \<times> gateway" where
  "put_key_finish now pin_time key x_client_zone q outcome g =
     (case call_finish now (req_node q) outcome (gw_breaker g) of (r, cb) \<Rightarrow>
        let g1 = g\<lparr>gw_breaker := cb\<rparr>
        in case r of
             Inl e \<Rightarrow> (Inl (except_handler e), g1)
           | Inr (status, body) \<Rightarrow>
               if status \<notin> {200, 201} then (Inl (Http (HTTPException status ''Write failed'')), g1)
               else case body of
                 None \<Rightarrow> (Inl (Http (HTTPException 500 ''Internal server error'')), g1)
               | Some result \<Rightarrow>
                   (Inr result,
                    g1\<lparr>gw_zone := pin_write pin_time key (req_node q)
                          (if falsy x_client_zone then ''default'' else the x_client_zone) (gw_zone g1)\<rparr>))"

definition delete_key_start ::
  "time \<Rightarrow> string \<Rightarrow> gateway option \<Rightarrow> (raised + request) \<times> gateway option" where
  "delete_key_start now key = primary_start now key ''DELETE'' None"

definition delete_key_finish ::
  "time \<Rightarrow> request \<Rightarrow> 'j http_outcome \<Rightarrow> gateway \<Rightarrow> (raised + 'j) \<times> gateway" where
  "delete_key_finish now q outcome g =
     (case call_finish now (req_node q) outcome (gw_breaker g) of (r, cb) \<Rightarrow>
        (case r of
           Inl e \<Rightarrow> Inl (except_handler e)
         | Inr (status, body) \<Rightarrow>
             if status = 404 then Inl (Http (HTTPException 404 ''Key not found''))
             else if status \<noteq> 200 then Inl (Http (HTTPException status ''Delete failed''))
             else case body of
               None \<Rightarrow> Inl (Http (HTTPException 500 ''Internal server error''))
             | Some j \<Rightarrow> Inr j,
         g\<lparr>gw_breaker := cb\<rparr>))"

section \<open>The breaker as the handlers use it\<close>

lemma is_available_not_open:
  "fst (is_available t n cb) \<Longrightarrow> breaker_state_of (snd (is_available t n cb)) n \<noteq> OPEN"
  by (auto simp: breaker_defs breaker_state_of_def dict_maps NodeCircuit_def split: option.splits if_splits)

lemma is_available_never_opens:
  "breaker_state_of (snd (is_available t m cb)) n = OPEN \<Longrightarrow> breaker_state_of cb n = OPEN"
  by (auto simp: breaker_defs breaker_state_of_def dict_maps NodeCircuit_def split: option.splits if_splits)

lemma is_available_local:
  "circuit_of cb n = circuit_of cb' n \<Longrightarrow> timeout_s cb = timeout_s cb' \<Longrightarrow>
     fst (is_available t n cb) = fst (is_available t n cb')"
  by (auto simp: breaker_defs split: option.splits)

lemma is_available_frame:
  "m \<noteq> n \<Longrightarrow> circuit_of (snd (is_available t m cb)) n = circuit_of cb n"
  "timeout_s (snd (is_available t m cb)) = timeout_s cb"
  "failure_threshold (snd (is_available t m cb)) = failure_threshold cb"
  using breaker_step_frame [of n "Probe t m" cb] breaker_step_config [of cb "Probe t m"] by simp_all

lemma available_never_opens:
  "breaker_state_of (snd (available_replicas clock ns cb)) n = OPEN \<Longrightarrow> breaker_state_of cb n = OPEN"
  by (induction ns arbitrary: cb) (auto simp: split_beta dest: is_available_never_opens)

lemma available_filter:
  "distinct ns \<Longrightarrow>
     fst (available_replicas clock ns cb) = filter (\<lambda>n. fst (is_available (clock n) n cb)) ns"
proof (induction ns arbitrary: cb)
  case (Cons n ns)
  let ?cb = "snd (is_available (clock n) n cb)"
  have "filter (\<lambda>m. fst (is_available (clock m) m ?cb)) ns = filter (\<lambda>m. fst (is_available (clock m) m cb)) ns"
    using Cons.prems by (intro filter_cong refl is_available_local is_available_frame) auto
  with Cons show ?case by (simp add: split_beta)
qed simp

lemma available_not_open:
  "n \<in> set (fst (available_replicas clock ns cb)) \<Longrightarrow>
     breaker_state_of (snd (available_replicas clock ns cb)) n \<noteq> OPEN"
proof (induction ns arbitrary: cb)
  case (Cons m ns)
  let ?cb = "snd (is_available (clock m) m cb)"
  have s: "snd (available_replicas clock (m # ns) cb) = snd (available_replicas clock ns ?cb)"
    by (simp add: split_beta)
  from Cons.prems consider "n = m" "fst (is_available (clock m) m cb)"
    | "n \<in> set (fst (available_replicas clock ns ?cb))" by (auto simp: split_beta split: if_splits)
  then show ?case
  proof cases
    case 1
    then show ?thesis
      unfolding s using available_never_opens [of clock ns ?cb n] is_available_not_open [of "clock m" m cb] by auto
  next
    case 2
    then show ?thesis unfolding s by (rule Cons.IH)
  qed
qed simp

lemma available_config:
  "failure_threshold (snd (available_replicas clock ns cb)) = failure_threshold cb"
  "timeout_s (snd (available_replicas clock ns cb)) = timeout_s cb"
  by (induction ns arbitrary: cb) (simp_all add: split_beta is_available_frame)

lemma available_ok: "breaker_ok cb \<Longrightarrow> breaker_ok (snd (available_replicas clock ns cb))"
  by (induction ns arbitrary: cb) (simp_all add: split_beta breaker_ok_probe)

section \<open>Requests\<close>

text \<open>A request is addressed to a node as the table has it.\<close>

definition addressed :: "cluster_manager \<Rightarrow> request \<Rightarrow> bool" where
  "addressed cm q \<longleftrightarrow> (\<exists>x. node_of cm (req_node q) = Some x \<and> req_host q = nm_host x \<and> req_port q = nm_port x)"

lemma call_start_known:
  assumes "node_of cm n \<noteq> None" and "method \<in> {''GET'', ''PUT'', ''DELETE'', ''POST''}"
  shows "\<exists>q. guard_call (call_start cm n method path body) = Inr q \<and> req_node q = n \<and> addressed cm q
    \<and> req_method q = method \<and> req_path q = path
    \<and> req_body q = (if method \<in> {''PUT'', ''POST''} then body else None)"
  using assms unfolding call_start_def guard_call_def get_node_info_def addressed_def
  by (cases "node_of cm n") (simp_all only: option.case option.sel sum.case if_True if_False refl, simp_all)

lemma call_start_node: "guard_call (call_start cm n method path body) = Inr q \<Longrightarrow> req_node q = n \<and> addressed cm q"
  by (auto simp: call_start_def guard_call_def get_node_info_def addressed_def split: option.splits if_splits)

lemma routable_known: "routable cm n \<Longrightarrow> node_of cm n \<noteq> None"
  by (auto simp: routable_def status_of_def)

lemma pick_by_latency_member: "pick_by_latency zr ns = Some n \<Longrightarrow> n \<in> set ns"
  by (auto simp: pick_by_latency_def split: if_splits) (metis hd_in_set set_empty set_sort)

lemma pick_replica_latency: "ns \<noteq> [] \<Longrightarrow> pick_replica zr ns zone primary = pick_by_latency zr ns"
  by (simp add: pick_replica_def)

lemma get_key_start_replicas:
  assumes ok: "ring_ok (gw_cluster g)" and rs: "get_replicas_for_key (gw_cluster g) key = Inr rs"
  shows "get_key_start clock key zone (Some g) =
    (let avail = filter (\<lambda>n. fst (is_available (clock n) n (gw_breaker g))) rs;
         g' = g\<lparr>gw_breaker := snd (available_replicas clock rs (gw_breaker g))\<rparr>
     in if rs = [] then (Inl (unavailable ''No nodes available''), Some g)
        else if avail = [] then (Inl (unavailable ''All replicas unavailable''), Some g')
        else (guard_call (call_start (gw_cluster g) (the (pick_by_latency (gw_zone g) avail)) ''GET''
                (cache_path key) None), Some g'))"
proof -
  have "distinct rs" using route_replicas [OF ok, of key] rs by auto
  then show ?thesis
    by (auto simp: get_key_start_def rs available_filter pick_replica_latency pick_by_latency_def Let_def split_beta)
qed

lemma primary_start_request:
  assumes "primary_start now key method body (Some g) = (Inr q, Some g')"
  shows "get_node_for_key (gw_cluster g) key = Inr (Some (req_node q)) \<and> addressed (gw_cluster g) q
    \<and> breaker_state_of (gw_breaker g') (req_node q) \<noteq> OPEN
    \<and> g' = g\<lparr>gw_breaker := snd (is_available now (req_node q) (gw_breaker g))\<rparr>"
  using assms is_available_not_open [of now _ "gw_breaker g"]
  by (auto simp: primary_start_def falsy_def Let_def split_beta dest!: call_start_node
      split: sum.splits if_splits)

lemma get_key_start_request:
  assumes ok: "ring_ok (gw_cluster g)" and q: "get_key_start clock key zone (Some g) = (Inr q, Some g')"
  shows "\<exists>rs. get_replicas_for_key (gw_cluster g) key = Inr rs \<and> req_node q \<in> set rs
    \<and> routable (gw_cluster g) (req_node q) \<and> addressed (gw_cluster g) q
    \<and> breaker_state_of (gw_breaker g') (req_node q) \<noteq> OPEN
    \<and> g' = g\<lparr>gw_breaker := snd (available_replicas clock rs (gw_breaker g))\<rparr>"
proof -
  from route_replicas [OF ok, of key] obtain rs where rs: "get_replicas_for_key (gw_cluster g) key = Inr rs"
    "distinct rs" "\<forall>n\<in>set rs. routable (gw_cluster g) n" by auto
  let ?avail = "filter (\<lambda>n. fst (is_available (clock n) n (gw_breaker g))) rs"
  note start = get_key_start_replicas [OF ok rs(1), of clock zone, unfolded q Let_def]
  have ne: "?avail \<noteq> []" and g': "g' = g\<lparr>gw_breaker := snd (available_replicas clock rs (gw_breaker g))\<rparr>"
    and call: "guard_call (call_start (gw_cluster g) (the (pick_by_latency (gw_zone g) ?avail)) ''GET''
      (cache_path key) None) = Inr q"
    using start by (auto split: if_splits)
  from ne obtain n where n: "pick_by_latency (gw_zone g) ?avail = Some n" by (auto simp: pick_by_latency_def)
  then have "n \<in> set ?avail" by (rule pick_by_latency_member)
  moreover have "req_node q = n \<and> addressed (gw_cluster g) q" using call_start_node [OF call] n by simp
  moreover have "n \<in> set (fst (available_replicas clock rs (gw_breaker g)))"
    unfolding available_filter [OF rs(2)] by fact
  ultimately show ?thesis using rs g' available_not_open [of n clock rs "gw_breaker g"] by auto
qed

section \<open>Properties\<close>


text \<open>
  The breaker hears of every outcome but one kind: after a call, the circuit of the node called has
  counted a failure for a status of 500 or more, a refused connection or a timeout, has been
  closed for any other status, and is unchanged for any other exception of the HTTP client, such
  as a connection broken while reading; no other circuit changes.
\<close>

theorem call_outcome_recorded:
  "abs_breaker (snd (call_finish now n outcome cb)) m =
     (if m \<noteq> n then abs_breaker cb m
      else case outcome of
        Response status body \<Rightarrow>
          if 500 \<le> status then spec_failure (failure_threshold cb) now (abs_breaker cb n) else Closed 0
      | Raised e \<Rightarrow>
          if e = OtherError then abs_breaker cb n
          else spec_failure (failure_threshold cb) now (abs_breaker cb n))"
proof -
  note fail = abs_breaker_step [of cb "Failure now n" m] and succ = abs_breaker_step [of cb "Success now n" m]
  show ?thesis
  proof (cases outcome)
    case (Raised e)
    with fail show ?thesis by (cases e) (simp_all add: call_finish_def)
  qed (use fail succ in \<open>auto simp: call_finish_def\<close>)
qed

text \<open>
  Reads do not honour the pins: whatever writes are recorded in the zone router, a read is sent to
  the same node or refused with the same error, so the window after a write in which reads should
  go to the primary has no effect.
\<close>

theorem reads_ignore_pins:
  "fst (get_key_start clock key zone (Some (g\<lparr>gw_zone := (gw_zone g)\<lparr>recent_writes := pins\<rparr>\<rparr>)))
     = fst (get_key_start clock key zone (Some g))"
proof -
  have "latency_of ((gw_zone g)\<lparr>recent_writes := pins\<rparr>) = latency_of (gw_zone g)"
    by (simp add: latency_of_def fun_eq_iff)
  then show ?thesis
    by (auto simp: get_key_start_def pick_replica_def pick_by_latency_def Let_def split_beta split: sum.split)
qed

text \<open>
  A write is pinned exactly when it is acknowledged: the handler answers with the body of the node
  exactly on status 200 or 201 with a body, and then, and only then, the zone router pins the key
  to the node that took the write for the next half second.
\<close>

theorem acknowledged_writes_are_pinned:
  assumes "put_key_finish now pin_time key zone q outcome g = (answer, g')"
    and "pin_time \<le> later" and "later - pin_time \<le> 1/2"
  shows "(case answer of
      Inr j \<Rightarrow> (\<exists>status\<in>{200, 201}. outcome = Response status (Some j))
        \<and> fst (is_pinned_to_primary later key (req_node q) (gw_zone g'))
    | Inl e \<Rightarrow> (\<forall>status\<in>{200, 201}. \<forall>j. outcome \<noteq> Response status (Some j)) \<and> gw_zone g' = gw_zone g)"
proof -
  have pinned: "fst (is_pinned_to_primary later key n (pin_write pin_time key n z zr))" for n z zr
    using pin_kept [OF assms(3)] by (simp add: is_pinned_to_primary_def pin_write_def dict_maps)
  show ?thesis
  proof (cases outcome)
    case (Response status body)
    with assms(1) pinned show ?thesis
      by (cases body) (auto simp: put_key_finish_def call_finish_def Let_def split: if_splits)
  next
    case (Raised e)
    with assms(1) show ?thesis
      by (auto simp: put_key_finish_def call_finish_def Let_def split: if_splits)
  qed
qed

section \<open>Witnesses\<close>

abbreviation demo_gateway :: gateway where
  "demo_gateway \<equiv> \<lparr>gw_cluster = cluster_run 15 3 [demo_join ''a''], gw_breaker = CircuitBreaker 5 30,
     gw_zone = ZoneRouter\<rparr>"

lemma singleton_list: "distinct xs \<Longrightarrow> xs \<noteq> [] \<Longrightarrow> \<forall>x\<in>set xs. x = a \<Longrightarrow> xs = [a]"
  by (cases xs; cases "tl xs") auto

lemma demo_replicas: "get_replicas_for_key (cluster_run 15 3 [demo_join ''a'']) key = Inr [''a'']"
proof -
  let ?cm = "cluster_run 15 3 [demo_join ''a'']"
  from route_replicas [OF cluster_run_ring, of 15 3 "[demo_join ''a'']" key] obtain rs where
    rs: "get_replicas_for_key ?cm key = Inr rs" "distinct rs" "\<forall>n\<in>set rs. routable ?cm n" by auto
  have "get_node_for_key ?cm key = Inr (Some ''a'')"
    unfolding get_node_for_key_def demo_ring_a by (simp add: ring160.owner_single)
  moreover have "0 < replication_factor ?cm" using cluster_run_config [of 15 3 "[demo_join ''a'']"] by linarith
  ultimately have ne: "rs \<noteq> []" using route_primary [OF cluster_run_ring _ rs(1)] by auto
  have "n = ''a''" if "n \<in> set rs" for n
    using rs(3) that by (auto simp: routable_def cluster_eval split: if_splits)
  with ne rs(2) have "rs = [''a'']" by (intro singleton_list) simp_all
  with rs(1) show ?thesis by simp
qed


abbreviation demo_request :: request where
  "demo_request \<equiv> \<lparr>req_node = ''a'', req_method = ''PUT'', req_host = ''host'', req_port = 8001,
     req_path = ''/cache/k'', req_body = Some (''v'', 0)\<rparr>"

theorem acknowledged_writes_are_pinned_witness:
  "fst (is_pinned_to_primary (5/4) ''k'' ''a''
     (gw_zone (snd (put_key_finish 1 1 ''k'' None demo_request (Response 201 (Some ''created'')) demo_gateway))))"
proof -
  obtain answer g' where p: "put_key_finish 1 1 ''k'' None demo_request (Response 201 (Some ''created'')) demo_gateway
      = (answer, g')" by fastforce
  from acknowledged_writes_are_pinned [OF p, of "5/4"] show ?thesis
    unfolding p by (auto split: sum.splits)
qed

end
