(* ===== verification/Heartbeat_Api.thy ===== *)
theory Heartbeat_Api
  imports Cluster_Routing Models Http
begin

text \<open>
  The endpoints the cache nodes call, \<open>gateway/app/api/heartbeat.py\<close>: the heartbeat, which also
  registers an unknown node and moves a known one to a new address, and the registration. \<open>None\<close>
  for the cluster manager stands for the module global before it is set.
\<close>

section \<open>Model\<close>

definition set_cluster_manager :: "cluster_manager \<Rightarrow> cluster_manager option" where
  "set_cluster_manager cm = Some cm"

record heartbeat_answer =
  answer_status :: string
  answer_node_id :: string

definition payload_metrics :: "heartbeat_payload \<Rightarrow> heartbeat_metrics" where
  "payload_metrics p =
     \<lparr>m_memory_bytes = Some (hb_memory_bytes p), m_cache_size = Some (hb_cache_size p),
      m_hit_ratio = Some (hb_hit_ratio p), m_uptime_s = Some (hb_uptime_s p)\<rparr>"

text \<open>
  The clock is read when a node is registered and again when its heartbeat is processed; the two
  texts are those of the events each may log.
\<close>

definition heartbeat ::
  "time \<Rightarrow> string \<Rightarrow> time \<Rightarrow> string \<Rightarrow> heartbeat_payload \<Rightarrow> cluster_manager option \<Rightarrow>
   (http_exception + heartbeat_answer) \<times> cluster_manager option" where
  "heartbeat t1 stamp1 t2 stamp2 p cm0 =
     (case cm0 of
        None \<Rightarrow> (Inl (HTTPException 503 ''Cluster manager not initialized''), cm0)
      | Some cm \<Rightarrow>
          let cm1 = (case map_of (cm_nodes cm) (hb_node_id p) of
                None \<Rightarrow> register_node t1 stamp1 (hb_node_id p) (hb_host p) (hb_port p) (hb_zone p)
                          (hb_cache_capacity p) cm
              | Some node \<Rightarrow>
                  if nm_host node \<noteq> hb_host p \<or> nm_port node \<noteq> hb_port p
                  then relocate_node (hb_node_id p) (hb_host p) (hb_port p) cm
                  else cm)
          in (Inr \<lparr>answer_status = ''received'', answer_node_id = hb_node_id p\<rparr>,
              Some (process_heartbeat t2 stamp2 (hb_node_id p) (payload_metrics p) cm1)))"

text \<open>The body of a registration is an untyped dictionary; a missing entry is \<open>None\<close>.\<close>

record registration =
  reg_node_id :: "string option"
  reg_host :: "string option"
  reg_port :: "int option"
  reg_zone :: "string option"
  reg_cache_capacity :: "int option"

definition missing_fields :: "registration \<Rightarrow> string list" where
  "missing_fields d =
     map fst (filter (\<lambda>(field, absent). absent)
       [(''node_id'', reg_node_id d = None), (''host'', reg_host d = None),
        (''port'', reg_port d = None), (''zone'', reg_zone d = None),
        (''cache_capacity'', reg_cache_capacity d = None)])"

record registration_answer =
  registered_status :: string
  registered_node_id :: string
  registered_cluster_size :: int

definition register_endpoint ::
  "time \<Rightarrow> string \<Rightarrow> registration \<Rightarrow> cluster_manager option \<Rightarrow>
   (http_exception + registration_answer) \<times> cluster_manager option" where
  "register_endpoint now stamp d cm0 =
     (case cm0 of
        None \<Rightarrow> (Inl (HTTPException 503 ''Cluster manager not initialized''), cm0)
      | Some cm \<Rightarrow>
          (case missing_fields d of
             field # rest \<Rightarrow> (Inl (HTTPException 400 (''Missing required field: '' @ field)), cm0)
           | [] \<Rightarrow>
               let cm1 = register_node now stamp (the (reg_node_id d)) (the (reg_host d)) (the (reg_port d))
                           (the (reg_zone d)) (the (reg_cache_capacity d)) cm
               in (Inr \<lparr>registered_status = ''registered'', registered_node_id = the (reg_node_id d),
                        registered_cluster_size = int (length (cm_nodes cm1))\<rparr>, Some cm1)))"

section \<open>The endpoints as operations of the cluster manager\<close>

definition heartbeat_ops :: "time \<Rightarrow> string \<Rightarrow> time \<Rightarrow> string \<Rightarrow> heartbeat_payload \<Rightarrow> cluster_manager \<Rightarrow> cluster_op list" where
  "heartbeat_ops t1 stamp1 t2 stamp2 p cm =
     [(case node_of cm (hb_node_id p) of
         None \<Rightarrow> Register t1 stamp1 (hb_node_id p) (hb_host p) (hb_port p) (hb_zone p) (hb_cache_capacity p)
       | Some node \<Rightarrow> Relocate (hb_node_id p) (hb_host p) (hb_port p)),
      Heartbeat t2 stamp2 (hb_node_id p) (payload_metrics p)]"

lemma relocate_same:
  "node_of cm n = Some x \<Longrightarrow> nm_host x = host \<Longrightarrow> nm_port x = port \<Longrightarrow> relocate_node n host port cm = cm"
  by (auto simp: relocate_node_def store_node_def update_triv)

lemma heartbeat_run:
  "snd (heartbeat t1 stamp1 t2 stamp2 p (Some cm))
     = Some (foldl cluster_step cm (heartbeat_ops t1 stamp1 t2 stamp2 p cm))"
  by (auto simp: heartbeat_def heartbeat_ops_def relocate_same Let_def split: option.split)

definition register_ops :: "time \<Rightarrow> string \<Rightarrow> registration \<Rightarrow> cluster_op list" where
  "register_ops now stamp d =
     (if missing_fields d = [] then
        [Register now stamp (the (reg_node_id d)) (the (reg_host d)) (the (reg_port d)) (the (reg_zone d))
           (the (reg_cache_capacity d))]
      else [])"

lemma register_run:
  "snd (register_endpoint now stamp d (Some cm)) = Some (foldl cluster_step cm (register_ops now stamp d))"
  by (auto simp: register_endpoint_def register_ops_def Let_def split: list.split)

section \<open>Properties\<close>

text \<open>
  Registration validates before it acts: the endpoint answers 400, naming the first missing field
  in the order of the list, and changes nothing, exactly when some required field is missing;
  otherwise the node is in the table as an ALIVE node at the given address, is a member of the
  ring, and the reported size is that of the table.
\<close>

theorem registration_validates:
  assumes "cm = cluster_run timeout rf ops"
    and "register_endpoint now stamp d (Some cm) = (answer, Some cm')"
  shows "(case missing_fields d of
      field # rest \<Rightarrow> answer = Inl (HTTPException 400 (''Missing required field: '' @ field)) \<and> cm' = cm
    | [] \<Rightarrow> \<exists>n x r. reg_node_id d = Some n \<and> node_of cm' n = Some x
        \<and> nm_status x = ALIVE \<and> Some (nm_host x) = reg_host d \<and> Some (nm_port x) = reg_port d
        \<and> n \<in> ring_members cm' \<and> answer = Inr r
        \<and> registered_cluster_size r = int (length (cm_nodes cm')))"
proof (cases "missing_fields d")
  case Nil
  then obtain n h p z c where d: "reg_node_id d = Some n" "reg_host d = Some h" "reg_port d = Some p"
    "reg_zone d = Some z" "reg_cache_capacity d = Some c"
    by (auto simp: missing_fields_def split: if_splits)
  have cm': "cm' = register_node now stamp n h p z c cm"
    and answer: "\<exists>r. answer = Inr r \<and> registered_cluster_size r = int (length (cm_nodes cm'))"
    using assms(2) by (auto simp: register_endpoint_def Nil d Let_def)
  have "distinct (keys_of (AList.update n (NodeMetadata now n h p z) (cm_nodes cm)))"
    using cluster_ok_keys [OF cluster_run_ok, of timeout rf ops] by (simp add: assms(1) dict_distinct)
  then have "n \<in> ring_members cm'"
    using set_alive_ids [of "cm\<lparr>cm_nodes := AList.update n (NodeMetadata now n h p z) (cm_nodes cm)\<rparr>" n]
    by (auto simp: cm' register_node_def ring_members_def rebuild_hash_ring_def Let_def status_of_def
        NodeMetadata_def dict_maps)
  moreover have "node_of cm' n = Some (NodeMetadata now n h p z)"
    by (simp add: cm' register_node_def Let_def dict_maps)
  ultimately show ?thesis using answer d by (auto simp: Nil NodeMetadata_def)
qed (use assms(2) in \<open>auto simp: register_endpoint_def\<close>)

text \<open>
  A heartbeat is enough to join: whatever state the cluster is in, after a heartbeat the node is
  in the table with the address and the metrics of the payload and the time of the heartbeat, and
  it is on the ring unless it was DEAD or RECOVERED before.
\<close>

theorem heartbeat_joins:
  assumes "cm = cluster_run timeout rf ops"
    and "heartbeat t1 stamp1 t2 stamp2 p (Some cm) = (answer, Some cm')"
  shows "\<exists>x. node_of cm' (hb_node_id p) = Some x
    \<and> nm_host x = hb_host p \<and> nm_port x = hb_port p \<and> nm_last_heartbeat x = t2
    \<and> nm_cache_size x = hb_cache_size p \<and> nm_failed_attempts x = 0
    \<and> nm_status x = (if status_of cm (hb_node_id p) \<in> {Some DEAD, Some RECOVERED} then RECOVERED else ALIVE)
    \<and> (status_of cm (hb_node_id p) \<notin> {Some DEAD, Some RECOVERED} \<longrightarrow> hb_node_id p \<in> ring_members cm')"
proof -
  let ?n = "hb_node_id p"
  have run: "cm' = foldl cluster_step cm (heartbeat_ops t1 stamp1 t2 stamp2 p cm)"
    using heartbeat_run [of t1 stamp1 t2 stamp2 p cm] assms(2) by simp
  have ok: "cluster_ok cm'"
    unfolding run assms(1) by (intro cluster.inv_run cluster_ok_init)
  obtain x where x: "node_of cm' ?n = Some x" "nm_host x = hb_host p" "nm_port x = hb_port p"
    "nm_last_heartbeat x = t2" "nm_cache_size x = hb_cache_size p" "nm_failed_attempts x = 0"
    "nm_status x = (if status_of cm ?n \<in> {Some DEAD, Some RECOVERED} then RECOVERED else ALIVE)"
    unfolding run heartbeat_ops_def
    by (cases "node_of cm ?n"; cases "nm_status (the (node_of cm ?n))")
      (auto simp: status_of_def register_node_def relocate_node_def process_heartbeat_def Let_def dict_maps
        NodeMetadata_def payload_metrics_def get_default_def)
  have "?n \<in> ring_members cm'" if "nm_status x = ALIVE"
    using that x(1) ok by (auto simp: cluster_ok_def ring_ok_def ring_members_def status_of_def split: option.splits)
  with x show ?thesis by auto
qed

section \<open>Witnesses\<close>

abbreviation demo_registration :: registration where
  "demo_registration \<equiv> \<lparr>reg_node_id = Some ''n'', reg_host = Some ''h'', reg_port = None,
     reg_zone = None, reg_cache_capacity = Some 10\<rparr>"

theorem registration_validates_witness:
  "fst (register_endpoint 0 ''t'' demo_registration (Some (cluster_run 15 3 [])))
     = Inl (HTTPException 400 ''Missing required field: port'')"
proof -
  obtain answer cm' where r: "register_endpoint 0 ''t'' demo_registration (Some (cluster_run 15 3 []))
      = (answer, Some cm')"
    by (simp add: register_endpoint_def missing_fields_def)
  from registration_validates [OF refl r] show ?thesis unfolding r by (simp add: missing_fields_def)
qed

abbreviation demo_payload :: heartbeat_payload where
  "demo_payload \<equiv> \<lparr>hb_node_id = ''n'', hb_host = ''h'', hb_port = 8001, hb_zone = ''z'', hb_status = ''alive'',
     hb_cache_size = 4, hb_cache_capacity = 10, hb_hit_ratio = 1/2, hb_memory_bytes = 64, hb_uptime_s = 9,
     hb_timestamp = 5\<rparr>"

theorem heartbeat_joins_witness:
  "\<exists>cm'. snd (heartbeat 0 ''t'' 1 ''t'' demo_payload (Some (cluster_run 15 3 []))) = Some cm'
     \<and> status_of cm' ''n'' = Some ALIVE \<and> ''n'' \<in> ring_members cm'"
proof -
  obtain answer cm' where r: "heartbeat 0 ''t'' 1 ''t'' demo_payload (Some (cluster_run 15 3 [])) = (answer, Some cm')"
    by (simp add: heartbeat_def Let_def)
  have "status_of (cluster_run 15 3 []) ''n'' = None" by (simp add: status_of_def ClusterManager_def)
  with heartbeat_joins [OF refl r] have "status_of cm' ''n'' = Some ALIVE \<and> ''n'' \<in> ring_members cm'"
    by (auto simp: status_of_def)
  with r show ?thesis by simp
qed

end
