(* ===== verification/Cluster_Api.thy ===== *)
theory Cluster_Api
  imports Cluster_Routing Models Http
begin

text \<open>
  The administration API, \<open>gateway/app/api/cluster.py\<close>: queries on the cluster manager, and two
  endpoints that answer without doing anything. \<open>None\<close> for the cluster manager stands for the
  module global before it is set. No endpoint changes the cluster manager.
\<close>

section \<open>Model\<close>

definition with_cluster :: "(cluster_manager \<Rightarrow> http_exception + 'a) \<Rightarrow> cluster_manager option \<Rightarrow> http_exception + 'a" where
  "with_cluster f cm0 =
     (case cm0 of None \<Rightarrow> Inl (HTTPException 503 ''Not initialized'') | Some cm \<Rightarrow> f cm)"

definition list_nodes :: "cluster_manager option \<Rightarrow> http_exception + node_info option list" where
  "list_nodes = with_cluster (\<lambda>cm. Inr (get_all_node_infos cm))"

definition get_node_endpoint :: "string \<Rightarrow> cluster_manager option \<Rightarrow> http_exception + node_info" where
  "get_node_endpoint node_id =
     with_cluster (\<lambda>cm. case get_node_info cm node_id of
        None \<Rightarrow> Inl (HTTPException 404 (''Node '' @ node_id @ '' not found''))
      | Some info \<Rightarrow> Inr info)"

definition cluster_stats :: "cluster_manager option \<Rightarrow> http_exception + cluster_stats_response" where
  "cluster_stats = with_cluster (\<lambda>cm. Inr (get_cluster_stats cm))"

definition health_text :: "cluster_stats_response \<Rightarrow> string" where
  "health_text stats = (if alive_nodes stats > 0 then ''healthy'' else ''degraded'')"

definition health_endpoint :: "cluster_manager option \<Rightarrow> http_exception + health_response" where
  "health_endpoint =
     with_cluster (\<lambda>cm. let stats = get_cluster_stats cm in
       Inr \<lparr>health_status_text = health_text stats, health_cluster_size = total_nodes stats,
            health_alive_nodes = alive_nodes stats, health_uptime_s = 0\<rparr>)"

definition event_log_endpoint :: "int \<Rightarrow> cluster_manager option \<Rightarrow> http_exception + int \<times> cluster_event list" where
  "event_log_endpoint limit =
     with_cluster (\<lambda>cm. let events = get_event_log cm limit in Inr (int (length events), events))"

definition trigger_rebalance :: "bool \<Rightarrow> string \<times> string" where
  "trigger_rebalance force = (''queued'', ''Rebalance started (Phase 7 - not implemented yet)'')"

definition manual_failover :: "string \<Rightarrow> string \<times> string \<times> string" where
  "manual_failover node_id =
     (''initiated'', node_id, ''Failover triggered (Phase 6 - not implemented yet)'')"

section \<open>Facts\<close>

lemma alive_nodes_count:
  "alive_nodes (get_cluster_stats cm) = int (length (alive_ids cm))"
  by (simp add: get_cluster_stats_def Let_def alive_ids_def filter_map comp_def case_prod_unfold)

lemma alive_nodes_pos:
  "distinct (keys_of (cm_nodes cm)) \<Longrightarrow> 0 < alive_nodes (get_cluster_stats cm) \<longleftrightarrow> (\<exists>n. status_of cm n = Some ALIVE)"
  using set_alive_ids [of cm] by (auto simp: alive_nodes_count) (metis last_in_set)

section \<open>Properties\<close>

text \<open>
  The health report can be trusted: on every reachable state it says healthy exactly when some
  node is ALIVE, and then every key has an owner, an ALIVE or a SUSPECT node.
\<close>

theorem healthy_cluster_routes:
  assumes "cm = cluster_run timeout rf ops" and "health_endpoint (Some cm) = Inr r"
  shows "(health_status_text r = ''healthy'' \<longleftrightarrow> (\<exists>n. status_of cm n = Some ALIVE))
    \<and> (health_status_text r = ''healthy'' \<longrightarrow> (\<exists>n. get_node_for_key cm key = Inr (Some n)
          \<and> status_of cm n \<in> {Some ALIVE, Some SUSPECT}))
    \<and> health_cluster_size r = int (card (dom (node_of cm)))"
proof -
  have ok: "cluster_ok cm" by (simp add: assms(1) cluster_run_ok)
  then have ring: "ring_ok cm" by (simp add: cluster_ok_def)
  have r: "health_status_text r = health_text (get_cluster_stats cm)"
    "health_cluster_size r = int (length (cm_nodes cm))"
    using assms(2) by (auto simp: health_endpoint_def with_cluster_def get_cluster_stats_def Let_def)
  have h: "health_status_text r = ''healthy'' \<longleftrightarrow> (\<exists>n. status_of cm n = Some ALIVE)"
    unfolding r(1) health_text_def alive_nodes_pos [OF cluster_ok_keys [OF ok]] by simp
  have "card (dom (node_of cm)) = length (cm_nodes cm)"
    unfolding dom_map_of using distinct_card [OF cluster_ok_keys [OF ok]] by simp
  moreover have "\<exists>n. get_node_for_key cm key = Inr (Some n) \<and> routable cm n" if "status_of cm m = Some ALIVE" for m
    using route_owner [OF ring, of key] ring_ok_alive [OF ring that] by auto
  ultimately show ?thesis using h r(2) by (auto simp: routable_def)
qed

text \<open>
  The node queries agree with the table: a node is found exactly when it is registered and then
  reported with its current status and address, and the listing is the registered nodes in
  alphabetic order, each once.
\<close>

theorem node_queries_agree:
  assumes "cm = cluster_run timeout rf ops" and "list_nodes (Some cm) = Inr infos"
  shows "(case get_node_endpoint n (Some cm) of
        Inl e \<Rightarrow> e = HTTPException 404 (''Node '' @ n @ '' not found'') \<and> node_of cm n = None
      | Inr info \<Rightarrow> info_node_id info = n \<and> Some (info_status info) = map_option to_node_status (status_of cm n))
    \<and> map (map_option info_node_id) infos = map Some (sort (keys_of (cm_nodes cm)))
    \<and> distinct infos"
proof -
  have ok: "cluster_ok cm" by (simp add: assms(1) cluster_run_ok)
  have infos: "infos = map (get_node_info cm) (sort (keys_of (cm_nodes cm)))"
    using assms(2) by (simp add: list_nodes_def with_cluster_def get_all_node_infos_def)
  have info: "get_node_info cm m = None \<and> node_of cm m = None \<or>
      (\<exists>i. get_node_info cm m = Some i \<and> info_node_id i = m
        \<and> Some (info_status i) = map_option to_node_status (status_of cm m))" for m
    using cluster_ok_node [OF ok, of m]
    by (cases "node_of cm m") (auto simp: get_node_info_def status_of_def)
  have ids: "map (map_option info_node_id) infos = map Some (sort (keys_of (cm_nodes cm)))"
    unfolding infos map_map
  proof (rule map_cong [OF refl])
    fix m assume "m \<in> set (sort (keys_of (cm_nodes cm)))"
    then have "node_of cm m \<noteq> None" by (simp add: map_of_eq_None)
    with info [of m] show "(map_option info_node_id \<circ> get_node_info cm) m = Some m" by auto
  qed
  have "distinct (map (map_option info_node_id) infos)"
    unfolding ids distinct_map using cluster_ok_keys [OF ok] by simp
  then have "distinct infos" by (simp add: distinct_map)
  with ids info [of n] show ?thesis
    by (auto simp: get_node_endpoint_def with_cluster_def split: option.split)
qed

section \<open>Witnesses\<close>

theorem healthy_cluster_routes_witness:
  "\<exists>n. get_node_for_key (cluster_run 15 3 [demo_join ''a'']) ''k'' = Inr (Some n)"
proof -
  obtain r where r: "health_endpoint (Some (cluster_run 15 3 [demo_join ''a''])) = Inr r"
    by (simp add: health_endpoint_def with_cluster_def Let_def)
  have "status_of (cluster_run 15 3 [demo_join ''a'']) ''a'' = Some ALIVE" by (simp add: cluster_eval)
  with healthy_cluster_routes [OF refl r, of "''k''"] show ?thesis by blast
qed

theorem node_queries_agree_witness:
  "\<exists>infos. list_nodes (Some (cluster_run 15 3 [demo_join ''b'', demo_join ''a''])) = Inr infos
     \<and> map (map_option info_node_id) infos = [Some ''a'', Some ''b'']"
proof -
  obtain infos where i: "list_nodes (Some (cluster_run 15 3 [demo_join ''b'', demo_join ''a''])) = Inr infos"
    by (simp add: list_nodes_def with_cluster_def)
  have "sort (keys_of (cm_nodes (cluster_run 15 3 [demo_join ''b'', demo_join ''a'']))) = [''a'', ''b'']"
    by (simp add: cluster_eval)
  with node_queries_agree [OF refl i, of "''a''"] i show ?thesis by simp
qed

end
