(* ===== verification/Rebalancer.thy ===== *)
theory Rebalancer
  imports Prelude Hash_Ring Http
begin

text \<open>
  The key rebalancer, \<open>gateway/app/services/rebalancer.py\<close>: which keys change owner between
  two rings, how the moves are grouped into tasks, and what each task reads and posts.

  The answers of the cache nodes are arguments: \<open>fetch\<close> gives the outcome of the \<open>/keys\<close> call
  to a node, \<open>snap\<close> and \<open>load\<close> the outcomes of the \<open>/snapshot\<close> and \<open>/bulk-load\<close> calls of
  the task with a given number, so the answers may depend on how the concurrent tasks
  interleave. \<open>enum\<close> is the order in which Python iterates over the set of keys. An owner is
  \<open>None\<close> when its ring is empty. A task also returns the request it posted, if it posted one.
\<close>

section \<open>Model\<close>

record rebalancer =
  in_progress :: bool
  migrated_keys :: int
  affected_nodes :: "string option set"

definition Rebalancer :: rebalancer where
  "Rebalancer = \<lparr>in_progress = False, migrated_keys = 0, affected_nodes = {}\<rparr>"

record snapshot_entry =
  entry_key :: "string option" \<comment> \<open>\<open>None\<close> where \<open>e["key"]\<close> raises\<close>
  entry_value :: string
  entry_ttl :: int

type_synonym owner = "string option"
type_synonym migrations = "(owner \<times> (string \<times> owner) list) list"
type_synonym task = "owner \<times> owner \<times> string list" \<comment> \<open>old owner, new owner, keys\<close>
type_synonym keys_answer = "string list option http_outcome"
type_synonym snapshot_answer = "snapshot_entry list option http_outcome"

definition fetch_keys_from_node :: "keys_answer \<Rightarrow> string set" where
  "fetch_keys_from_node resp =
     (case resp of
        Raised e \<Rightarrow> {}
      | Response status body \<Rightarrow>
          if status = 200
          then (case body of
                  None \<Rightarrow> {}
                | Some keys \<Rightarrow> set (case keys of None \<Rightarrow> [] | Some ks \<Rightarrow> ks))
          else {})"

definition get_all_keys :: "(string \<Rightarrow> endpoint \<Rightarrow> keys_answer) \<Rightarrow> (string \<times> endpoint) list \<Rightarrow> string set" where
  "get_all_keys fetch node_endpoints =
     fold (\<lambda>(node_id, ep) all_keys. all_keys \<union> fetch_keys_from_node (fetch node_id ep)) node_endpoints {}"

text \<open>The loop over the keys, with \<open>migrations\<close> and \<open>affected_nodes\<close> as accumulators.\<close>

fun plan_loop ::
  "hash_ring \<Rightarrow> hash_ring \<Rightarrow> string list \<Rightarrow> migrations \<Rightarrow> owner set \<Rightarrow> migrations py \<times> owner set" where
  "plan_loop old_ring new_ring [] migrations affected = (Inr migrations, affected)"
| "plan_loop old_ring new_ring (key # keys) migrations affected =
     (case get_node old_ring key of
        Inl e \<Rightarrow> (Inl e, affected)
      | Inr old_owner \<Rightarrow>
          (case get_node new_ring key of
             Inl e \<Rightarrow> (Inl e, affected)
           | Inr new_owner \<Rightarrow>
               if old_owner = new_owner then plan_loop old_ring new_ring keys migrations affected
               else plan_loop old_ring new_ring keys
                      (AList.update new_owner (dict_get migrations new_owner [] @ [(key, old_owner)]) migrations)
                      (affected \<union> {old_owner, new_owner})))"

text \<open>Grouping the keys of one new owner by their old owner.\<close>

definition group_by_owner :: "(string \<times> owner) list \<Rightarrow> (owner \<times> string list) list" where
  "group_by_owner keys_and_owners =
     fold (\<lambda>(key, old_owner) by_old_owner.
             AList.update old_owner (dict_get by_old_owner old_owner [] @ [key]) by_old_owner)
       keys_and_owners []"

definition migration_tasks :: "migrations \<Rightarrow> task list" where
  "migration_tasks migrations =
     concat (map (\<lambda>(new_owner, ko). map (\<lambda>(old_owner, keys). (old_owner, new_owner, keys)) (group_by_owner ko))
       migrations)"

definition endpoint_of :: "(string \<times> endpoint) list \<Rightarrow> owner \<Rightarrow> endpoint \<Rightarrow> endpoint" where
  "endpoint_of node_endpoints n dflt =
     (case n of None \<Rightarrow> dflt | Some node_id \<Rightarrow> dict_get node_endpoints node_id dflt)"

text \<open>\<open>[e for e in entries if e["key"] in keys_set]\<close>; an entry without a key raises.\<close>

fun select_entries :: "string set \<Rightarrow> snapshot_entry list \<Rightarrow> snapshot_entry list py" where
  "select_entries ks [] = Inr []"
| "select_entries ks (e # es) =
     (case entry_key e of
        None \<Rightarrow> Inl KeyError
      | Some k \<Rightarrow> bind_py (select_entries ks es) (\<lambda>r. Inr (if k \<in> ks then e # r else r)))"

definition migrate_keys ::
  "(endpoint \<Rightarrow> snapshot_answer) \<Rightarrow> (endpoint \<Rightarrow> snapshot_entry list \<Rightarrow> unit http_outcome) \<Rightarrow>
   (string \<times> endpoint) list \<Rightarrow> task \<Rightarrow> int \<times> (endpoint \<times> snapshot_entry list) option" where
  "migrate_keys snap load node_endpoints t =
     (case t of (old_owner, new_owner, keys) \<Rightarrow>
        let old_ep = endpoint_of node_endpoints old_owner (''localhost'', 8001);
            new_ep = endpoint_of node_endpoints new_owner (''localhost'', 8002)
        in case snap old_ep of
             Raised e \<Rightarrow> (0, None)
           | Response status body \<Rightarrow>
               if status \<noteq> 200 then (0, None)
               else case body of
                 None \<Rightarrow> (0, None)
               | Some snapshot \<Rightarrow>
                   case select_entries (set keys) (case snapshot of None \<Rightarrow> [] | Some es \<Rightarrow> es) of
                     Inl e \<Rightarrow> (0, None)
                   | Inr filtered \<Rightarrow>
                       if filtered = [] then (0, None)
                       else case load new_ep filtered of
                         Raised e \<Rightarrow> (0, Some (new_ep, filtered))
                       | Response status' body' \<Rightarrow>
                           if status' \<noteq> 200 then (0, Some (new_ep, filtered))
                           else (int (length filtered), Some (new_ep, filtered)))"

definition run_tasks ::
  "(nat \<Rightarrow> endpoint \<Rightarrow> snapshot_answer) \<Rightarrow> (nat \<Rightarrow> endpoint \<Rightarrow> snapshot_entry list \<Rightarrow> unit http_outcome) \<Rightarrow>
   (string \<times> endpoint) list \<Rightarrow> task list \<Rightarrow> (int \<times> (endpoint \<times> snapshot_entry list) option) list" where
  "run_tasks snap load node_endpoints tasks =
     map (\<lambda>(i, t). migrate_keys (snap i) (load i) node_endpoints t) (enumerate 0 tasks)"

definition execute_migrations ::
  "(nat \<Rightarrow> endpoint \<Rightarrow> snapshot_answer) \<Rightarrow> (nat \<Rightarrow> endpoint \<Rightarrow> snapshot_entry list \<Rightarrow> unit http_outcome) \<Rightarrow>
   migrations \<Rightarrow> (string \<times> endpoint) list \<Rightarrow> rebalancer \<Rightarrow>
   rebalancer \<times> (endpoint \<times> snapshot_entry list) list" where
  "execute_migrations snap load migrations node_endpoints r =
     (let results = run_tasks snap load node_endpoints (migration_tasks migrations)
      in (r\<lparr>migrated_keys := fold (\<lambda>(n, post) total. total + n) results (migrated_keys r)\<rparr>,
          List.map_filter snd results))"

datatype rebalance_result =
    Already_In_Progress
  | Completed int "owner set"

text \<open>The \<open>finally\<close> clause clears \<open>in_progress\<close> on every way out of the \<open>try\<close> block.\<close>

definition rebalance ::
  "(string set \<Rightarrow> string list) \<Rightarrow> (string \<Rightarrow> endpoint \<Rightarrow> keys_answer) \<Rightarrow>
   (nat \<Rightarrow> endpoint \<Rightarrow> snapshot_answer) \<Rightarrow> (nat \<Rightarrow> endpoint \<Rightarrow> snapshot_entry list \<Rightarrow> unit http_outcome) \<Rightarrow>
   hash_ring \<Rightarrow> hash_ring \<Rightarrow> (string \<times> endpoint) list \<Rightarrow> rebalancer \<Rightarrow>
   rebalance_result py \<times> rebalancer \<times> (endpoint \<times> snapshot_entry list) list" where
  "rebalance enum fetch snap load old_ring new_ring node_endpoints r =
     (if in_progress r then (Inr Already_In_Progress, r, [])
      else let r1 = r\<lparr>in_progress := True, migrated_keys := 0, affected_nodes := {}\<rparr>;
               all_keys = get_all_keys fetch node_endpoints
           in case plan_loop old_ring new_ring (enum all_keys) [] (affected_nodes r1) of
                (Inl e, affected) \<Rightarrow> (Inl e, r1\<lparr>affected_nodes := affected, in_progress := False\<rparr>, [])
              | (Inr migrations, affected) \<Rightarrow>
                  (case execute_migrations snap load migrations node_endpoints (r1\<lparr>affected_nodes := affected\<rparr>) of
                     (r2, posts) \<Rightarrow>
                       (Inr (Completed (migrated_keys r2) (affected_nodes r2)),
                        r2\<lparr>in_progress := False\<rparr>, posts)))"

section \<open>Grouping\<close>

text \<open>
  Both dictionaries of lists the rebalancer builds are groupings of a list by a key: one entry per
  key value in the order of first occurrence, with the elements of that value in list order.
\<close>

definition grouping :: "('a \<Rightarrow> 'k) \<Rightarrow> ('a \<Rightarrow> 'v) \<Rightarrow> 'a list \<Rightarrow> ('k \<times> 'v list) list" where
  "grouping f g xs = map (\<lambda>n. (n, map g (filter (\<lambda>x. f x = n) xs))) (nub (map f xs))"

lemma nub_snoc: "nub (xs @ [x]) = (if x \<in> set xs then nub xs else nub xs @ [x])"
  by (induction xs rule: nub.induct) auto

lemma update_graph:
  "distinct ns \<Longrightarrow> AList.update k v (map (\<lambda>n. (n, h n)) ns)
     = map (\<lambda>n. (n, if n = k then v else h n)) (if k \<in> set ns then ns else ns @ [k])"
  by (induction ns) auto

lemma map_of_graph: "map_of (map (\<lambda>n. (n, h n)) ns) k = (if k \<in> set ns then Some (h k) else None)"
  by (induction ns) auto

lemma dict_get_grouping: "dict_get (grouping f g xs) n [] = map g (filter (\<lambda>x. f x = n) xs)"
  by (auto simp: dict_get_def grouping_def map_of_graph filter_empty_conv)

lemma fold_grouping:
  "fold (\<lambda>x d. AList.update (f x) (dict_get d (f x) [] @ [g x]) d) xs [] = grouping f g xs"
proof (induction xs rule: rev_induct)
  case (snoc x xs)
  have "AList.update (f x) (dict_get (grouping f g xs) (f x) [] @ [g x]) (grouping f g xs)
      = grouping f g (xs @ [x])"
    unfolding dict_get_grouping unfolding grouping_def
    by (subst update_graph) (auto simp: nub_snoc)
  with snoc show ?case by simp
qed (simp add: grouping_def)

lemma in_grouping:
  "(n, ys) \<in> set (grouping f g xs) \<longleftrightarrow> ys \<noteq> [] \<and> ys = map g (filter (\<lambda>x. f x = n) xs)"
  by (auto simp: grouping_def filter_empty_conv)

lemma keys_grouping: "distinct (keys_of (grouping f g xs))"
  by (simp add: grouping_def comp_def)

section \<open>The plan\<close>

abbreviation moved :: "hash_ring \<Rightarrow> hash_ring \<Rightarrow> string list \<Rightarrow> string list" where
  "moved old_ring new_ring \<equiv> filter (\<lambda>k. ring_owner old_ring k \<noteq> ring_owner new_ring k)"

lemma plan_loop_fold:
  assumes "ring_wf old" and "ring_wf new"
  shows "plan_loop old new keys m aff =
    (Inr (fold (\<lambda>k d. AList.update (ring_owner new k)
             (dict_get d (ring_owner new k) [] @ [(k, ring_owner old k)]) d) (moved old new keys) m),
     aff \<union> ring_owner old ` set (moved old new keys) \<union> ring_owner new ` set (moved old new keys))"
  using assms by (induction keys arbitrary: m aff) (auto simp: get_node_owner)

lemma plan_loop_grouping:
  assumes "ring_wf old" and "ring_wf new"
  shows "plan_loop old new keys [] {} =
    (Inr (grouping (ring_owner new) (\<lambda>k. (k, ring_owner old k)) (moved old new keys)),
     ring_owner old ` set (moved old new keys) \<union> ring_owner new ` set (moved old new keys))"
  by (simp add: plan_loop_fold [OF assms] fold_grouping)

lemma group_by_owner_grouping: "group_by_owner ko = grouping snd fst ko"
  using fold_grouping [of snd fst ko] by (simp add: group_by_owner_def case_prod_unfold)

abbreviation plan_tasks :: "hash_ring \<Rightarrow> hash_ring \<Rightarrow> string list \<Rightarrow> task list" where
  "plan_tasks old new keys \<equiv>
     migration_tasks (grouping (ring_owner new) (\<lambda>k. (k, ring_owner old k)) (moved old new keys))"

lemma in_migration_tasks:
  "(a, b, ks) \<in> set (migration_tasks m) \<longleftrightarrow> (\<exists>ko. (b, ko) \<in> set m \<and> (a, ks) \<in> set (group_by_owner ko))"
  by (force simp: migration_tasks_def)

lemma in_plan_tasks:
  "(a, b, ks) \<in> set (plan_tasks old new keys) \<longleftrightarrow>
     a \<noteq> b \<and> ks \<noteq> [] \<and> ks = filter (\<lambda>k. ring_owner old k = a \<and> ring_owner new k = b) keys"
proof -
  let ?ko = "map (\<lambda>k. (k, ring_owner old k)) (filter (\<lambda>k. ring_owner new k = b) (moved old new keys))"
  have "map fst (filter (\<lambda>p. snd p = a) ?ko)
      = filter (\<lambda>k. ring_owner old k = a) (filter (\<lambda>k. ring_owner new k = b) (moved old new keys))"
    by (simp add: filter_map comp_def)
  also have "\<dots> = (if a = b then [] else filter (\<lambda>k. ring_owner old k = a \<and> ring_owner new k = b) keys)"
    unfolding filter_filter by (auto intro!: filter_cong simp: filter_empty_conv)
  finally have ks: "map fst (filter (\<lambda>p. snd p = a) ?ko) = \<dots>" .
  have "(a, b, ks) \<in> set (plan_tasks old new keys) \<longleftrightarrow>
      ?ko \<noteq> [] \<and> ks \<noteq> [] \<and> ks = map fst (filter (\<lambda>p. snd p = a) ?ko)"
    unfolding in_migration_tasks in_grouping group_by_owner_grouping by blast
  then show ?thesis unfolding ks by (auto simp: filter_empty_conv)
qed

lemma distinct_plan_tasks: "distinct (map (\<lambda>(a, b, ks). (a, b)) (plan_tasks old new keys))"
proof -
  have "distinct (keys_of m) \<Longrightarrow> distinct (map (\<lambda>(a, b, ks). (a, b)) (migration_tasks m))" for m
  proof (induction m)
    case (Cons e m)
    obtain b ko where e: "e = (b, ko)" by fastforce
    have "map (\<lambda>(a, b, ks). (a, b)) (map (\<lambda>(a, ks). (a, b, ks)) (group_by_owner ko))
        = map (\<lambda>a. (a, b)) (keys_of (group_by_owner ko))" by (simp add: comp_def case_prod_unfold)
    moreover have "distinct (map (\<lambda>a. (a, b)) (keys_of (group_by_owner ko)))"
      unfolding distinct_map [of "\<lambda>a. (a, b)"] group_by_owner_grouping
      by (simp add: keys_grouping inj_on_def)
    moreover have "(a, b, ks) \<notin> set (migration_tasks m)" for a ks
      using Cons.prems by (force simp: e in_migration_tasks)
    moreover have "migration_tasks (e # m) = map (\<lambda>(a, ks). (a, b, ks)) (group_by_owner ko) @ migration_tasks m"
      by (simp add: e migration_tasks_def)
    ultimately show ?case using Cons by (auto simp del: map_map)
  qed (simp add: migration_tasks_def)
  then show ?thesis by (simp add: keys_grouping)
qed

section \<open>The run\<close>

abbreviation source_of :: "(string \<times> endpoint) list \<Rightarrow> owner \<Rightarrow> endpoint" where
  "source_of eps a \<equiv> endpoint_of eps a (''localhost'', 8001)"

abbreviation target_of :: "(string \<times> endpoint) list \<Rightarrow> owner \<Rightarrow> endpoint" where
  "target_of eps b \<equiv> endpoint_of eps b (''localhost'', 8002)"

lemma get_all_keys_union: "get_all_keys fetch eps = (\<Union>(n, ep)\<in>set eps. fetch_keys_from_node (fetch n ep))"
proof -
  have "fold (\<lambda>(n, ep) acc. acc \<union> fetch_keys_from_node (fetch n ep)) eps A
      = A \<union> (\<Union>(n, ep)\<in>set eps. fetch_keys_from_node (fetch n ep))" for A
    by (induction eps arbitrary: A) auto
  then show ?thesis by (simp add: get_all_keys_def)
qed

lemma select_entries_Inr:
  "select_entries ks es = Inr r \<Longrightarrow> r = filter (\<lambda>e. the (entry_key e) \<in> ks) es \<and> (\<forall>e\<in>set es. entry_key e \<noteq> None)"
  by (induction es arbitrary: r) (auto simp: bind_py_Inr_iff split: option.splits)

lemma select_entries_keyed:
  "\<forall>e\<in>set es. entry_key e \<noteq> None \<Longrightarrow> select_entries ks es = Inr (filter (\<lambda>e. the (entry_key e) \<in> ks) es)"
  by (induction es) auto

lemma migrate_keys_post:
  assumes "migrate_keys snap load eps (a, b, ks) = (n, Some (ep, es))"
  shows "ep = target_of eps b \<and> es \<noteq> []
    \<and> (\<forall>e\<in>set es. \<exists>k\<in>set ks. entry_key e = Some k)
    \<and> (\<exists>snapshot. snap (source_of eps a) = Response 200 (Some (Some snapshot)) \<and> set es \<subseteq> set snapshot)
    \<and> n = (if \<exists>body. load ep es = Response 200 body then int (length es) else 0)"
  using assms
  by (fastforce simp: migrate_keys_def Let_def split: http_outcome.splits option.splits sum.splits if_splits
      dest!: select_entries_Inr)

lemma migrate_keys_no_post: "migrate_keys snap load eps t = (n, None) \<Longrightarrow> n = 0"
  by (auto simp: migrate_keys_def Let_def split: http_outcome.splits option.splits sum.splits if_splits prod.splits)

lemma migrate_keys_moves:
  assumes "snap (source_of eps a) = Response 200 (Some (Some snapshot))"
    and "\<forall>e\<in>set snapshot. entry_key e \<noteq> None"
    and "e \<in> set snapshot" and "entry_key e = Some k" and "k \<in> set ks"
  shows "\<exists>es. snd (migrate_keys snap load eps (a, b, ks)) = Some (target_of eps b, es) \<and> e \<in> set es"
proof -
  let ?es = "filter (\<lambda>e. the (entry_key e) \<in> set ks) snapshot"
  have "e \<in> set ?es" using assms(3-5) by simp
  then have "?es \<noteq> []" by force
  with \<open>e \<in> set ?es\<close> show ?thesis
    unfolding migrate_keys_def prod.case Let_def assms(1)
    by (simp add: select_entries_keyed [OF assms(2)] split: http_outcome.split)
qed

lemma list_not_empty: "x \<in> set xs \<Longrightarrow> xs \<noteq> []"
  by auto

lemma in_map_filter: "y \<in> set (List.map_filter f xs) \<longleftrightarrow> (\<exists>x\<in>set xs. f x = Some y)"
  by (induction xs) (auto simp: map_filter_simps split: option.splits)

lemma in_run_tasks:
  "x \<in> set (run_tasks snap load eps tasks) \<longleftrightarrow>
     (\<exists>i < length tasks. x = migrate_keys (snap i) (load i) eps (tasks ! i))"
proof -
  have "set (enumerate 0 tasks) = (\<lambda>i. (i, tasks ! i)) ` {..<length tasks}"
    by (auto simp: in_set_enumerate_eq image_iff)
  then show ?thesis by (auto simp: run_tasks_def)
qed

lemma fold_total: "fold (\<lambda>(n, post) total. total + n) rs k = k + sum_list (map fst rs)" for k :: int
  by (induction rs arbitrary: k) auto

lemma rebalance_run:
  assumes "ring_wf old" and "ring_wf new" and "\<not> in_progress r"
  shows "rebalance enum fetch snap load old new eps r =
    (let keys = enum (get_all_keys fetch eps);
         results = run_tasks snap load eps (plan_tasks old new keys);
         n = sum_list (map fst results);
         aff = ring_owner old ` set (moved old new keys) \<union> ring_owner new ` set (moved old new keys)
     in (Inr (Completed n aff), \<lparr>in_progress = False, migrated_keys = n, affected_nodes = aff, \<dots> = rebalancer.more r\<rparr>,
         List.map_filter snd results))"
  using assms(3)
  by (simp add: rebalance_def plan_loop_grouping [OF assms(1,2)] execute_migrations_def Let_def fold_total)

lemma count_posts:
  "(\<And>r. r \<in> set rs \<Longrightarrow> snd r = None \<Longrightarrow> fst r = 0) \<Longrightarrow>
   (\<And>r ep es. r \<in> set rs \<Longrightarrow> snd r = Some (ep, es) \<Longrightarrow> 0 \<le> fst r \<and> fst r \<le> int (length es)) \<Longrightarrow>
   0 \<le> sum_list (map fst rs)
     \<and> sum_list (map fst rs) \<le> int (sum_list (map (\<lambda>(ep, es). length es) (List.map_filter snd rs)))"
proof (induction rs)
  case (Cons x xs)
  then have "0 \<le> sum_list (map fst xs)
     \<and> sum_list (map fst xs) \<le> int (sum_list (map (\<lambda>(ep, es). length es) (List.map_filter snd xs)))" by simp
  then show ?case using Cons.prems(1) [of x] Cons.prems(2) [of x] by (cases "snd x") (auto simp: map_filter_simps)
qed (simp add: map_filter_simps)

section \<open>Properties\<close>

text \<open>
  C30 The plan is exact: between two well-formed rings the loop raises nothing; for every ordered
  pair of different owners there is one task if some listed key moves between them and none
  otherwise, the task carries exactly the keys that move between the two, in order, and the
  affected nodes are exactly the owners of moved keys on either side.
\<close>

theorem rebalance_plan_exact:
  assumes "ring_wf old" and "ring_wf new"
  shows "\<exists>m aff. plan_loop old new keys [] {} = (Inr m, aff)
    \<and> distinct (map (\<lambda>(a, b, ks). (a, b)) (migration_tasks m))
    \<and> set (migration_tasks m) = {(a, b, ks). a \<noteq> b \<and> ks \<noteq> []
        \<and> ks = filter (\<lambda>k. get_node old k = Inr a \<and> get_node new k = Inr b) keys}
    \<and> aff = {a. \<exists>k\<in>set keys. get_node old k \<noteq> get_node new k \<and> Inr a \<in> {get_node old k, get_node new k}}"
proof -
  have tasks: "set (plan_tasks old new keys) = {(a, b, ks). a \<noteq> b \<and> ks \<noteq> []
        \<and> ks = filter (\<lambda>k. get_node old k = Inr a \<and> get_node new k = Inr b) keys}"
    using in_plan_tasks by (auto simp: get_node_owner [OF assms(1)] get_node_owner [OF assms(2)])
  have aff: "ring_owner old ` set (moved old new keys) \<union> ring_owner new ` set (moved old new keys)
      = {a. \<exists>k\<in>set keys. get_node old k \<noteq> get_node new k \<and> Inr a \<in> {get_node old k, get_node new k}}"
    by (auto simp: get_node_owner [OF assms(1)] get_node_owner [OF assms(2)])
  show ?thesis
    by (intro exI conjI, rule plan_loop_grouping [OF assms], rule distinct_plan_tasks, rule tasks, rule aff)
qed

text \<open>
  Joins and departures move little: when the new ring is the old one with one node added, every
  task brings keys to that node; when it is the old one with one node removed, every task takes
  keys from that node.
\<close>

theorem rebalance_join_and_leave:
  assumes "ring_wf R"
    and "plan_loop R (add_node n R) keys [] {} = (Inr joins, aff)"
    and "plan_loop R (remove_node n R) keys [] {} = (Inr leaves, aff')"
  shows "(\<forall>(a, b, ks)\<in>set (migration_tasks joins). b = Some n)
    \<and> (\<forall>(a, b, ks)\<in>set (migration_tasks leaves). a = Some n)"
proof -
  note plan = plan_loop_grouping [OF assms(1)]
  have "b = Some n" if "(a, b, ks) \<in> set (migration_tasks joins)" for a b ks
  proof -
    from that assms(2) obtain k where k: "ring_owner R k = a" "ring_owner (add_node n R) k = b" "a \<noteq> b"
      by (auto simp: plan [OF ring_wf_add [OF assms(1)]] in_plan_tasks filter_empty_conv)
    then have "n \<notin> ring_nodes R" by (auto simp: add_node_def)
    with k add_node_owner [OF this, of k] show ?thesis by auto
  qed
  moreover have "a = Some n" if "(a, b, ks) \<in> set (migration_tasks leaves)" for a b ks
  proof -
    from that assms(3) obtain k where "ring_owner R k = a" "ring_owner (remove_node n R) k = b" "a \<noteq> b"
      by (auto simp: plan [OF ring_wf_remove [OF assms(1)]] in_plan_tasks filter_empty_conv)
    then show ?thesis using remove_node_owner [OF assms(1), of k n] by auto
  qed
  ultimately show ?thesis by blast
qed

text \<open>
  C31 Only moved keys are posted: whatever the nodes answer, every request a rebalance posts goes to
  the endpoint of the new owner of its entries and carries only entries with keys that were
  fetched and whose owner changed; the count it returns is at most the number of entries posted;
  and the rebalancer is left ready for the next run.
\<close>

theorem rebalance_posts_only_moved:
  assumes "ring_wf old" and "ring_wf new" and "\<not> in_progress r"
    and "set (enum (get_all_keys fetch eps)) = get_all_keys fetch eps"
    and "rebalance enum fetch snap load old new eps r = (res, r', posts)"
  shows "(\<forall>(ep, es)\<in>set posts. \<forall>e\<in>set es. \<exists>k\<in>get_all_keys fetch eps. \<exists>a b.
        entry_key e = Some k \<and> get_node old k = Inr a \<and> get_node new k = Inr b \<and> a \<noteq> b
        \<and> ep = endpoint_of eps b (''localhost'', 8002))
    \<and> \<not> in_progress r'
    \<and> 0 \<le> migrated_keys r' \<and> migrated_keys r' \<le> int (sum_list (map (\<lambda>(ep, es). length es) posts))
    \<and> res = Inr (Completed (migrated_keys r') (affected_nodes r'))"
proof (intro conjI)
  let ?keys = "enum (get_all_keys fetch eps)"
  let ?rs = "run_tasks snap load eps (plan_tasks old new ?keys)"
  note run = rebalance_run [OF assms(1,2,3), of enum fetch snap load eps, unfolded assms(5) Let_def]
  have posts: "posts = List.map_filter snd ?rs" and n: "migrated_keys r' = sum_list (map fst ?rs)"
    using run by auto
  show "\<not> in_progress r'" and "res = Inr (Completed (migrated_keys r') (affected_nodes r'))" using run by auto
  show "\<forall>(ep, es)\<in>set posts. \<forall>e\<in>set es. \<exists>k\<in>get_all_keys fetch eps. \<exists>a b.
      entry_key e = Some k \<and> get_node old k = Inr a \<and> get_node new k = Inr b \<and> a \<noteq> b
      \<and> ep = endpoint_of eps b (''localhost'', 8002)"
  proof (clarify)
    fix h p es e assume "((h, p), es) \<in> set posts" and e: "e \<in> set es"
    then obtain x where x: "x \<in> set ?rs" "snd x = Some ((h, p), es)" unfolding posts in_map_filter by blast
    then obtain i where i: "i < length (plan_tasks old new ?keys)"
      "snd (migrate_keys (snap i) (load i) eps (plan_tasks old new ?keys ! i)) = Some ((h, p), es)"
      using in_run_tasks [THEN iffD1, OF x(1)] by auto
    obtain a b ks where t: "plan_tasks old new ?keys ! i = (a, b, ks)" by (rule prod_cases3)
    have mem: "(a, b, ks) \<in> set (plan_tasks old new ?keys)" using nth_mem [OF i(1)] unfolding t .
    have m: "migrate_keys (snap i) (load i) eps (a, b, ks)
        = (fst (migrate_keys (snap i) (load i) eps (a, b, ks)), Some ((h, p), es))"
      using i(2) unfolding t by (rule prod_eqI [OF _ trans, OF fst_conv [symmetric] _ snd_conv [symmetric]])
    from migrate_keys_post [OF m] e obtain k where k: "k \<in> set ks" "entry_key e = Some k"
      "(h, p) = target_of eps b" by blast
    from mem k(1) have "k \<in> set ?keys" "get_node old k = Inr a" "get_node new k = Inr b" "a \<noteq> b"
      by (auto simp: in_plan_tasks get_node_owner [OF assms(1)] get_node_owner [OF assms(2)])
    with k assms(4) show "\<exists>k\<in>get_all_keys fetch eps. \<exists>a b. entry_key e = Some k \<and> get_node old k = Inr a
        \<and> get_node new k = Inr b \<and> a \<noteq> b \<and> (h, p) = endpoint_of eps b (''localhost'', 8002)" by blast
  qed
  have count: "0 \<le> sum_list (map fst ?rs)
     \<and> sum_list (map fst ?rs) \<le> int (sum_list (map (\<lambda>(ep, es). length es) (List.map_filter snd ?rs)))"
  proof (rule count_posts)
    fix x assume "x \<in> set ?rs" and "snd x = None"
    then show "fst x = 0" unfolding in_run_tasks by (metis migrate_keys_no_post prod.collapse)
  next
    fix x ep es assume "x \<in> set ?rs" and "snd x = Some (ep, es)"
    then obtain i a b ks where "migrate_keys (snap i) (load i) eps (a, b, ks) = (fst x, Some (ep, es))"
      unfolding in_run_tasks by (metis prod.collapse prod_cases3)
    from migrate_keys_post [OF this] show "0 \<le> fst x \<and> fst x \<le> int (length es)" by auto
  qed
  then show "0 \<le> migrated_keys r'" and "migrated_keys r' \<le> int (sum_list (map (\<lambda>(ep, es). length es) posts))"
    by (simp_all add: n posts)
qed

text \<open>
  Nothing that should move is left behind: if some node lists a key whose owner changed, and the
  old owner's snapshot arrives intact and holds an entry for the key, that entry is posted to the
  new owner's endpoint, whatever happens to the other nodes and tasks.
\<close>

theorem rebalance_moves_every_entry:
  assumes "ring_wf old" and "ring_wf new" and "\<not> in_progress r"
    and "set (enum (get_all_keys fetch eps)) = get_all_keys fetch eps"
    and "(node, ep) \<in> set eps" and "fetch node ep = Response 200 (Some (Some ks))" and "k \<in> set ks"
    and "get_node old k = Inr a" and "get_node new k = Inr b" and "a \<noteq> b"
    and "\<forall>i. snap i (endpoint_of eps a (''localhost'', 8001)) = Response 200 (Some (Some snapshot))"
    and "\<forall>e\<in>set snapshot. entry_key e \<noteq> None" and "e \<in> set snapshot" and "entry_key e = Some k"
  shows "\<exists>es. (endpoint_of eps b (''localhost'', 8002), es)
      \<in> set (snd (snd (rebalance enum fetch snap load old new eps r))) \<and> e \<in> set es"
proof -
  let ?keys = "enum (get_all_keys fetch eps)"
  have "k \<in> fetch_keys_from_node (fetch node ep)" using assms(6,7) by (simp add: fetch_keys_from_node_def)
  with assms(5) have "k \<in> get_all_keys fetch eps" unfolding get_all_keys_union by blast
  with assms(4) have k: "k \<in> set (filter (\<lambda>k. ring_owner old k = a \<and> ring_owner new k = b) ?keys)"
    using assms(8,9) by (simp add: get_node_owner [OF assms(1)] get_node_owner [OF assms(2)])
  obtain ts where ts: "(a, b, ts) \<in> set (plan_tasks old new ?keys)" "k \<in> set ts"
    by (rule that [OF in_plan_tasks [THEN iffD2] k]) (intro conjI assms(10) refl list_not_empty [OF k])
  from ts(1) [unfolded in_set_conv_nth] obtain i
    where i: "i < length (plan_tasks old new ?keys)" "plan_tasks old new ?keys ! i = (a, b, ts)"
    by (elim exE conjE)
  note member = in_run_tasks [THEN iffD2, OF exI, OF conjI, OF i(1) refl, of snap load eps]
  from migrate_keys_moves [of "snap i", OF spec [OF assms(11), of i] assms(12,13,14) ts(2), where load = "load i" and b = b]
  obtain es where es: "snd (migrate_keys (snap i) (load i) eps (a, b, ts)) = Some (target_of eps b, es)"
    "e \<in> set es" by (elim exE conjE)
  have "(target_of eps b, es) \<in> set (List.map_filter snd (run_tasks snap load eps (plan_tasks old new ?keys)))"
    unfolding in_map_filter by (rule bexI [OF _ member]) (simp only: i(2) es(1))
  with es(2) show ?thesis
    by (auto simp: rebalance_run [OF assms(1,2,3)] Let_def)
qed

section \<open>Witnesses\<close>

text \<open>Node a leaves the ring of a and b; the key k moves from a to b.\<close>

abbreviation demo_after :: hash_ring where
  "demo_after \<equiv> HashRing [''b''] 1"

lemma demo_after_wf: "ring_wf demo_after"
  by (rule ring_wf_HashRing)

lemma demo_after_owner: "get_node demo_after key = Inr (Some ''b'')"
proof -
  obtain n where "ring_owner demo_after key = Some n"
    using ring_owner_Some [OF demo_after_wf] HashRing_ne [of "[''b'']" 1] by auto
  moreover from this have "n = ''b''" using ring_owner_member [OF demo_after_wf] by fastforce
  ultimately show ?thesis by (simp add: get_node_owner demo_after_wf)
qed

theorem rebalance_plan_exact_witness:
  "\<exists>m aff. plan_loop demo_ring demo_after [''k''] [] {} = (Inr m, aff)
    \<and> set (migration_tasks m) = {(Some ''a'', Some ''b'', [''k''])}"
proof -
  obtain m aff where m: "plan_loop demo_ring demo_after [''k''] [] {} = (Inr m, aff)"
    "set (migration_tasks m) = {(a, b, ks). a \<noteq> b \<and> ks \<noteq> []
        \<and> ks = filter (\<lambda>k. get_node demo_ring k = Inr a \<and> get_node demo_after k = Inr b) [''k'']}"
    using rebalance_plan_exact [OF demo_ring_wf demo_after_wf, of "[''k'']"] by blast
  then have "set (migration_tasks m) = {(Some ''a'', Some ''b'', [''k''])}"
    by (auto simp: demo_get_node demo_after_owner split: if_splits)
  with m(1) show ?thesis by blast
qed

theorem rebalance_join_and_leave_witness:
  "\<exists>joins aff leaves aff'. plan_loop demo_ring (add_node ''a'' demo_ring) [''k''] [] {} = (Inr joins, aff)
    \<and> plan_loop demo_ring (remove_node ''a'' demo_ring) [''k''] [] {} = (Inr leaves, aff')
    \<and> fst ` set (migration_tasks leaves) \<subseteq> {Some ''a''}"
proof -
  obtain joins aff leaves aff' where p:
    "plan_loop demo_ring (add_node ''a'' demo_ring) [''k''] [] {} = (Inr joins, aff)"
    "plan_loop demo_ring (remove_node ''a'' demo_ring) [''k''] [] {} = (Inr leaves, aff')"
    using plan_loop_grouping [OF demo_ring_wf ring_wf_add [OF demo_ring_wf]]
      plan_loop_grouping [OF demo_ring_wf ring_wf_remove [OF demo_ring_wf]] by blast
  from rebalance_join_and_leave [OF demo_ring_wf p]
  have "fst ` set (migration_tasks leaves) \<subseteq> {Some ''a''}" by fastforce
  with p show ?thesis by blast
qed

abbreviation demo_entry :: snapshot_entry where
  "demo_entry \<equiv> \<lparr>entry_key = Some ''k'', entry_value = ''v'', entry_ttl = 0\<rparr>"

abbreviation demo_endpoints :: "(string \<times> endpoint) list" where
  "demo_endpoints \<equiv> [(''a'', (''h1'', 1)), (''b'', (''h2'', 2))]"

definition demo_rebalance ::
  "rebalance_result py \<times> rebalancer \<times> (endpoint \<times> snapshot_entry list) list" where
  "demo_rebalance = rebalance (\<lambda>S. if S = {''k''} then [''k''] else [])
     (\<lambda>n ep. Response 200 (Some (Some [''k'']))) (\<lambda>i ep. Response 200 (Some (Some [demo_entry])))
     (\<lambda>i ep es. Response 200 (Some ())) demo_ring demo_after demo_endpoints Rebalancer"

lemma demo_all_keys:
  "get_all_keys (\<lambda>n ep. Response 200 (Some (Some [''k'']))) demo_endpoints = {''k''}"
  by (simp add: get_all_keys_def fetch_keys_from_node_def)

theorem rebalance_posts_only_moved_witness:
  "\<not> in_progress (fst (snd demo_rebalance)) \<and> 0 \<le> migrated_keys (fst (snd demo_rebalance))"
proof -
  obtain res r' posts where d: "demo_rebalance = (res, r', posts)" by (metis prod_cases3)
  have "\<not> in_progress Rebalancer" by (simp add: Rebalancer_def)
  from rebalance_posts_only_moved [OF demo_ring_wf demo_after_wf this _ d [unfolded demo_rebalance_def]]
  show ?thesis by (simp add: d demo_all_keys)
qed

theorem rebalance_moves_every_entry_witness:
  "\<exists>es. ((''h2'', 2), es) \<in> set (snd (snd demo_rebalance)) \<and> demo_entry \<in> set es"
proof -
  have "\<not> in_progress Rebalancer" by (simp add: Rebalancer_def)
  from rebalance_moves_every_entry [OF demo_ring_wf demo_after_wf this, where eps = demo_endpoints
      and node = "''a''" and ep = "(''h1'', 1)" and ks = "[''k'']" and k = "''k''" and a = "Some ''a''"
      and b = "Some ''b''" and snapshot = "[demo_entry]" and e = demo_entry
      and enum = "\<lambda>S. if S = {''k''} then [''k''] else []"
      and fetch = "\<lambda>n ep. Response 200 (Some (Some [''k'']))"
      and snap = "\<lambda>i ep. Response 200 (Some (Some [demo_entry]))" and load = "\<lambda>i ep es. Response 200 (Some ())"]
  show ?thesis
    unfolding demo_rebalance_def by (simp add: demo_all_keys demo_get_node demo_after_owner endpoint_of_def)
qed

end
