(* ===== verification/Bloom_Filter.thy ===== *)
theory Bloom_Filter
  imports Prelude Digest
begin

text \<open>
  The Bloom filter, \<open>gateway/app/services/bloom_filter.py\<close>: the class \<open>BloomFilter\<close> and
  every method. The bit array is the list of its bytes; bit \<open>p\<close> is bit \<open>p mod 8\<close> of byte
  \<open>p div 8\<close>. A method that raises returns the exception; the array it leaves behind is not
  represented, since \<open>add\<close> raises only before its first write (in \<open>_hashes\<close>) on every
  filter the constructor builds.

  The theorems say exactly which keys the filter answers for: no false negative ever, and false
  positives exactly where the positions of a key are covered by those of the stored keys.
\<close>

unbundle bit_operations_syntax

section \<open>Model\<close>

record bloom_filter =
  size_bits :: int
  num_hashes :: int
  bit_array :: "byte list"

text \<open>\<open>bytearray(size_bytes)\<close> raises on a negative count.\<close>

definition BloomFilter :: "int \<Rightarrow> int \<Rightarrow> bloom_filter py" where
  "BloomFilter size_bytes hashes =
     (if size_bytes < 0 then Inl ValueError
      else Inr \<lparr>size_bits = size_bytes * 8, num_hashes = hashes,
                bit_array = replicate (nat size_bytes) 0\<rparr>)"

definition hash_at :: "bloom_filter \<Rightarrow> string \<Rightarrow> nat \<Rightarrow> int py" where
  "hash_at bf key i =
     (let h = sha256 (encode (key @ ''|'' @ str_nat i))
      in if size_bits bf = 0 then Inl ZeroDivisionError
         else Inr (int_from_bytes_big (take 4 h) mod size_bits bf))"

definition hashes :: "bloom_filter \<Rightarrow> string \<Rightarrow> int list py" where
  "hashes bf key = map_py (hash_at bf key) [0..<nat (num_hashes bf)]"

definition set_position :: "int \<Rightarrow> byte list \<Rightarrow> byte list py" where
  "set_position bit_pos arr =
     (let byte_idx = nat (bit_pos div 8); bit_idx = nat (bit_pos mod 8)
      in bind_py (py_index arr byte_idx)
           (\<lambda>b. Inr (arr[byte_idx := b OR push_bit bit_idx 1])))"

definition bloom_add :: "string \<Rightarrow> bloom_filter \<Rightarrow> bloom_filter py" where
  "bloom_add key bf =
     bind_py (hashes bf key) (\<lambda>ps.
       bind_py (fold_py set_position ps (bit_array bf)) (\<lambda>arr. Inr (bf\<lparr>bit_array := arr\<rparr>)))"

fun might_loop :: "int list \<Rightarrow> byte list \<Rightarrow> bool py" where
  "might_loop [] arr = Inr True"
| "might_loop (bit_pos # ps) arr =
     bind_py (py_index arr (nat (bit_pos div 8))) (\<lambda>b.
       if b AND push_bit (nat (bit_pos mod 8)) 1 = 0 then Inr False else might_loop ps arr)"

definition might_exist :: "bloom_filter \<Rightarrow> string \<Rightarrow> bool py" where
  "might_exist bf key = bind_py (hashes bf key) (\<lambda>ps. might_loop ps (bit_array bf))"

definition bloom_clear :: "bloom_filter \<Rightarrow> bloom_filter" where
  "bloom_clear bf = bf\<lparr>bit_array := replicate (length (bit_array bf)) 0\<rparr>"

definition load_from_snapshot :: "string list \<Rightarrow> bloom_filter \<Rightarrow> bloom_filter py" where
  "load_from_snapshot keys bf = fold_py bloom_add keys (bloom_clear bf)"

section \<open>The set of bits\<close>

definition bloom_wf :: "bloom_filter \<Rightarrow> bool" where
  "bloom_wf bf \<longleftrightarrow> 0 < size_bits bf \<and> size_bits bf = 8 * int (length (bit_array bf))"

definition positions :: "bloom_filter \<Rightarrow> string \<Rightarrow> int list" where
  "positions bf key =
     map (\<lambda>i. int_from_bytes_big (take 4 (sha256 (encode (key @ ''|'' @ str_nat i)))) mod size_bits bf)
       [0..<nat (num_hashes bf)]"

definition bit_at :: "byte list \<Rightarrow> int \<Rightarrow> bool" where
  "bit_at arr p = bit (arr ! nat (p div 8)) (nat (p mod 8))"

definition bits_of :: "byte list \<Rightarrow> int set" where
  "bits_of arr = {p. 0 \<le> p \<and> p < 8 * int (length arr) \<and> bit_at arr p}"

lemma hashes_positions: "bloom_wf bf \<Longrightarrow> hashes bf key = Inr (positions bf key)"
  unfolding hashes_def positions_def
  by (rule map_py_Inr) (auto simp: hash_at_def bloom_wf_def)

lemma positions_range: "bloom_wf bf \<Longrightarrow> p \<in> set (positions bf key) \<Longrightarrow> 0 \<le> p \<and> p < size_bits bf"
  by (auto simp: positions_def bloom_wf_def)

lemma byte_idx: "0 \<le> p \<Longrightarrow> p < 8 * int n \<Longrightarrow> nat (p div 8) < n"
  by linarith

lemma bit_push: "bit ((2 :: byte) ^ i) j \<longleftrightarrow> i = j \<and> j < 8"
  by (auto simp: bit_exp_iff)

lemma masked_bit: "(b :: byte) AND 2 ^ i = 0 \<longleftrightarrow> \<not> bit b i"
  by (rule and_exp_eq_0_iff_not_bit)

lemma set_position_ok:
  assumes "0 \<le> p" and "p < 8 * int (length arr)"
  shows "\<exists>arr'. set_position p arr = Inr arr' \<and> length arr' = length arr
    \<and> bits_of arr' = insert p (bits_of arr)"
proof -
  let ?i = "nat (p div 8)" and ?j = "nat (p mod 8)"
  define arr' where "arr' = arr[?i := arr ! ?i OR push_bit ?j 1]"
  have i: "?i < length arr" using assms by (rule byte_idx)
  then have "set_position p arr = Inr arr'" by (simp add: set_position_def arr'_def Let_def)
  moreover have "bit_at arr' q \<longleftrightarrow> q = p \<or> bit_at arr q"
    if "0 \<le> q" "q < 8 * int (length arr)" for q
  proof (cases "nat (q div 8) = ?i")
    case True
    have "q = p \<longleftrightarrow> nat (q mod 8) = ?j"
    proof
      assume "nat (q mod 8) = ?j"
      then have "q mod 8 = p mod 8" by (metis nat_0_le pos_mod_sign zero_less_numeral)
      moreover have "q div 8 = p div 8"
        using True that assms by (simp add: eq_nat_nat_iff pos_imp_zdiv_nonneg_iff)
      ultimately show "q = p" by (metis mult_div_mod_eq)
    qed simp
    moreover have "nat (q mod 8) < 8" by (simp add: nat_less_iff)
    ultimately show ?thesis
      using True i by (auto simp: bit_at_def arr'_def bit_or_iff bit_push)
  next
    case False
    then show ?thesis using i by (auto simp: bit_at_def arr'_def)
  qed
  ultimately show ?thesis using assms by (auto simp: bits_of_def arr'_def)
qed

lemma set_positions_ok:
  assumes "\<forall>p\<in>set ps. 0 \<le> p \<and> p < 8 * int (length arr)"
  shows "\<exists>arr'. fold_py set_position ps arr = Inr arr' \<and> length arr' = length arr
    \<and> bits_of arr' = set ps \<union> bits_of arr"
  using assms
proof (induction ps arbitrary: arr)
  case (Cons p ps)
  then obtain a where a: "set_position p arr = Inr a" "length a = length arr"
    "bits_of a = insert p (bits_of arr)" using set_position_ok [of p arr] by auto
  with Cons.prems have "\<forall>p\<in>set ps. 0 \<le> p \<and> p < 8 * int (length a)" by simp
  from Cons.IH [OF this] a show ?case by auto
qed simp

lemma might_loop_ok:
  assumes "\<forall>p\<in>set ps. 0 \<le> p \<and> p < 8 * int (length arr)"
  shows "might_loop ps arr = Inr (set ps \<subseteq> bits_of arr)"
  using assms
proof (induction ps)
  case (Cons p ps)
  then have p: "0 \<le> p" "p < 8 * int (length arr)" by auto
  have "nat (p mod 8) < 8" by (simp add: nat_less_iff)
  then have "(arr ! nat (p div 8) AND push_bit (nat (p mod 8)) 1 = 0) \<longleftrightarrow> p \<notin> bits_of arr"
    using p by (simp add: masked_bit bits_of_def bit_at_def)
  with Cons byte_idx [OF p] show ?case by auto
qed simp

lemma bloom_add_ok:
  assumes "bloom_wf bf"
  shows "\<exists>bf'. bloom_add key bf = Inr bf' \<and> bloom_wf bf' \<and> positions bf' = positions bf
    \<and> bits_of (bit_array bf') = set (positions bf key) \<union> bits_of (bit_array bf)"
proof -
  have "\<forall>p\<in>set (positions bf key). 0 \<le> p \<and> p < 8 * int (length (bit_array bf))"
    using positions_range [OF assms] assms by (auto simp: bloom_wf_def)
  from set_positions_ok [OF this] assms show ?thesis
    by (auto simp: bloom_add_def hashes_positions bloom_wf_def positions_def fun_eq_iff)
qed

lemma might_exist_ok:
  assumes "bloom_wf bf"
  shows "might_exist bf key = Inr (set (positions bf key) \<subseteq> bits_of (bit_array bf))"
proof -
  have "\<forall>p\<in>set (positions bf key). 0 \<le> p \<and> p < 8 * int (length (bit_array bf))"
    using positions_range [OF assms] assms by (auto simp: bloom_wf_def)
  then show ?thesis using assms by (simp add: might_exist_def hashes_positions might_loop_ok)
qed

lemma bloom_clear_ok:
  "bloom_wf bf \<Longrightarrow> bloom_wf (bloom_clear bf) \<and> positions (bloom_clear bf) = positions bf
     \<and> bits_of (bit_array (bloom_clear bf)) = {}"
  by (auto simp: bloom_wf_def bloom_clear_def positions_def fun_eq_iff bits_of_def bit_at_def
      nth_replicate byte_idx)

lemma bloom_adds_ok:
  assumes "bloom_wf bf"
  shows "\<exists>bf'. fold_py bloom_add ks bf = Inr bf' \<and> bloom_wf bf' \<and> positions bf' = positions bf
    \<and> bits_of (bit_array bf') = (\<Union>k\<in>set ks. set (positions bf k)) \<union> bits_of (bit_array bf)"
  using assms
proof (induction ks arbitrary: bf)
  case (Cons k ks)
  from bloom_add_ok [OF Cons.prems, of k] obtain b where b: "bloom_add k bf = Inr b" "bloom_wf b"
    "positions b = positions bf"
    "bits_of (bit_array b) = set (positions bf k) \<union> bits_of (bit_array bf)" by blast
  from Cons.IH [OF b(2)] b show ?case by auto
qed simp

section \<open>The interface of an approximate set\<close>

locale approximate_set =
  fixes add :: "'k \<Rightarrow> 'f \<Rightarrow> 'f py"
    and test :: "'f \<Rightarrow> 'k \<Rightarrow> bool py"
    and inv :: "'f \<Rightarrow> bool"
  assumes add_law: "inv f \<Longrightarrow> \<exists>f'. add k f = Inr f' \<and> inv f' \<and> test f' k = Inr True
    \<and> (\<forall>q. test f q = Inr True \<longrightarrow> test f' q = Inr True)"
begin

lemma no_false_negative:
  "inv f \<Longrightarrow> \<exists>f'. fold_py add ks f = Inr f' \<and> inv f'
     \<and> (\<forall>k\<in>set ks. test f' k = Inr True) \<and> (\<forall>q. test f q = Inr True \<longrightarrow> test f' q = Inr True)"
proof (induction ks arbitrary: f)
  case (Cons k ks)
  from add_law [OF Cons.prems, of k] obtain f1 where f1: "add k f = Inr f1" "inv f1"
    "test f1 k = Inr True" "\<forall>q. test f q = Inr True \<longrightarrow> test f1 q = Inr True" by blast
  from Cons.IH [OF f1(2)] f1 show ?case by auto
qed simp

end

interpretation bloom: approximate_set bloom_add might_exist bloom_wf
proof unfold_locales
  fix bf k assume wf: "bloom_wf bf"
  from bloom_add_ok [OF wf, of k] show "\<exists>bf'. bloom_add k bf = Inr bf' \<and> bloom_wf bf'
      \<and> might_exist bf' k = Inr True
      \<and> (\<forall>q. might_exist bf q = Inr True \<longrightarrow> might_exist bf' q = Inr True)"
    using wf by (auto simp: might_exist_ok)
qed

section \<open>Properties\<close>

text \<open>
  C39 No false negatives: on a filter of at least one byte nothing raises, and after adding any
  keys, in any order and on top of any earlier content, every one of them tests positive and
  so does every key that tested positive before.
\<close>

theorem bloom_no_false_negatives:
  assumes "bloom_wf bf"
  shows "\<exists>bf'. fold_py bloom_add ks bf = Inr bf' \<and> bloom_wf bf'
    \<and> (\<forall>k\<in>set ks. might_exist bf' k = Inr True)
    \<and> (\<forall>q. might_exist bf q = Inr True \<longrightarrow> might_exist bf' q = Inr True)"
  using assms by (rule bloom.no_false_negative)

text \<open>
  The filter's answers are exact about positions: after \<open>load_from_snapshot\<close>, whatever the
  filter held before, a key tests positive exactly when each of its positions is a position of
  some loaded key. In particular an empty snapshot answers \<open>False\<close> for every key as soon as
  there is at least one hash function.
\<close>

theorem load_from_snapshot_exact:
  assumes "bloom_wf bf"
  shows "\<exists>bf'. load_from_snapshot ks bf = Inr bf' \<and> bloom_wf bf'
    \<and> (\<forall>q. might_exist bf' q
         = Inr (\<forall>p\<in>set (positions bf q). \<exists>k\<in>set ks. p \<in> set (positions bf k)))
    \<and> (ks = [] \<and> 0 < num_hashes bf \<longrightarrow> (\<forall>q. might_exist bf' q = Inr False))"
proof -
  from bloom_clear_ok [OF assms] have c: "bloom_wf (bloom_clear bf)"
    "positions (bloom_clear bf) = positions bf" "bits_of (bit_array (bloom_clear bf)) = {}" by auto
  from bloom_adds_ok [OF c(1), of ks] obtain b where b: "load_from_snapshot ks bf = Inr b" "bloom_wf b"
    "positions b = positions bf" "bits_of (bit_array b) = (\<Union>k\<in>set ks. set (positions bf k))"
    by (auto simp: load_from_snapshot_def c)
  have q: "might_exist b q
      = Inr (\<forall>p\<in>set (positions bf q). \<exists>k\<in>set ks. p \<in> set (positions bf k))" for q
    using might_exist_ok [OF b(2), of q] b by (auto simp: subset_eq)
  moreover have "positions bf q \<noteq> []" if "0 < num_hashes bf" for q
    using that by (simp add: positions_def)
  ultimately show ?thesis using b by (intro exI [of _ b]) (auto simp: neq_Nil_conv)
qed

text \<open>
  Construction and its errors: a negative size raises \<open>ValueError\<close>; a filter of zero bytes
  is built, but every \<open>add\<close> and every test raises \<open>ZeroDivisionError\<close> as soon as there is a
  hash function; a positive size gives a well-formed filter in which nothing is present.
\<close>

theorem bloom_construction:
  "(n < 0 \<longrightarrow> BloomFilter n h = Inl ValueError)
   \<and> (0 < h \<longrightarrow> (\<exists>bf. BloomFilter 0 h = Inr bf
        \<and> bloom_add k bf = Inl ZeroDivisionError \<and> might_exist bf k = Inl ZeroDivisionError))
   \<and> (0 < n \<longrightarrow> (\<exists>bf. BloomFilter n h = Inr bf \<and> bloom_wf bf
        \<and> might_exist bf k = Inr (h \<le> 0)))"
proof (intro conjI impI)
  assume h: "0 < h"
  let ?bf = "\<lparr>size_bits = 0, num_hashes = h, bit_array = []\<rparr>"
  from h have "[0..<nat h] = 0 # [1..<nat h]" by (simp add: upt_conv_Cons)
  then have "hashes ?bf k = Inl ZeroDivisionError" by (simp add: hashes_def hash_at_def)
  then show "\<exists>bf. BloomFilter 0 h = Inr bf
      \<and> bloom_add k bf = Inl ZeroDivisionError \<and> might_exist bf k = Inl ZeroDivisionError"
    by (simp add: BloomFilter_def bloom_add_def might_exist_def)
next
  assume n: "0 < n"
  let ?bf = "\<lparr>size_bits = n * 8, num_hashes = h, bit_array = replicate (nat n) 0\<rparr>"
  have wf: "bloom_wf ?bf" using n by (simp add: bloom_wf_def)
  have "bits_of (bit_array ?bf) = {}" using bloom_clear_ok [OF wf] by (simp add: bloom_clear_def)
  moreover have "positions ?bf k = [] \<longleftrightarrow> h \<le> 0" by (simp add: positions_def)
  ultimately have "might_exist ?bf k = Inr (h \<le> 0)" using might_exist_ok [OF wf, of k] by simp
  with wf n show "\<exists>bf. BloomFilter n h = Inr bf \<and> bloom_wf bf \<and> might_exist bf k = Inr (h \<le> 0)"
    by (simp add: BloomFilter_def)
qed (simp add: BloomFilter_def)

section \<open>Witnesses\<close>

abbreviation demo_filter :: bloom_filter where
  "demo_filter \<equiv> \<lparr>size_bits = 16, num_hashes = 3, bit_array = [0, 0]\<rparr>"

lemma demo_filter_wf: "bloom_wf demo_filter"
  by (simp add: bloom_wf_def)

theorem bloom_no_false_negatives_witness:
  "\<exists>bf. fold_py bloom_add [''x'', ''y''] demo_filter = Inr bf \<and> might_exist bf ''x'' = Inr True"
  using bloom_no_false_negatives [OF demo_filter_wf, of "[''x'', ''y'']"] by auto

theorem load_from_snapshot_exact_witness:
  "\<exists>bf. load_from_snapshot [] demo_filter = Inr bf \<and> might_exist bf ''x'' = Inr False"
  using load_from_snapshot_exact [OF demo_filter_wf, of "[]"] by auto

theorem bloom_construction_witness:
  "BloomFilter (- 1) 7 = Inl ValueError
   \<and> (\<exists>bf. BloomFilter 4 7 = Inr bf \<and> might_exist bf ''x'' = Inr False)"
  using bloom_construction [of "- 1" 7] bloom_construction [of 4 7 "''x''"] by auto

end
