(* ===== verification/Gateway.thy ===== *)
theory Gateway
  imports Failure_Detection Cache_Api Heartbeat_Api Cluster_Api Rebalancer Bloom_Filter
begin

text \<open>
  The gateway application, \<open>gateway/app/main.py\<close>: startup from the settings, the failure
  detection loop, the status endpoints, and the gateway as a whole as a transition system. Its
  actions are the segments of code that run without an \<open>await\<close>: a heartbeat, a registration, one
  iteration of the failure detection loop, one manual health check, the part of a client request
  before its call to a cache node, and the part after it. Any interleaving of them is a run.
\<close>

section \<open>Model\<close>

datatype handler = Get_Handler | Put_Handler | Delete_Handler

text \<open>A client request whose call to a cache node is under way.\<close>

record flight =
  fl_handler :: handler
  fl_key :: string
  fl_zone :: "string option"
  fl_request :: request

record world =
  wd_gateway :: gateway
  wd_rebalancer :: rebalancer
  wd_bloom :: bloom_filter
  wd_flights :: "flight list"

text \<open>Startup fails only if the bloom filter cannot be built.\<close>

definition startup_event :: "settings \<Rightarrow> world py" where
  "startup_event s =
     (let cm = ClusterManager (set_heartbeat_timeout_s s) (set_replication_factor s);
          cb = CircuitBreaker (set_circuit_breaker_failure_threshold s) (set_circuit_breaker_timeout_s s);
          zr = ZoneRouter;
          rb = Rebalancer
      in bind_py (BloomFilter (set_bloom_filter_size_bytes s) 7) (\<lambda>bf.
           Inr \<lparr>wd_gateway = the (initialize cm cb zr), wd_rebalancer = rb, wd_bloom = bf, wd_flights = []\<rparr>))"

definition open_breaker :: "(string \<Rightarrow> nat \<Rightarrow> time) \<Rightarrow> string \<Rightarrow> circuit_breaker \<Rightarrow> circuit_breaker" where
  "open_breaker clock node_id cb =
     fold (\<lambda>i. record_failure (clock node_id i) node_id) [0..<nat (failure_threshold cb)] cb"

definition failure_detection_iteration ::
  "time \<Rightarrow> (string \<Rightarrow> string) \<Rightarrow> (string \<Rightarrow> nat \<Rightarrow> time) \<Rightarrow> gateway \<Rightarrow> gateway" where
  "failure_detection_iteration now stamps clock g =
     (case check_heartbeat_timeouts now stamps (gw_cluster g) of (cm, newly_dead) \<Rightarrow>
        g\<lparr>gw_cluster := cm, gw_breaker := fold (open_breaker clock) newly_dead (gw_breaker g)\<rparr>)"

text \<open>The background task of the manual health check, which leaves the breaker alone.\<close>

definition check_timeouts :: "time \<Rightarrow> (string \<Rightarrow> string) \<Rightarrow> gateway \<Rightarrow> gateway" where
  "check_timeouts now stamps g = g\<lparr>gw_cluster := fst (check_heartbeat_timeouts now stamps (gw_cluster g))\<rparr>"

definition trigger_health_check :: "gateway option \<Rightarrow> string" where
  "trigger_health_check g = (case g of None \<Rightarrow> ''error'' | Some g \<Rightarrow> ''health-check queued'')"

definition root_cluster :: "gateway option \<Rightarrow> cluster_stats_response option" where
  "root_cluster g = map_option (\<lambda>g. get_cluster_stats (gw_cluster g)) g"

definition status_endpoint :: "gateway option \<Rightarrow> string \<times> cluster_stats_response option \<times> int option" where
  "status_endpoint g =
     (case g of
        None \<Rightarrow> (''initializing'', None, None)
      | Some g \<Rightarrow>
          let stats = get_cluster_stats (gw_cluster g)
          in (if alive_nodes stats > 0 then ''healthy'' else ''degraded'', Some stats,
              Some (int (length (states (gw_breaker g))))))"

section \<open>The transition system\<close>

datatype 'j action =
    Post_Heartbeat time string time string heartbeat_payload
  | Post_Register time string registration
  | Failure_Loop time "string \<Rightarrow> string" "string \<Rightarrow> nat \<Rightarrow> time"
  | Health_Check time "string \<Rightarrow> string"
  | Begin_Get "string \<Rightarrow> time" string "string option"
  | Begin_Put time string cache_put_request "string option"
  | Begin_Delete time string
  | Finish nat time time "'j http_outcome"

text \<open>A handler that got as far as its call joins the flights; one that was refused is over.\<close>

definition launch ::
  "handler \<Rightarrow> string \<Rightarrow> string option \<Rightarrow> (raised + request) \<times> gateway option \<Rightarrow> world \<Rightarrow> world" where
  "launch h key zone start w =
     (case start of (r, g) \<Rightarrow>
        w\<lparr>wd_gateway := the g,
          wd_flights := wd_flights w @
            (case r of
               Inl e \<Rightarrow> []
             | Inr q \<Rightarrow> [\<lparr>fl_handler = h, fl_key = key, fl_zone = zone, fl_request = q\<rparr>])\<rparr>)"

fun resume :: "flight \<Rightarrow> time \<Rightarrow> time \<Rightarrow> 'j http_outcome \<Rightarrow> gateway \<Rightarrow> (raised + 'j) \<times> gateway" where
  "resume f now pin_time outcome g =
     (case fl_handler f of
        Get_Handler \<Rightarrow> get_key_finish now (fl_request f) outcome g
      | Put_Handler \<Rightarrow> put_key_finish now pin_time (fl_key f) (fl_zone f) (fl_request f) outcome g
      | Delete_Handler \<Rightarrow> delete_key_finish now (fl_request f) outcome g)"

abbreviation cluster_of :: "world \<Rightarrow> cluster_manager" where
  "cluster_of w \<equiv> gw_cluster (wd_gateway w)"

abbreviation breaker_of :: "world \<Rightarrow> circuit_breaker" where
  "breaker_of w \<equiv> gw_breaker (wd_gateway w)"

definition set_cluster :: "cluster_manager option \<Rightarrow> world \<Rightarrow> world" where
  "set_cluster cm w = w\<lparr>wd_gateway := (wd_gateway w)\<lparr>gw_cluster := the cm\<rparr>\<rparr>"

inductive gateway_step :: "world \<Rightarrow> 'j action \<Rightarrow> world \<Rightarrow> bool" where
  heartbeat: "gateway_step w (Post_Heartbeat t1 s1 t2 s2 p)
    (set_cluster (snd (heartbeat t1 s1 t2 s2 p (Some (cluster_of w)))) w)"
| register: "gateway_step w (Post_Register now stamp d)
    (set_cluster (snd (register_endpoint now stamp d (Some (cluster_of w)))) w)"
| failure_loop: "gateway_step w (Failure_Loop now stamps clock)
    (w\<lparr>wd_gateway := failure_detection_iteration now stamps clock (wd_gateway w)\<rparr>)"
| health_check: "gateway_step w (Health_Check now stamps)
    (w\<lparr>wd_gateway := check_timeouts now stamps (wd_gateway w)\<rparr>)"
| begin_get: "gateway_step w (Begin_Get clock key zone)
    (launch Get_Handler key zone (get_key_start clock key zone (Some (wd_gateway w))) w)"
| begin_put: "gateway_step w (Begin_Put now key put zone)
    (launch Put_Handler key zone (put_key_start now key put (Some (wd_gateway w))) w)"
| begin_delete: "gateway_step w (Begin_Delete now key)
    (launch Delete_Handler key None (delete_key_start now key (Some (wd_gateway w))) w)"
| finish: "i < length (wd_flights w) \<Longrightarrow>
    gateway_step w (Finish i now pin_time outcome)
      (w\<lparr>wd_gateway := snd (resume (wd_flights w ! i) now pin_time outcome (wd_gateway w)),
         wd_flights := take i (wd_flights w) @ drop (Suc i) (wd_flights w)\<rparr>)"

inductive gateway_run :: "world \<Rightarrow> 'j action list \<Rightarrow> world \<Rightarrow> bool" where
  stop: "gateway_run w [] w"
| step: "gateway_step w a w' \<Longrightarrow> gateway_run w' as w'' \<Longrightarrow> gateway_run w (a # as) w''"

text \<open>The worlds reached from startup.\<close>

definition reachable :: "settings \<Rightarrow> 'j action list \<Rightarrow> world \<Rightarrow> bool" where
  "reachable s as w \<longleftrightarrow> (\<exists>w0. startup_event s = Inr w0 \<and> gateway_run w0 as w)"

inductive_cases run_emptyE: "gateway_run w [] w'"
inductive_cases run_stepE: "gateway_run w (a # as) w'"

inductive_simps step_simps:
  "gateway_step w (Post_Heartbeat t1 s1 t2 s2 p) w'"
  "gateway_step w (Post_Register now stamp d) w'"
  "gateway_step w (Failure_Loop now stamps clock) w'"
  "gateway_step w (Health_Check now stamps) w'"
  "gateway_step w (Begin_Get clock key zone) w'"
  "gateway_step w (Begin_Put now key put zone) w'"
  "gateway_step w (Begin_Delete now key) w'"
  "gateway_step w (Finish i now pin_time outcome) w'"

section \<open>The gateway simulates the cluster manager\<close>

text \<open>The operations of the cluster manager an action amounts to.\<close>

fun action_ops :: "world \<Rightarrow> 'j action \<Rightarrow> cluster_op list" where
  "action_ops w (Post_Heartbeat t1 s1 t2 s2 p) = heartbeat_ops t1 s1 t2 s2 p (cluster_of w)"
| "action_ops w (Post_Register now stamp d) = register_ops now stamp d"
| "action_ops w (Failure_Loop now stamps clock) = [Scan now stamps]"
| "action_ops w (Health_Check now stamps) = [Scan now stamps]"
| "action_ops w a = []"

lemma failure_iteration_cluster:
  "gw_cluster (failure_detection_iteration now stamps clock g) = fst (check_heartbeat_timeouts now stamps (gw_cluster g))"
  by (simp add: failure_detection_iteration_def split_beta)

lemma get_key_start_cluster: "gw_cluster (the (snd (get_key_start clock key zone (Some g)))) = gw_cluster g"
  by (auto simp: get_key_start_def Let_def split_beta split: sum.split option.split)

lemma primary_start_cluster: "gw_cluster (the (snd (primary_start now key method body (Some g)))) = gw_cluster g"
  by (auto simp: primary_start_def Let_def split_beta split: sum.split)

lemma resume_cluster: "gw_cluster (snd (resume f now pin_time outcome g)) = gw_cluster g"
  by (auto simp: get_key_finish_def put_key_finish_def delete_key_finish_def Let_def split_beta
      split: handler.split sum.split option.split)

lemma step_cluster:
  "gateway_step w a w' \<Longrightarrow> cluster_of w' = foldl cluster_step (cluster_of w) (action_ops w a)"
  by (induction rule: gateway_step.induct)
    (simp_all add: set_cluster_def heartbeat_run register_run failure_iteration_cluster check_timeouts_def
      launch_def split_beta get_key_start_cluster primary_start_cluster put_key_start_def delete_key_start_def
      resume_cluster del: resume.simps)

text \<open>The actions that contact the table entry of a node, and the times of the scans.\<close>

fun touches :: "string \<Rightarrow> 'j action \<Rightarrow> bool" where
  "touches n (Post_Heartbeat t1 s1 t2 s2 p) = (hb_node_id p = n)"
| "touches n (Post_Register now stamp d) = (reg_node_id d = Some n)"
| "touches n a = False"

fun registers :: "string \<Rightarrow> 'j action \<Rightarrow> bool" where
  "registers n (Post_Register now stamp d) = (reg_node_id d = Some n)"
| "registers n a = False"

fun scan_times :: "'j action list \<Rightarrow> time list" where
  "scan_times [] = []"
| "scan_times (Failure_Loop now stamps clock # as) = now # scan_times as"
| "scan_times (Health_Check now stamps # as) = now # scan_times as"
| "scan_times (a # as) = scan_times as"

fun op_times :: "cluster_op list \<Rightarrow> time list" where
  "op_times [] = []"
| "op_times (Scan now stamps # es) = now # op_times es"
| "op_times (e # es) = op_times es"

lemma op_times_append: "op_times (es @ es') = op_times es @ op_times es'"
  by (induction es rule: op_times.induct) simp_all

lemma filter_op_times:
  "length (filter (late_scan timeout heard) es) = length (filter (\<lambda>t. of_int timeout < fl (t - heard)) (op_times es))"
  by (induction es rule: op_times.induct) simp_all

lemma register_node_id: "missing_fields d = [] \<Longrightarrow> \<exists>n. reg_node_id d = Some n"
  by (auto simp: missing_fields_def split: if_splits)

lemma action_ops_contact:
  "\<not> touches n a \<Longrightarrow> e \<in> set (action_ops w a) \<Longrightarrow> \<not> contact n e"
  by (cases a) (auto simp: heartbeat_ops_def register_ops_def dest: register_node_id split: option.splits if_splits)

lemma action_ops_readmits:
  "\<not> registers n a \<Longrightarrow> node_of (cluster_of w) n \<noteq> None \<Longrightarrow> e \<in> set (action_ops w a) \<Longrightarrow> \<not> readmits n e"
  by (cases a) (auto simp: heartbeat_ops_def register_ops_def dest: register_node_id split: option.splits if_splits)

lemma op_times_action: "op_times (action_ops w a) = scan_times [a]"
  by (cases a) (auto simp: heartbeat_ops_def register_ops_def split: option.splits)

lemma scan_times_Cons: "scan_times (a # as) = scan_times [a] @ scan_times as"
  by (cases a) simp_all

lemma run_cluster:
  "gateway_run w as w' \<Longrightarrow> \<exists>ops. cluster_of w' = foldl cluster_step (cluster_of w) ops
     \<and> op_times ops = scan_times as \<and> ((\<forall>a\<in>set as. \<not> touches n a) \<longrightarrow> (\<forall>e\<in>set ops. \<not> contact n e))"
proof (induction rule: gateway_run.induct)
  case (stop w)
  show ?case by (rule exI [of _ "[]"]) simp
next
  case (step w a w' as w'')
  then obtain ops where ops: "cluster_of w'' = foldl cluster_step (cluster_of w') ops" "op_times ops = scan_times as"
    "(\<forall>a\<in>set as. \<not> touches n a) \<longrightarrow> (\<forall>e\<in>set ops. \<not> contact n e)" by blast
  have "\<forall>e\<in>set (action_ops w a). \<not> contact n e" if "\<not> touches n a"
    using action_ops_contact [OF that] by blast
  with ops step_cluster [OF step.hyps(1)] show ?case
    by (intro exI [of _ "action_ops w a @ ops"])
      (auto simp: op_times_append op_times_action scan_times_Cons [of a as])
qed

lemma startup_gateway:
  assumes "startup_event s = Inr w"
  shows "wd_gateway w = \<lparr>gw_cluster = ClusterManager (set_heartbeat_timeout_s s) (set_replication_factor s),
      gw_breaker = CircuitBreaker (set_circuit_breaker_failure_threshold s) (set_circuit_breaker_timeout_s s),
      gw_zone = ZoneRouter\<rparr>
    \<and> wd_flights w = []"
  using assms by (auto simp: startup_event_def initialize_def Let_def bind_py_Inr_iff)

lemma reachable_cluster:
  assumes "reachable s as w"
  obtains ops where "cluster_of w = cluster_run (set_heartbeat_timeout_s s) (set_replication_factor s) ops"
proof -
  from assms obtain w0 where w0: "startup_event s = Inr w0" "gateway_run w0 as w" by (auto simp: reachable_def)
  from run_cluster [OF w0(2)] obtain ops where "cluster_of w = foldl cluster_step (cluster_of w0) ops" by blast
  then show thesis using startup_gateway [OF w0(1)] by (intro that [of ops]) simp
qed

lemma run_append: "gateway_run w as w' \<Longrightarrow> gateway_run w' bs w'' \<Longrightarrow> gateway_run w (as @ bs) w''"
  by (induction rule: gateway_run.induct) (auto intro: gateway_run.intros)

lemma reachable_run: "reachable s as w \<Longrightarrow> gateway_run w bs w' \<Longrightarrow> reachable s (as @ bs) w'"
  by (auto simp: reachable_def intro: run_append)

lemma reachable_ok: "reachable s as w \<Longrightarrow> cluster_ok (cluster_of w)"
  by (erule reachable_cluster) (simp add: cluster_run_ok)

lemma run_ok: "gateway_run w as w' \<Longrightarrow> cluster_ok (cluster_of w) \<Longrightarrow> cluster_ok (cluster_of w')"
  using run_cluster cluster.inv_run by metis

lemma down_step:
  assumes "gateway_step w a w'" and ok: "cluster_ok (cluster_of w)"
    and down: "status_of (cluster_of w) n \<in> {Some RECOVERED, Some DEAD}" and "\<not> registers n a"
  shows "status_of (cluster_of w') n \<in> {Some RECOVERED, Some DEAD}"
proof -
  have "node_of (cluster_of w) n \<noteq> None" using down by (auto simp: status_of_def)
  with assms(4) have "\<forall>e\<in>set (action_ops w a). \<not> readmits n e" using action_ops_readmits by blast
  from recovered_run [OF ok down this] show ?thesis by (simp add: step_cluster [OF assms(1)])
qed

lemma down_run:
  assumes "gateway_run w as w'" and "cluster_ok (cluster_of w)"
    and "status_of (cluster_of w) n \<in> {Some RECOVERED, Some DEAD}" and "\<forall>a\<in>set as. \<not> registers n a"
  shows "status_of (cluster_of w') n \<in> {Some RECOVERED, Some DEAD}"
  using assms
proof (induction rule: gateway_run.induct)
  case (step w a w' as w'')
  have "\<not> registers n a" using step.prems(3) by simp
  then have "status_of (cluster_of w') n \<in> {Some RECOVERED, Some DEAD}"
    by (rule down_step [OF step.hyps(1) step.prems(1,2)])
  moreover have "cluster_ok (cluster_of w')"
    using cluster.inv_run [OF step.prems(1)] by (simp add: step_cluster [OF step.hyps(1)])
  ultimately show ?case using step.IH step.prems(3) by simp
qed

section \<open>Requests\<close>

lemma get_key_start_state: "\<exists>g'. snd (get_key_start clock key zone (Some g)) = Some g'"
  by (auto simp: get_key_start_def Let_def split_beta split: sum.split option.split)

lemma primary_start_state: "\<exists>g'. snd (primary_start now key method body (Some g)) = Some g'"
  by (auto simp: primary_start_def Let_def split_beta split: sum.split)

text \<open>What a launched flight tells about the call it was launched with.\<close>

lemma launch_flight:
  assumes "wd_flights (launch h key zone start w) = wd_flights w @ [f]" and "snd start = Some g"
  shows "start = (Inr (fl_request f), Some g) \<and> fl_handler f = h \<and> fl_key f = key
    \<and> wd_gateway (launch h key zone start w) = g"
  using assms by (cases start) (auto simp: launch_def split: sum.splits)

definition well_sent :: "world \<Rightarrow> world \<Rightarrow> flight \<Rightarrow> bool" where
  "well_sent w w' f \<longleftrightarrow> (let n = req_node (fl_request f) in
     routable (cluster_of w) n \<and> addressed (cluster_of w) (fl_request f)
     \<and> breaker_state_of (breaker_of w') n \<noteq> OPEN
     \<and> (if fl_handler f = Get_Handler
        then \<exists>rs. get_replicas_for_key (cluster_of w) (fl_key f) = Inr rs \<and> n \<in> set rs
        else get_node_for_key (cluster_of w) (fl_key f) = Inr (Some n)))"

lemma get_flight_well_sent:
  assumes ok: "ring_ok (cluster_of w)"
    and f: "wd_flights (launch Get_Handler key zone (get_key_start clock key zone (Some (wd_gateway w))) w) = wd_flights w @ [f]"
  shows "well_sent w (launch Get_Handler key zone (get_key_start clock key zone (Some (wd_gateway w))) w) f"
proof -
  obtain g' where g': "snd (get_key_start clock key zone (Some (wd_gateway w))) = Some g'"
    using get_key_start_state by blast
  note l = launch_flight [OF f g']
  from get_key_start_request [OF ok, of clock key zone "fl_request f" g'] l show ?thesis
    by (auto simp: well_sent_def Let_def)
qed

lemma primary_flight_well_sent:
  assumes ok: "ring_ok (cluster_of w)" and h: "h \<noteq> Get_Handler"
    and f: "wd_flights (launch h key zone (primary_start now key method body (Some (wd_gateway w))) w) = wd_flights w @ [f]"
  shows "well_sent w (launch h key zone (primary_start now key method body (Some (wd_gateway w))) w) f"
proof -
  obtain g' where g': "snd (primary_start now key method body (Some (wd_gateway w))) = Some g'"
    using primary_start_state by blast
  note l = launch_flight [OF f g']
  have start: "primary_start now key method body (Some (wd_gateway w)) = (Inr (fl_request f), Some g')" using l by simp
  have "get_node_for_key (cluster_of w) key = Inr (Some (req_node (fl_request f)))
      \<and> addressed (cluster_of w) (fl_request f) \<and> breaker_state_of (gw_breaker g') (req_node (fl_request f)) \<noteq> OPEN"
    using primary_start_request [OF start] by blast
  moreover from this route_owner [OF ok, of key] have "routable (cluster_of w) (req_node (fl_request f))" by auto
  moreover have "wd_gateway (launch h key zone (primary_start now key method body (Some (wd_gateway w))) w) = g'"
    using l by blast
  ultimately show ?thesis using l h unfolding well_sent_def Let_def by metis
qed

lemma append_self: "\<not> (xs = xs @ [x])" "take i xs @ drop (Suc i) xs \<noteq> xs @ [x]"
proof -
  have "length (take i xs @ drop (Suc i) xs) \<le> length xs" by simp
  then show "take i xs @ drop (Suc i) xs \<noteq> xs @ [x]" by (metis length_append_singleton not_less_eq_eq order_refl)
qed simp

lemma step_well_sent:
  assumes st: "gateway_step w a w'" and f: "wd_flights w' = wd_flights w @ [f]" and ok: "ring_ok (cluster_of w)"
  shows "well_sent w w' f"
  using st
proof cases
  case (begin_get clock key zone)
  with get_flight_well_sent [OF ok] f show ?thesis by simp
next
  case (begin_put now key put zone)
  with primary_flight_well_sent [OF ok] f show ?thesis by (simp add: put_key_start_def)
next
  case (begin_delete now key)
  with primary_flight_well_sent [OF ok] f show ?thesis by (simp add: delete_key_start_def)
next
  case (finish i now pin_time outcome)
  with f have "take i (wd_flights w) @ drop (Suc i) (wd_flights w) = wd_flights w @ [f]" by simp
  then show ?thesis using append_self(2) [of i "wd_flights w" f] by contradiction
qed (use f append_self(1) in \<open>simp_all add: set_cluster_def\<close>)

section \<open>The breaker\<close>

lemma open_breaker_fold: "open_breaker clock n cb = fold (\<lambda>t. record_failure t n) (map (clock n) [0..<nat (failure_threshold cb)]) cb"
  by (simp add: open_breaker_def fold_map comp_def)

lemma failures_frame:
  "m \<noteq> n \<Longrightarrow> circuit_of (fold (\<lambda>t. record_failure t n) ts cb) m = circuit_of cb m"
  "failure_threshold (fold (\<lambda>t. record_failure t n) ts cb) = failure_threshold cb"
  "timeout_s (fold (\<lambda>t. record_failure t n) ts cb) = timeout_s cb"
  using breaker_step_frame [of m "Failure _ n"] by (induction ts arbitrary: cb) simp_all

lemma failures_ok: "breaker_ok cb \<Longrightarrow> breaker_ok (fold (\<lambda>t. record_failure t n) ts cb)"
  by (induction ts arbitrary: cb) (simp_all add: breaker_ok_failure)

lemma open_breaker_frame:
  "m \<noteq> n \<Longrightarrow> circuit_of (open_breaker clock n cb) m = circuit_of cb m"
  "failure_threshold (open_breaker clock n cb) = failure_threshold cb"
  "timeout_s (open_breaker clock n cb) = timeout_s cb"
  "breaker_ok cb \<Longrightarrow> breaker_ok (open_breaker clock n cb)"
  by (simp_all add: open_breaker_fold failures_frame failures_ok)

lemma open_breaker_opens: "breaker_ok cb \<Longrightarrow> breaker_state_of (open_breaker clock n cb) n = OPEN"
  unfolding open_breaker_fold by (rule failures_open) simp_all

lemma open_breakers:
  "breaker_ok cb \<Longrightarrow> breaker_ok (fold (open_breaker clock) ns cb)
     \<and> failure_threshold (fold (open_breaker clock) ns cb) = failure_threshold cb
     \<and> timeout_s (fold (open_breaker clock) ns cb) = timeout_s cb
     \<and> (n \<in> set ns \<longrightarrow> breaker_state_of (fold (open_breaker clock) ns cb) n = OPEN)
     \<and> (n \<notin> set ns \<longrightarrow> circuit_of (fold (open_breaker clock) ns cb) n = circuit_of cb n)"
proof (induction ns rule: rev_induct)
  case (snoc m ns)
  let ?cb = "fold (open_breaker clock) ns cb"
  from snoc have ok: "breaker_ok ?cb" by blast
  have "breaker_state_of (open_breaker clock m ?cb) n = breaker_state_of ?cb n" if "n \<noteq> m"
    using open_breaker_frame(1) [OF that] by (simp add: breaker_state_of_def)
  then show ?case
    using snoc open_breaker_opens [OF ok, of clock m] by (cases "n = m") (auto simp: open_breaker_frame)
qed simp

lemma call_finish_breaker:
  "breaker_ok cb \<Longrightarrow> breaker_ok (snd (call_finish now n outcome cb))"
  "failure_threshold (snd (call_finish now n outcome cb)) = failure_threshold cb"
  "timeout_s (snd (call_finish now n outcome cb)) = timeout_s cb"
  using breaker_step_config [of cb "Success now n"]
  by (auto simp: call_finish_def breaker_ok_success breaker_ok_failure split: http_outcome.split)

lemma resume_breaker:
  "gw_breaker (snd (resume f now pin_time outcome g)) = snd (call_finish now (req_node (fl_request f)) outcome (gw_breaker g))"
  by (auto simp: get_key_finish_def put_key_finish_def delete_key_finish_def Let_def split_beta
      split: handler.split sum.split option.split)

definition same_config :: "circuit_breaker \<Rightarrow> circuit_breaker \<Rightarrow> bool" where
  "same_config cb cb' \<longleftrightarrow> failure_threshold cb' = failure_threshold cb \<and> timeout_s cb' = timeout_s cb"

lemma get_key_start_breaker:
  "breaker_ok (gw_breaker g) \<Longrightarrow> breaker_ok (gw_breaker (the (snd (get_key_start clock key zone (Some g)))))
     \<and> same_config (gw_breaker g) (gw_breaker (the (snd (get_key_start clock key zone (Some g)))))"
  by (auto simp: get_key_start_def Let_def split_beta same_config_def available_ok available_config
      split: sum.split option.split)

lemma primary_start_breaker:
  "breaker_ok (gw_breaker g) \<Longrightarrow> breaker_ok (gw_breaker (the (snd (primary_start now key method body (Some g)))))
     \<and> same_config (gw_breaker g) (gw_breaker (the (snd (primary_start now key method body (Some g)))))"
  by (auto simp: primary_start_def Let_def split_beta same_config_def breaker_ok_probe is_available_frame
      split: sum.split)

lemma failure_iteration_breaker:
  "breaker_ok (gw_breaker g) \<Longrightarrow> breaker_ok (gw_breaker (failure_detection_iteration now stamps clock g))
     \<and> same_config (gw_breaker g) (gw_breaker (failure_detection_iteration now stamps clock g))"
  using open_breakers [of "gw_breaker g" clock]
  by (simp add: failure_detection_iteration_def split_beta same_config_def)

lemma step_breaker:
  "gateway_step w a w' \<Longrightarrow> breaker_ok (breaker_of w) \<Longrightarrow>
     breaker_ok (breaker_of w') \<and> same_config (breaker_of w) (breaker_of w')"
  by (induction rule: gateway_step.induct)
    (simp_all add: set_cluster_def check_timeouts_def launch_def split_beta get_key_start_breaker
      primary_start_breaker put_key_start_def delete_key_start_def failure_iteration_breaker
      resume_breaker call_finish_breaker same_config_def [of x x for x] del: resume.simps,
     simp_all add: same_config_def call_finish_breaker)

lemma run_breaker:
  "gateway_run w as w' \<Longrightarrow> breaker_ok (breaker_of w) \<Longrightarrow>
     breaker_ok (breaker_of w') \<and> same_config (breaker_of w) (breaker_of w')"
  by (induction rule: gateway_run.induct) (auto simp: same_config_def dest: step_breaker)

lemma reachable_breaker:
  assumes "reachable s as w" and "1 \<le> set_circuit_breaker_failure_threshold s"
  shows "breaker_ok (breaker_of w) \<and> failure_threshold (breaker_of w) = set_circuit_breaker_failure_threshold s
    \<and> timeout_s (breaker_of w) = set_circuit_breaker_timeout_s s"
proof -
  from assms(1) obtain w0 where w0: "startup_event s = Inr w0" "gateway_run w0 as w" by (auto simp: reachable_def)
  have "breaker_of w0 = CircuitBreaker (set_circuit_breaker_failure_threshold s) (set_circuit_breaker_timeout_s s)"
    using startup_gateway [OF w0(1)] by simp
  with run_breaker [OF w0(2)] assms(2) breaker_ok_init show ?thesis
    by (auto simp: same_config_def CircuitBreaker_def)
qed

section \<open>Properties\<close>


text \<open>
  C10 Requests go to live nodes only: in every reachable state, a client request that gets as far as a
  call is addressed, under the address in the table, to a registered node that is ALIVE or
  SUSPECT and whose circuit is not OPEN; a read goes to a replica of its key and a write or a
  deletion to the owner of its key.
\<close>

theorem requests_go_to_live_nodes:
  assumes "reachable s as w" and "gateway_step w a w'" and "wd_flights w' = wd_flights w @ [f]"
    and "n = req_node (fl_request f)"
  shows "status_of (cluster_of w) n \<in> {Some ALIVE, Some SUSPECT}
    \<and> (\<exists>x. node_of (cluster_of w) n = Some x \<and> req_host (fl_request f) = nm_host x \<and> req_port (fl_request f) = nm_port x)
    \<and> breaker_state_of (breaker_of w') n \<noteq> OPEN
    \<and> (case fl_handler f of
         Get_Handler \<Rightarrow> \<exists>rs. get_replicas_for_key (cluster_of w) (fl_key f) = Inr rs \<and> n \<in> set rs
       | _ \<Rightarrow> get_node_for_key (cluster_of w) (fl_key f) = Inr (Some n))"
proof -
  have "ring_ok (cluster_of w)" using reachable_ok [OF assms(1)] by (simp add: cluster_ok_def)
  from step_well_sent [OF assms(2,3) this] show ?thesis
    unfolding well_sent_def assms(4) [symmetric] Let_def addressed_def routable_def
    by (cases "fl_handler f") auto
qed

text \<open>
  C13 A dead node is cut off at once: when an iteration of the failure detection loop turns a node
  DEAD, it leaves the circuit of the node OPEN, no key is routed to it any more, and the circuits
  of the nodes that did not just die are as they were.
\<close>

theorem failure_loop_cuts_off:
  assumes "reachable s as w" and "1 \<le> set_circuit_breaker_failure_threshold s"
    and "gateway_step w (Failure_Loop now stamps clock) w'"
    and "status_of (cluster_of w) n = Some old" and "old \<noteq> DEAD" and "status_of (cluster_of w') n = Some DEAD"
  shows "breaker_state_of (breaker_of w') n = OPEN
    \<and> get_node_for_key (cluster_of w') key \<noteq> Inr (Some n)
    \<and> (\<forall>m. status_of (cluster_of w) m = status_of (cluster_of w') m
          \<longrightarrow> breaker_state_of (breaker_of w') m = breaker_state_of (breaker_of w) m)"
proof -
  have ok: "cluster_ok (cluster_of w)" by (rule reachable_ok [OF assms(1)])
  obtain cm dead where scan: "check_heartbeat_timeouts now stamps (cluster_of w) = (cm, dead)" by fastforce
  have w': "cluster_of w' = cm" "breaker_of w' = fold (open_breaker clock) dead (breaker_of w)"
    using assms(3) scan by (simp_all add: step_simps failure_detection_iteration_def)
  note facts = scan_facts [OF cluster_ok_keys [OF ok] scan]
  have dead: "m \<in> set dead \<longleftrightarrow> (\<exists>x. node_of (cluster_of w) m = Some x
      \<and> nm_status x \<noteq> DEAD \<and> status_of cm m = Some DEAD)" for m
    unfolding facts(5) status_of_def facts(1)
    using map_of_eq_None [of "cm_nodes (cluster_of w)" m]
    by (cases "node_of (cluster_of w) m") (auto simp: newly_dead_by_def)
  note cb = open_breakers [of "breaker_of w" clock dead]
  have bok: "breaker_ok (breaker_of w)" using reachable_breaker [OF assms(1,2)] by blast
  have "n \<in> set dead" unfolding dead using assms(4,5,6) w'(1) by (auto simp: status_of_def)
  then have "breaker_state_of (breaker_of w') n = OPEN" using cb [OF bok, of n] by (simp add: w')
  moreover have "get_node_for_key (cluster_of w') key \<noteq> Inr (Some n)"
    using cluster_ok_scan [OF ok, of now stamps] scan w'(1) assms(6) route_dead(1) [of cm n]
    by (simp add: cluster_ok_def routable_def)
  moreover have "breaker_state_of (breaker_of w') m = breaker_state_of (breaker_of w) m"
    if "status_of (cluster_of w) m = status_of (cluster_of w') m" for m
  proof -
    from that have "m \<notin> set dead" unfolding dead by (auto simp: w' status_of_def)
    with cb [OF bok, of m] show ?thesis by (simp add: w' breaker_state_of_def)
  qed
  ultimately show ?thesis by blast
qed

text \<open>
  C9 Self-healing, end to end: once a node falls silent, three scans (by the loop or by hand) made at
  least a second past the timeout after its last heartbeat declare it DEAD, whatever else goes on,
  and from then on no client request is sent to it until it is registered anew: not even if it
  sends heartbeats again.
\<close>

theorem silent_node_gets_no_requests:
  assumes "reachable s as w" and "\<bar>set_heartbeat_timeout_s s\<bar> < 2 ^ 53"
    and "node_of (cluster_of w) n = Some x" and "nm_status x \<noteq> DEAD"
    and "gateway_run w bs w1" and "\<forall>b\<in>set bs. \<not> touches n b"
    and "3 \<le> length (filter (\<lambda>t. of_int (set_heartbeat_timeout_s s) + 1 \<le> t - nm_last_heartbeat x) (scan_times bs))"
    and "gateway_run w1 cs w2" and "\<forall>c\<in>set cs. \<not> registers n c"
  shows "status_of (cluster_of w1) n = Some DEAD
    \<and> (\<forall>c w3 f. gateway_step w2 c w3 \<longrightarrow> wd_flights w3 = wd_flights w2 @ [f] \<longrightarrow> req_node (fl_request f) \<noteq> n)"
proof -
  let ?T = "set_heartbeat_timeout_s s" and ?heard = "nm_last_heartbeat x"
  obtain ops where cm: "cluster_of w = cluster_run ?T (set_replication_factor s) ops"
    by (rule reachable_cluster [OF assms(1)])
  have ok: "cluster_ok (cluster_of w)" by (rule reachable_ok [OF assms(1)])
  from run_cluster [OF assms(5), of n] assms(6) obtain es where es:
    "cluster_of w1 = foldl cluster_step (cluster_of w) es" "op_times es = scan_times bs" "\<forall>e\<in>set es. \<not> contact n e"
    by blast
  have "length (filter (\<lambda>t. of_int ?T + 1 \<le> t - ?heard) ts) \<le> length (filter (\<lambda>t. of_int ?T < fl (t - ?heard)) ts)" for ts
    using double.rnd_gt_int [OF _ assms(2)] by (induction ts) auto
  from order_trans [OF assms(7) this] have late: "3 \<le> length (filter (late_scan ?T ?heard) es)"
    by (simp add: filter_op_times es(2))
  have "0 \<le> nm_failed_attempts x"
    using cluster_ok_node [OF ok assms(3)] by (cases "nm_status x") (auto simp: node_ok_def)
  with late failure_detector [OF cm assms(3,4) es(3)] have dead: "status_of (cluster_of w1) n = Some DEAD"
    by (auto simp: status_of_def es(1))
  have ok1: "cluster_ok (cluster_of w1)" by (rule run_ok [OF assms(5) ok])
  have "status_of (cluster_of w2) n \<in> {Some RECOVERED, Some DEAD}"
    using dead by (intro down_run [OF assms(8) ok1 _ assms(9)]) simp
  then have down: "\<not> routable (cluster_of w2) n" by (auto simp: routable_def)
  have ring: "ring_ok (cluster_of w2)" using run_ok [OF assms(8) ok1] by (simp add: cluster_ok_def)
  show ?thesis
  proof (intro conjI allI impI dead)
    fix c w3 f assume "gateway_step w2 c w3" and "wd_flights w3 = wd_flights w2 @ [f]"
    from step_well_sent [OF this ring] down show "req_node (fl_request f) \<noteq> n"
      by (auto simp: well_sent_def Let_def)
  qed
qed

section \<open>Witnesses\<close>

abbreviation demo_settings :: settings where
  "demo_settings \<equiv> default_settings\<lparr>set_heartbeat_timeout_s := 15\<rparr>"

abbreviation demo_register :: "unit action" where
  "demo_register \<equiv> Post_Register 0 ''t'' \<lparr>reg_node_id = Some ''a'', reg_host = Some ''host'', reg_port = Some 8001,
     reg_zone = Some ''zone'', reg_cache_capacity = Some 100\<rparr>"

abbreviation demo_loop :: "time \<Rightarrow> unit action" where
  "demo_loop t \<equiv> Failure_Loop t (\<lambda>n. ''t'') (\<lambda>n i. t)"

lemma demo_registered: "\<exists>w. reachable demo_settings [demo_register] w \<and> wd_gateway w = demo_gateway \<and> wd_flights w = []"
proof -
  obtain w0 where w0: "startup_event demo_settings = Inr w0"
    by (simp add: startup_event_def BloomFilter_def default_settings_def Let_def)
  let ?w = "set_cluster (snd (register_endpoint 0 ''t'' \<lparr>reg_node_id = Some ''a'', reg_host = Some ''host'',
      reg_port = Some 8001, reg_zone = Some ''zone'', reg_cache_capacity = Some 100\<rparr> (Some (cluster_of w0)))) w0"
  have "gateway_run w0 [demo_register] ?w" by (rule gateway_run.step [OF gateway_step.register gateway_run.stop])
  moreover have "wd_gateway ?w = demo_gateway" and "wd_flights ?w = []"
    using startup_gateway [OF w0]
    by (simp_all add: set_cluster_def register_endpoint_def missing_fields_def default_settings_def Let_def)
  ultimately show ?thesis using w0 by (auto simp: reachable_def)
qed

lemma demo_loop_step:
  "\<exists>w'. gateway_step w (demo_loop t) w' \<and> cluster_of w' = cluster_step (cluster_of w) (demo_scan t)"
  by (simp add: step_simps failure_iteration_cluster)

lemma demo_dying:
  "\<exists>w as. reachable demo_settings (as :: unit action list) w
     \<and> cluster_of w = cluster_run 15 3 [demo_join ''a'', demo_scan 16, demo_scan 19]"
proof -
  obtain w0 where w0: "reachable demo_settings [demo_register] w0" "wd_gateway w0 = demo_gateway"
    using demo_registered by blast
  obtain w1 where w1: "gateway_step w0 (demo_loop 16) w1" "cluster_of w1 = cluster_step (cluster_of w0) (demo_scan 16)"
    using demo_loop_step by blast
  obtain w2 where w2: "gateway_step w1 (demo_loop 19) w2" "cluster_of w2 = cluster_step (cluster_of w1) (demo_scan 19)"
    using demo_loop_step by blast
  have "gateway_run w0 [demo_loop 16, demo_loop 19] w2" by (rule gateway_run.step [OF w1(1) gateway_run.step [OF w2(1) gateway_run.stop]])
  from reachable_run [OF w0(1) this] w0(2) w1(2) w2(2) show ?thesis by (intro exI conjI) (assumption, simp)
qed


lemma demo_get: "\<exists>q g'. get_key_start (\<lambda>n. 1) ''k'' None (Some demo_gateway) = (Inr q, Some g')"
proof -
  have rs: "get_replicas_for_key (gw_cluster demo_gateway) ''k'' = Inr [''a'']" by (simp only: demo_replicas gateway.simps)
  have ok: "ring_ok (gw_cluster demo_gateway)" using cluster_run_ring [of 15 3 "[demo_join ''a'']"] by (simp only: gateway.simps)
  have "node_of (gw_cluster demo_gateway) ''a'' \<noteq> None" by (simp add: cluster_eval)
  from call_start_known [OF this, of "''GET''" "cache_path ''k''" None] obtain q where
    "guard_call (call_start (gw_cluster demo_gateway) ''a'' ''GET'' (cache_path ''k'') None) = Inr q" by auto
  moreover have "filter (\<lambda>n. fst (is_available 1 n (gw_breaker demo_gateway))) [''a''] = [''a'']"
    by (simp add: CircuitBreaker_def is_available_def get_circuit_def NodeCircuit_def Let_def)
  ultimately show ?thesis
    unfolding get_key_start_replicas [OF ok rs] Let_def by (simp add: pick_by_latency_def)
qed

theorem requests_go_to_live_nodes_witness:
  "\<exists>w w' f. reachable demo_settings [demo_register] w
     \<and> gateway_step w (Begin_Get (\<lambda>n. 1) ''k'' None :: unit action) w' \<and> wd_flights w' = [f]
     \<and> status_of (cluster_of w) (req_node (fl_request f)) \<in> {Some ALIVE, Some SUSPECT}"
proof -
  obtain w where w: "reachable demo_settings [demo_register] w" "wd_gateway w = demo_gateway" "wd_flights w = []"
    using demo_registered by blast
  obtain q g' where q: "get_key_start (\<lambda>n. 1) ''k'' None (Some (wd_gateway w)) = (Inr q, Some g')"
    using demo_get unfolding w(2) by blast
  let ?w' = "launch Get_Handler ''k'' None (get_key_start (\<lambda>n. 1) ''k'' None (Some (wd_gateway w))) w"
  let ?f = "\<lparr>fl_handler = Get_Handler, fl_key = ''k'', fl_zone = None, fl_request = q\<rparr>"
  have st: "gateway_step w (Begin_Get (\<lambda>n. 1) ''k'' None :: unit action) ?w'" by (rule gateway_step.begin_get)
  have f: "wd_flights ?w' = wd_flights w @ [?f]" by (simp add: launch_def q)
  have "status_of (cluster_of w) (req_node (fl_request ?f)) \<in> {Some ALIVE, Some SUSPECT}"
    by (rule requests_go_to_live_nodes [OF w(1) st f refl, THEN conjunct1])
  with w(1,3) st f show ?thesis by (intro exI [of _ w] exI [of _ ?w'] exI [of _ ?f] conjI) simp_all
qed

theorem failure_loop_cuts_off_witness:
  "\<exists>w w'. gateway_step w (demo_loop 22) w' \<and> status_of (cluster_of w) ''a'' = Some SUSPECT
     \<and> breaker_state_of (breaker_of w') ''a'' = OPEN"
proof -
  obtain w as where w: "reachable demo_settings (as :: unit action list) w"
    "cluster_of w = cluster_run 15 3 [demo_join ''a'', demo_scan 16, demo_scan 19]" using demo_dying by blast
  obtain w' where w': "gateway_step w (demo_loop 22) w'" "cluster_of w' = cluster_step (cluster_of w) (demo_scan 22)"
    using demo_loop_step by blast
  have "status_of (cluster_of w) ''a'' = Some SUSPECT" "status_of (cluster_of w') ''a'' = Some DEAD"
    unfolding w'(2) w(2) by (simp_all add: cluster_eval)
  moreover have "1 \<le> set_circuit_breaker_failure_threshold demo_settings" by (simp add: default_settings_def)
  ultimately show ?thesis using failure_loop_cuts_off [OF w(1) _ w'(1), of "''a''" SUSPECT] w'(1) by blast
qed

theorem silent_node_gets_no_requests_witness:
  "\<exists>w w1. reachable demo_settings [demo_register] w
     \<and> gateway_run w [demo_loop 16, demo_loop 19, demo_loop 22] w1 \<and> status_of (cluster_of w1) ''a'' = Some DEAD"
proof -
  obtain w where w: "reachable demo_settings [demo_register] w" "wd_gateway w = demo_gateway"
    using demo_registered by blast
  obtain w1 w2 w3 where run: "gateway_step w (demo_loop 16) w1" "gateway_step w1 (demo_loop 19) w2"
    "gateway_step w2 (demo_loop 22) w3" using demo_loop_step by blast
  have r: "gateway_run w [demo_loop 16, demo_loop 19, demo_loop 22] w3"
    by (rule gateway_run.step [OF run(1) gateway_run.step [OF run(2) gateway_run.step [OF run(3) gateway_run.stop]]])
  have x: "node_of (cluster_of w) ''a'' = Some demo_a" unfolding w(2) using demo_alive by (simp only: gateway.simps)
  have stop: "gateway_run w3 ([] :: unit action list) w3" by (rule gateway_run.stop)
  from silent_node_gets_no_requests [OF w(1) _ x _ r _ _ stop] w(1) r show ?thesis
    by (auto simp: default_settings_def demo_a_fields)
qed

end
