(* ===== verification/Gateway_Serve.thy ===== *)
theory Gateway_Serve
  imports Gateway
begin

text \<open>
  The gateway as its clients see it: the routes, as the decorators of \<open>main.py\<close> and of the routers in
  \<open>api/\<close> declare them with their prefixes, and one request from its route to its answer. A path
  parameter is one segment. What FastAPI and Pydantic make of a request before the handler runs, the
  parameters and the body, is an argument, \<open>None\<close> where they refuse it.
\<close>

section \<open>Routes\<close>

datatype gateway_handler =
    Root_Handler | Status_Handler | Health_Check_Handler
  | Heartbeat_Handler | Register_Handler
  | Key_Get string | Key_Put string | Key_Delete string
  | Nodes_Handler | Node_Handler string | Stats_Handler | Health_Handler | Events_Handler
  | Rebalance_Handler | Failover_Handler string

definition path_param :: "string \<Rightarrow> string \<Rightarrow> string option" where
  "path_param prefix path =
     (if take (length prefix) path = prefix \<and> drop (length prefix) path \<noteq> '''' \<and> CHR ''/'' \<notin> set (drop (length prefix) path)
      then Some (drop (length prefix) path) else None)"

definition main_route :: "string \<Rightarrow> string \<Rightarrow> gateway_handler option" where
  "main_route method path =
     (if method = ''GET'' \<and> path = ''/'' then Some Root_Handler
      else if method = ''GET'' \<and> path = ''/status'' then Some Status_Handler
      else if method = ''POST'' \<and> path = ''/api/health-check'' then Some Health_Check_Handler
      else None)"

definition heartbeat_route :: "string \<Rightarrow> string \<Rightarrow> gateway_handler option" where
  "heartbeat_route method path =
     (if method = ''POST'' \<and> path = ''/heartbeat'' then Some Heartbeat_Handler
      else if method = ''POST'' \<and> path = ''/register'' then Some Register_Handler
      else None)"

definition cache_route :: "string \<Rightarrow> string \<Rightarrow> gateway_handler option" where
  "cache_route method path =
     (case path_param ''/api/cache/'' path of
        None \<Rightarrow> None
      | Some key \<Rightarrow>
          if method = ''GET'' then Some (Key_Get key)
          else if method = ''PUT'' then Some (Key_Put key)
          else if method = ''DELETE'' then Some (Key_Delete key)
          else None)"

definition cluster_route :: "string \<Rightarrow> string \<Rightarrow> gateway_handler option" where
  "cluster_route method path =
     (if method = ''GET'' then
        (if path = ''/api/cluster/nodes'' then Some Nodes_Handler
         else if path = ''/api/cluster/stats'' then Some Stats_Handler
         else if path = ''/api/cluster/health'' then Some Health_Handler
         else if path = ''/api/cluster/events'' then Some Events_Handler
         else map_option Node_Handler (path_param ''/api/cluster/nodes/'' path))
      else if method = ''POST'' then
        (if path = ''/api/cluster/rebalance'' then Some Rebalance_Handler
         else map_option Failover_Handler (path_param ''/api/cluster/failover/'' path))
      else None)"

definition gateway_route :: "string \<Rightarrow> string \<Rightarrow> gateway_handler option" where
  "gateway_route method path =
     (case heartbeat_route method path of
        Some h \<Rightarrow> Some h
      | None \<Rightarrow> (case cluster_route method path of
          Some h \<Rightarrow> Some h
        | None \<Rightarrow> (case cache_route method path of Some h \<Rightarrow> Some h | None \<Rightarrow> main_route method path)))"

section \<open>Requests and answers\<close>

record client_http =
  ch_method :: string
  ch_path :: string
  ch_zone :: "string option" \<comment> \<open>the header \<open>X-Client-Zone\<close>\<close>
  ch_limit :: "int option"
  ch_force :: "bool option"
  ch_put :: "cache_put_request option"
  ch_heartbeat :: "heartbeat_payload option"
  ch_registration :: "registration option"

text \<open>The readings of the clock a handler takes, and their texts.\<close>

record gateway_times =
  gt_first :: time
  gt_first_stamp :: string
  gt_second :: time
  gt_second_stamp :: string
  gt_clock :: "string \<Rightarrow> time"

datatype gateway_body =
    Detail string
  | Root_Body "cluster_stats_response option"
  | Status_Body string "cluster_stats_response option" "int option"
  | Check_Body string
  | Received_Body heartbeat_answer
  | Registered_Body registration_answer
  | Nodes_Body "node_info option list"
  | Node_Body node_info
  | Stats_Body cluster_stats_response
  | Health_Report health_response
  | Events_Body int "cluster_event list"
  | Rebalance_Body string string
  | Failover_Body string string string

text \<open>An answer of the handler, a call to a cache node it now waits for, an answer of the framework
  (no route, or a request it refuses), or an exception that leaves the handler, which is answered 500.\<close>

datatype gateway_answer = Reply int gateway_body | Forwarded request | By_Framework | Crashed

definition replying :: "('a \<Rightarrow> gateway_body) \<Rightarrow> http_exception + 'a \<Rightarrow> gateway_answer" where
  "replying f r = (case r of Inl (HTTPException status detail) \<Rightarrow> Reply status (Detail detail) | Inr x \<Rightarrow> Reply 200 (f x))"

fun starting :: "raised + request \<Rightarrow> gateway_answer" where
  "starting (Inl (Http (HTTPException status detail))) = Reply status (Detail detail)"
| "starting (Inl (Python e)) = Crashed"
| "starting (Inl (Httpx e)) = Crashed"
| "starting (Inr q) = Forwarded q"

fun run_handler :: "gateway_handler \<Rightarrow> gateway_times \<Rightarrow> client_http \<Rightarrow> world \<Rightarrow> gateway_answer \<times> world" where
  "run_handler Root_Handler t c w = (Reply 200 (Root_Body (root_cluster (Some (wd_gateway w)))), w)"
| "run_handler Status_Handler t c w =
     (case status_endpoint (Some (wd_gateway w)) of (s, stats, breakers) \<Rightarrow> (Reply 200 (Status_Body s stats breakers), w))"
| "run_handler Health_Check_Handler t c w = (Reply 200 (Check_Body (trigger_health_check (Some (wd_gateway w)))), w)"
| "run_handler Heartbeat_Handler t c w =
     (case ch_heartbeat c of
        None \<Rightarrow> (By_Framework, w)
      | Some p \<Rightarrow>
          (case heartbeat (gt_first t) (gt_first_stamp t) (gt_second t) (gt_second_stamp t) p (Some (cluster_of w)) of
             (r, cm) \<Rightarrow> (replying Received_Body r, set_cluster cm w)))"
| "run_handler Register_Handler t c w =
     (case ch_registration c of
        None \<Rightarrow> (By_Framework, w)
      | Some d \<Rightarrow>
          (case register_endpoint (gt_first t) (gt_first_stamp t) d (Some (cluster_of w)) of
             (r, cm) \<Rightarrow> (replying Registered_Body r, set_cluster cm w)))"
| "run_handler (Key_Get key) t c w =
     (let start = get_key_start (gt_clock t) key (ch_zone c) (Some (wd_gateway w))
      in (starting (fst start), launch Get_Handler key (ch_zone c) start w))"
| "run_handler (Key_Put key) t c w =
     (case ch_put c of
        None \<Rightarrow> (By_Framework, w)
      | Some put \<Rightarrow>
          let start = put_key_start (gt_first t) key put (Some (wd_gateway w))
          in (starting (fst start), launch Put_Handler key (ch_zone c) start w))"
| "run_handler (Key_Delete key) t c w =
     (let start = delete_key_start (gt_first t) key (Some (wd_gateway w))
      in (starting (fst start), launch Delete_Handler key None start w))"
| "run_handler Nodes_Handler t c w = (replying Nodes_Body (list_nodes (Some (cluster_of w))), w)"
| "run_handler (Node_Handler n) t c w = (replying Node_Body (get_node_endpoint n (Some (cluster_of w))), w)"
| "run_handler Stats_Handler t c w = (replying Stats_Body (cluster_stats (Some (cluster_of w))), w)"
| "run_handler Health_Handler t c w = (replying Health_Report (health_endpoint (Some (cluster_of w))), w)"
| "run_handler Events_Handler t c w =
     (case ch_limit c of
        None \<Rightarrow> (By_Framework, w)
      | Some limit \<Rightarrow> (replying (\<lambda>(n, es). Events_Body n es) (event_log_endpoint limit (Some (cluster_of w))), w))"
| "run_handler Rebalance_Handler t c w =
     (case ch_force c of
        None \<Rightarrow> (By_Framework, w)
      | Some force \<Rightarrow> (case trigger_rebalance force of (s, m) \<Rightarrow> (Reply 200 (Rebalance_Body s m), w)))"
| "run_handler (Failover_Handler n) t c w = (case manual_failover n of (s, i, m) \<Rightarrow> (Reply 200 (Failover_Body s i m), w))"

definition gateway_serve :: "gateway_times \<Rightarrow> client_http \<Rightarrow> world \<Rightarrow> gateway_answer \<times> world" where
  "gateway_serve t c w =
     (case gateway_route (ch_method c) (ch_path c) of None \<Rightarrow> (By_Framework, w) | Some h \<Rightarrow> run_handler h t c w)"

section \<open>What an answer may be\<close>

text \<open>The statuses a handler may answer with by itself.\<close>

fun own_statuses :: "gateway_handler \<Rightarrow> int set" where
  "own_statuses (Key_Get key) = {503}"
| "own_statuses (Key_Put key) = {503}"
| "own_statuses (Key_Delete key) = {503}"
| "own_statuses Register_Handler = {200, 400}"
| "own_statuses (Node_Handler n) = {200, 404}"
| "own_statuses h = {200}"

fun key_of_handler :: "gateway_handler \<Rightarrow> string option" where
  "key_of_handler (Key_Get key) = Some key"
| "key_of_handler (Key_Put key) = Some key"
| "key_of_handler (Key_Delete key) = Some key"
| "key_of_handler h = None"

text \<open>A call that goes to a node as the table has it, for the key of the request.\<close>

definition well_aimed :: "world \<Rightarrow> gateway_handler \<Rightarrow> client_http \<Rightarrow> request \<Rightarrow> bool" where
  "well_aimed w h c q \<longleftrightarrow> routable (cluster_of w) (req_node q) \<and> addressed (cluster_of w) q
     \<and> req_method q = ch_method c \<and> (\<exists>key. key_of_handler h = Some key \<and> req_path q = ''/cache/'' @ key)"

fun answer_allowed :: "world \<Rightarrow> gateway_handler \<Rightarrow> client_http \<Rightarrow> gateway_answer \<Rightarrow> bool" where
  "answer_allowed w h c (Reply status body) \<longleftrightarrow> status \<in> own_statuses h"
| "answer_allowed w h c (Forwarded q) \<longleftrightarrow> well_aimed w h c q"
| "answer_allowed w h c By_Framework \<longleftrightarrow> True"
| "answer_allowed w h c Crashed \<longleftrightarrow> False"

lemma key_route:
  assumes "gateway_route method path = Some h" and "key_of_handler h = Some key"
  shows "(case h of Key_Get k \<Rightarrow> method = ''GET'' | Key_Put k \<Rightarrow> method = ''PUT'' | Key_Delete k \<Rightarrow> method = ''DELETE'' | _ \<Rightarrow> True)"
  using assms
  by (auto simp: gateway_route_def heartbeat_route_def cluster_route_def cache_route_def main_route_def
      split: option.splits if_splits gateway_handler.splits)

lemma get_start_allowed:
  assumes ok: "ring_ok (gw_cluster g)"
  shows "case fst (get_key_start clock key zone (Some g)) of
      Inl e \<Rightarrow> (\<exists>d. e = Http (HTTPException 503 d))
    | Inr q \<Rightarrow> routable (gw_cluster g) (req_node q) \<and> addressed (gw_cluster g) q \<and> req_method q = ''GET''
        \<and> req_path q = ''/cache/'' @ key"
proof -
  from route_replicas [OF ok, of key] obtain rs where rs: "get_replicas_for_key (gw_cluster g) key = Inr rs" by auto
  let ?avail = "filter (\<lambda>n. fst (is_available (clock n) n (gw_breaker g))) rs"
  note start = get_key_start_replicas [OF ok rs, of clock zone, unfolded Let_def]
  show ?thesis
  proof (cases "rs = [] \<or> ?avail = []")
    case True
    then show ?thesis unfolding start by (auto simp: unavailable_def)
  next
    case False
    then obtain n where n: "pick_by_latency (gw_zone g) ?avail = Some n" by (auto simp: pick_by_latency_def)
    then have "n \<in> set rs" using pick_by_latency_member by fastforce
    then have r: "routable (gw_cluster g) n" using route_replicas [OF ok, of key] rs by auto
    from call_start_known [OF routable_known [OF r], of "''GET''" "cache_path key" None] False n r
    show ?thesis unfolding start by (auto simp: cache_path_def)
  qed
qed

lemma primary_start_allowed:
  assumes ok: "ring_ok (gw_cluster g)" and m: "verb \<in> {''GET'', ''PUT'', ''DELETE'', ''POST''}"
  shows "case fst (primary_start now key verb body (Some g)) of
      Inl e \<Rightarrow> (\<exists>d. e = Http (HTTPException 503 d))
    | Inr q \<Rightarrow> routable (gw_cluster g) (req_node q) \<and> addressed (gw_cluster g) q \<and> req_method q = verb
        \<and> req_path q = ''/cache/'' @ key"
proof -
  from route_owner [OF ok, of key] obtain n where n: "get_node_for_key (gw_cluster g) key = Inr n"
    "\<forall>m. n = Some m \<longrightarrow> routable (gw_cluster g) m" by auto
  show ?thesis
  proof (cases "falsy n \<or> \<not> fst (is_available now (the n) (gw_breaker g))")
    case True
    with n(1) show ?thesis by (auto simp: primary_start_def unavailable_def Let_def split_beta)
  next
    case False
    then obtain m where m': "n = Some m" by (auto simp: falsy_def)
    with n(2) have r: "routable (gw_cluster g) m" by blast
    from call_start_known [OF routable_known [OF r] m, of "cache_path key" body] False n(1) m' r
    show ?thesis by (auto simp: primary_start_def cache_path_def Let_def split_beta)
  qed
qed

lemma starting_allowed:
  assumes "case r of Inl e \<Rightarrow> (\<exists>d. e = Http (HTTPException 503 d)) | Inr q \<Rightarrow> well_aimed w h c q" and "own_statuses h = {503}"
  shows "answer_allowed w h c (starting r)"
  using assms by (cases r) auto

section \<open>A handler is a step of the gateway\<close>

definition steps_to :: "world \<Rightarrow> world \<Rightarrow> bool" where
  "steps_to w w' \<longleftrightarrow> w' = w \<or> (\<exists>a :: unit action. gateway_step w a w')"

lemma steps_toI [intro]: "steps_to w w" "gateway_step w (a :: unit action) w' \<Longrightarrow> steps_to w w'"
  by (auto simp: steps_to_def)

lemma handler_steps: "steps_to w (snd (run_handler h t c w))"
proof (cases h)
  case Heartbeat_Handler
  then show ?thesis by (auto simp: case_prod_beta split: option.split intro: gateway_step.heartbeat)
next
  case Register_Handler
  then show ?thesis by (auto simp: case_prod_beta split: option.split intro: gateway_step.register)
next
  case (Key_Put key)
  then show ?thesis by (auto simp: Let_def split: option.split intro: gateway_step.begin_put)
qed (auto simp: Let_def case_prod_beta split: option.split intro: gateway_step.begin_get gateway_step.begin_delete)

lemma handler_allowed:
  assumes ok: "cluster_ok (cluster_of w)" and r: "gateway_route (ch_method c) (ch_path c) = Some h"
  shows "answer_allowed w h c (fst (run_handler h t c w))"
proof -
  have ring: "ring_ok (cluster_of w)" using ok by (simp add: cluster_ok_def)
  note methods = key_route [OF r]
  show ?thesis
  proof (cases h)
    case (Key_Get key)
    with get_start_allowed [OF ring, where clock = "gt_clock t" and key = key and zone = "ch_zone c"] methods show ?thesis
      by (auto simp: Let_def well_aimed_def split: sum.splits intro!: starting_allowed)
  next
    case (Key_Put key)
    show ?thesis
    proof (cases "ch_put c")
      case (Some put)
      with primary_start_allowed [OF ring, where verb = "''PUT''" and now = "gt_first t" and key = key
          and body = "Some (put_value put, case put_ttl put of None \<Rightarrow> 0 | Some n \<Rightarrow> n)"] methods Key_Put
      show ?thesis
        by (auto simp: Let_def well_aimed_def put_key_start_def split: sum.splits intro!: starting_allowed)
    qed (simp add: Key_Put)
  next
    case (Key_Delete key)
    with primary_start_allowed [OF ring, where verb = "''DELETE''" and now = "gt_first t" and key = key and body = None] methods show ?thesis
      by (auto simp: Let_def well_aimed_def delete_key_start_def split: sum.splits intro!: starting_allowed)
  next
    case Register_Handler
    then show ?thesis
      by (auto simp: register_endpoint_def replying_def Let_def split: option.split list.split)
  qed (auto simp: heartbeat_def replying_def Let_def list_nodes_def get_node_endpoint_def cluster_stats_def health_endpoint_def
      event_log_endpoint_def with_cluster_def case_prod_beta split: option.split)
qed

lemma steps_to_reachable:
  assumes "reachable s (as :: unit action list) w" and "steps_to w w'"
  shows "\<exists>as'. reachable s (as @ as') w' \<and> length as' \<le> 1"
  using assms(2) unfolding steps_to_def
proof (elim disjE exE)
  assume "w' = w"
  with assms(1) show ?thesis by (intro exI [of _ "[]"]) simp
next
  fix a :: "unit action" assume "gateway_step w a w'"
  then have "gateway_run w [a] w'" by (rule gateway_run.step [OF _ gateway_run.stop])
  with reachable_run [OF assms(1)] show ?thesis by (intro exI [of _ "[a]"]) simp
qed

section \<open>Property\<close>


definition sample_client :: "string \<Rightarrow> string \<Rightarrow> client_http" where
  "sample_client method path = \<lparr>ch_method = method, ch_path = path, ch_zone = None, ch_limit = Some 100, ch_force = Some False,
     ch_put = Some \<lparr>put_value = ''v'', put_ttl = None\<rparr>, ch_heartbeat = None, ch_registration = None\<rparr>"


end
