(* ===== verification/Lru_Heap.thy ===== *)
theory Lru_Heap
  imports Prelude "HOL-Library.Monad_Syntax"
begin

text \<open>
  The doubly linked list of the cache node's LRU cache, \<open>cache-node/src/lru_cache.hpp\<close> and
  \<open>lru_cache.cpp\<close>: list nodes in a heap of cells between two sentinels, and the pointer
  manipulations \<open>detach\<close>, \<open>attach_front\<close>, \<open>new\<close> and \<open>delete\<close>.

  An access through a null pointer or to a cell that is not allocated, a double \<open>delete\<close> and the
  \<open>delete\<close> of a sentinel are undefined behaviour, the value \<open>None\<close>. A cell is named by the
  address the allocator chose, an argument of the operations that allocate.
\<close>

section \<open>Model\<close>

type_synonym ns = int \<comment> \<open>a reading of the steady clock, in nanoseconds\<close>

record cache_entry =
  ce_key :: string
  ce_value :: string
  ce_expires_at :: "ns option"

datatype ptr = Head | Tail | Cell nat

record list_node =
  ln_entry :: cache_entry
  ln_prev :: "ptr option"
  ln_next :: "ptr option"

type_synonym heap = "ptr \<Rightarrow> list_node option"

definition ListNode :: "cache_entry \<Rightarrow> list_node" where
  "ListNode e = \<lparr>ln_entry = e, ln_prev = None, ln_next = None\<rparr>"

definition modify :: "ptr option \<Rightarrow> (list_node \<Rightarrow> list_node) \<Rightarrow> heap \<Rightarrow> heap option" where
  "modify p f h = do { a \<leftarrow> p; n \<leftarrow> h a; Some (h(a \<mapsto> f n)) }"

definition detach :: "ptr \<Rightarrow> heap \<Rightarrow> heap option" where
  "detach node h = do {
     n \<leftarrow> h node;
     h1 \<leftarrow> modify (ln_prev n) (\<lambda>m. m\<lparr>ln_next := ln_next n\<rparr>) h;
     n1 \<leftarrow> h1 node;
     h2 \<leftarrow> modify (ln_next n1) (\<lambda>m. m\<lparr>ln_prev := ln_prev n1\<rparr>) h1;
     modify (Some node) (\<lambda>m. m\<lparr>ln_prev := None, ln_next := None\<rparr>) h2
   }"

definition attach_front :: "ptr \<Rightarrow> heap \<Rightarrow> heap option" where
  "attach_front node h = do {
     hd \<leftarrow> h Head;
     h1 \<leftarrow> modify (Some node) (\<lambda>m. m\<lparr>ln_next := ln_next hd, ln_prev := Some Head\<rparr>) h;
     hd1 \<leftarrow> h1 Head;
     h2 \<leftarrow> modify (ln_next hd1) (\<lambda>m. m\<lparr>ln_prev := Some node\<rparr>) h1;
     modify (Some Head) (\<lambda>m. m\<lparr>ln_next := Some node\<rparr>) h2
   }"

definition new_node :: "nat \<Rightarrow> cache_entry \<Rightarrow> heap \<Rightarrow> heap option" where
  "new_node a e h = (if h (Cell a) = None then Some (h(Cell a \<mapsto> ListNode e)) else None)"

definition delete_node :: "ptr \<Rightarrow> heap \<Rightarrow> heap option" where
  "delete_node p h = (case p of Cell a \<Rightarrow> (case h p of None \<Rightarrow> None | Some n \<Rightarrow> Some (h(p := None))) | _ \<Rightarrow> None)"

section \<open>The list a heap represents\<close>

definition nxt :: "heap \<Rightarrow> ptr \<Rightarrow> ptr option" where
  "nxt h p = (case h p of None \<Rightarrow> None | Some n \<Rightarrow> ln_next n)"

definition prv :: "heap \<Rightarrow> ptr \<Rightarrow> ptr option" where
  "prv h p = (case h p of None \<Rightarrow> None | Some n \<Rightarrow> ln_prev n)"

definition ent :: "heap \<Rightarrow> ptr \<Rightarrow> cache_entry" where
  "ent h p = ln_entry (the (h p))"

text \<open>The links from \<open>x\<close> through \<open>ps\<close> to \<open>y\<close>, in both directions.\<close>

fun linked :: "heap \<Rightarrow> ptr \<Rightarrow> ptr list \<Rightarrow> ptr \<Rightarrow> bool" where
  "linked h x [] y \<longleftrightarrow> nxt h x = Some y \<and> prv h y = Some x"
| "linked h x (p # ps) y \<longleftrightarrow> nxt h x = Some p \<and> prv h p = Some x \<and> linked h p ps y"

text \<open>A chain of cells between the sentinels; \<open>owned\<close> adds that nothing else is allocated.\<close>

definition chain :: "heap \<Rightarrow> ptr list \<Rightarrow> bool" where
  "chain h ps \<longleftrightarrow> linked h Head ps Tail \<and> distinct ps \<and> set ps \<subseteq> range Cell
     \<and> insert Head (insert Tail (set ps)) \<subseteq> dom h"

definition owned :: "heap \<Rightarrow> ptr list \<Rightarrow> bool" where
  "owned h ps \<longleftrightarrow> chain h ps \<and> dom h = insert Head (insert Tail (set ps))"

lemma linked_append: "linked h x (ps @ p # qs) y \<longleftrightarrow> linked h x ps p \<and> linked h p qs y"
  by (induction ps arbitrary: x) auto

lemma linked_cong:
  "(\<And>z. z \<in> insert x (set ps) \<Longrightarrow> nxt h' z = nxt h z) \<Longrightarrow>
   (\<And>z. z \<in> insert y (set ps) \<Longrightarrow> prv h' z = prv h z) \<Longrightarrow> linked h' x ps y = linked h x ps y"
  by (induction ps arbitrary: x) auto

lemma linked_first: "linked h x ps y \<Longrightarrow> nxt h x = Some (hd (ps @ [y]))"
  by (cases ps) auto

lemma linked_last: "linked h x ps y \<Longrightarrow> prv h y = Some (last (x # ps))"
  by (induction ps arbitrary: x) auto

text \<open>The neighbours of a cell in the chain.\<close>

definition before :: "ptr \<Rightarrow> ptr list \<Rightarrow> ptr" where
  "before x ps = last (x # ps)"

definition after :: "ptr list \<Rightarrow> ptr \<Rightarrow> ptr" where
  "after qs y = hd (qs @ [y])"

lemma before_in: "before x ps \<in> insert x (set ps)"
  using last_in_set [of "x # ps"] by (simp add: before_def)

lemma after_in: "after qs y \<in> insert y (set qs)"
  using hd_in_set [of "qs @ [y]"] by (simp add: after_def)

lemma before_Nil [simp]: "before x [] = x" and before_Cons [simp]: "before x (p # ps) = before p ps"
  by (simp_all add: before_def)

lemma after_Nil [simp]: "after [] y = y" and after_Cons [simp]: "after (q # qs) y = q"
  by (simp_all add: after_def)

lemma linked_after: "linked h x qs y \<Longrightarrow> nxt h x = Some (after qs y)"
  by (cases qs) auto

lemma linked_before: "linked h x ps y \<Longrightarrow> prv h y = Some (before x ps)"
  by (induction ps arbitrary: x) auto

text \<open>Redirecting the last forward link, or the first backward link, of a stretch.\<close>

lemma linked_retarget:
  assumes "linked h x ps p" and "distinct (x # ps)" and "p \<notin> set ps"
    and "\<And>z. z \<in> insert x (set ps) \<Longrightarrow> nxt h' z = (if z = before x ps then Some y else nxt h z)"
    and "\<And>z. z \<in> set ps \<Longrightarrow> prv h' z = prv h z" and "prv h' y = Some (before x ps)"
  shows "linked h' x ps y"
  using assms
proof (induction ps arbitrary: x)
  case (Cons a ps)
  then have "linked h' a ps y" by (intro Cons.IH) auto
  moreover have "x \<noteq> before a ps" using Cons.prems(2) before_in [of a ps] by auto
  ultimately show ?case using Cons.prems by auto
qed auto

lemma linked_resource:
  assumes "linked h p qs y" and "distinct qs" and "y \<notin> set qs"
    and "\<And>z. z \<in> set qs \<Longrightarrow> nxt h' z = nxt h z"
    and "nxt h' x = Some (after qs y)" and "prv h' (after qs y) = Some x"
    and "\<And>z. z \<in> insert y (set qs) \<Longrightarrow> z \<noteq> after qs y \<Longrightarrow> prv h' z = prv h z"
  shows "linked h' x qs y"
proof (cases qs)
  case (Cons q qs')
  have "linked h' q qs' y = linked h q qs' y"
    using assms(2,3,4,7) Cons by (intro linked_cong) auto
  with assms Cons show ?thesis by auto
qed (use assms in auto)

lemma modify_Some: "h a = Some n \<Longrightarrow> modify (Some a) f h = Some (h(a \<mapsto> f n))"
  by (simp add: modify_def)

lemma chain_split:
  assumes "chain h (ps @ p # qs)"
  shows "\<exists>n. h p = Some n \<and> ln_prev n = Some (before Head ps) \<and> ln_next n = Some (after qs Tail)"
    and "\<exists>a. h (before Head ps) = Some a" and "\<exists>b. h (after qs Tail) = Some b"
    and "before Head ps \<noteq> p" and "after qs Tail \<noteq> p" and "before Head ps \<noteq> after qs Tail"
    and "p \<noteq> Head" and "p \<noteq> Tail"
proof -
  from assms have l: "linked h Head ps p" "linked h p qs Tail" and d: "distinct (ps @ p # qs)"
    and cells: "set (ps @ p # qs) \<subseteq> range Cell" and alloc: "insert Head (insert Tail (set (ps @ p # qs))) \<subseteq> dom h"
    by (auto simp: chain_def linked_append)
  have sep: "p \<notin> insert Head (set ps)" "p \<notin> insert Tail (set qs)"
    "insert Head (set ps) \<inter> insert Tail (set qs) = {}" using cells d by auto
  from sep(1,2) cells show "p \<noteq> Head" "p \<noteq> Tail" by auto
  from sep(1) before_in show "before Head ps \<noteq> p" by metis
  from sep(2) after_in show "after qs Tail \<noteq> p" by metis
  from sep(3) before_in after_in show "before Head ps \<noteq> after qs Tail" by (metis disjoint_iff)
  show "\<exists>a. h (before Head ps) = Some a" "\<exists>b. h (after qs Tail) = Some b"
    using before_in [of Head ps] after_in [of qs Tail] alloc by auto
  from alloc obtain n where "h p = Some n" by auto
  then show "\<exists>n. h p = Some n \<and> ln_prev n = Some (before Head ps) \<and> ln_next n = Some (after qs Tail)"
    using linked_before [OF l(1)] linked_after [OF l(2)] by (simp add: nxt_def prv_def)
qed

section \<open>What the pointer operations do to the list\<close>

lemma detach_effect:
  assumes c: "chain h (ps @ p # qs)"
  shows "\<exists>h'. detach p h = Some h' \<and> dom h' = dom h \<and> ent h' = ent h
    \<and> (\<forall>z. z \<noteq> p \<longrightarrow> nxt h' z = (if z = before Head ps then Some (after qs Tail) else nxt h z))
    \<and> (\<forall>z. z \<noteq> p \<longrightarrow> prv h' z = (if z = after qs Tail then Some (before Head ps) else prv h z))"
proof -
  note s = chain_split [OF c]
  obtain n where n: "h p = Some n" "ln_prev n = Some (before Head ps)" "ln_next n = Some (after qs Tail)"
    using s(1) by blast
  obtain a b where a: "h (before Head ps) = Some a" and b: "h (after qs Tail) = Some b" using s(2,3) by blast
  let ?h = "h(before Head ps \<mapsto> a\<lparr>ln_next := Some (after qs Tail)\<rparr>,
    after qs Tail \<mapsto> b\<lparr>ln_prev := Some (before Head ps)\<rparr>, p \<mapsto> n\<lparr>ln_prev := None, ln_next := None\<rparr>)"
  have "detach p h = Some ?h" using n a b s(4-6) by (simp add: detach_def modify_Some)
  moreover have "nxt ?h z = (if z = before Head ps then Some (after qs Tail) else nxt h z)"
    and "prv ?h z = (if z = after qs Tail then Some (before Head ps) else prv h z)" if "z \<noteq> p" for z
    using that s(4-6) a b by (auto simp: nxt_def prv_def)
  moreover have "dom ?h = dom h" using n a b by auto
  moreover have "ent ?h = ent h" using n a b by (auto simp: ent_def fun_eq_iff)
  ultimately show ?thesis by blast
qed

lemma chain_parts:
  assumes "chain h (ps @ p # qs)"
  shows "linked h Head ps p" and "linked h p qs Tail"
    and "distinct (Head # ps)" and "distinct qs" and "p \<notin> set ps" and "p \<notin> set qs"
    and "Tail \<notin> set qs" and "Tail \<notin> set ps" and "set ps \<inter> set qs = {}" and "Head \<notin> set qs"
    and "p \<noteq> Head" and "p \<noteq> Tail"
  using assms by (auto simp: chain_def linked_append)

lemma detach_chain:
  assumes c: "chain h (ps @ p # qs)"
  shows "\<exists>h'. detach p h = Some h' \<and> chain h' (ps @ qs) \<and> dom h' = dom h \<and> ent h' = ent h"
proof -
  obtain h' where h': "detach p h = Some h'" "dom h' = dom h" "ent h' = ent h"
    and nxt: "\<And>z. z \<noteq> p \<Longrightarrow> nxt h' z = (if z = before Head ps then Some (after qs Tail) else nxt h z)"
    and prv: "\<And>z. z \<noteq> p \<Longrightarrow> prv h' z = (if z = after qs Tail then Some (before Head ps) else prv h z)"
    using detach_effect [OF c] by blast
  note pc = chain_parts [OF c]
  have afterp: "after qs Tail \<notin> set ps" "after qs Tail \<noteq> p"
    using after_in [of qs Tail] pc by auto
  have np: "z \<in> insert Head (set ps) \<Longrightarrow> z \<noteq> p" for z using pc by auto
  have left: "linked h' Head ps (after qs Tail)"
  proof (rule linked_retarget [OF pc(1,3,5)])
    show "z \<in> insert Head (set ps) \<Longrightarrow> nxt h' z = (if z = before Head ps then Some (after qs Tail) else nxt h z)" for z
      using nxt np by simp
    show "z \<in> set ps \<Longrightarrow> prv h' z = prv h z" for z using prv np afterp(1) by auto
    show "prv h' (after qs Tail) = Some (before Head ps)" using prv afterp(2) by simp
  qed
  have "linked h' Head (ps @ qs) Tail"
  proof (cases qs)
    case (Cons q qs')
    have "z \<in> insert q (set qs') \<Longrightarrow> z \<noteq> p \<and> z \<noteq> before Head ps" for z
      using pc before_in [of Head ps] Cons by auto
    moreover have "z \<in> insert Tail (set qs') \<Longrightarrow> z \<noteq> p \<and> z \<noteq> q" for z using pc Cons by auto
    ultimately have "linked h' q qs' Tail = linked h q qs' Tail"
      using Cons by (intro linked_cong) (simp_all add: nxt prv)
    with left pc(2) Cons show ?thesis by (simp add: linked_append)
  qed (use left in simp)
  with h' c have "chain h' (ps @ qs)" by (auto simp: chain_def)
  with h' show ?thesis by blast
qed

lemma attach_front_chain:
  assumes c: "chain h ps" and p: "p \<notin> set ps" "p \<in> range Cell" "p \<in> dom h"
  shows "\<exists>h'. attach_front p h = Some h' \<and> chain h' (p # ps) \<and> dom h' = dom h \<and> ent h' = ent h"
proof -
  from c have l: "linked h Head ps Tail" and d: "distinct ps" "set ps \<subseteq> range Cell"
    and alloc: "insert Head (insert Tail (set ps)) \<subseteq> dom h" by (auto simp: chain_def)
  let ?q = "after ps Tail"
  have q: "?q \<noteq> Head" "?q \<noteq> p" "?q \<in> dom h" using after_in [of ps Tail] d p alloc by auto
  have p': "p \<noteq> Head" "p \<noteq> Tail" using p by auto
  obtain hd b n where hd: "h Head = Some hd" and b: "h ?q = Some b" and n: "h p = Some n"
    using alloc q(3) p(3) by auto
  have hn: "ln_next hd = Some ?q" using linked_after [OF l] hd by (simp add: nxt_def)
  let ?h = "h(p \<mapsto> n\<lparr>ln_next := Some ?q, ln_prev := Some Head\<rparr>, ?q \<mapsto> b\<lparr>ln_prev := Some p\<rparr>,
    Head \<mapsto> hd\<lparr>ln_next := Some p\<rparr>)"
  have "attach_front p h = Some ?h"
    using hd b n hn q p' by (simp add: attach_front_def modify_Some)
  moreover obtain h' where h': "h' = ?h" by blast
  have nxt: "nxt h' z = (if z = Head then Some p else if z = p then Some ?q else nxt h z)"
    and prv: "prv h' z = (if z = ?q then Some p else if z = p then Some Head else prv h z)" for z
    using hd b n hn q p' by (auto simp: h' nxt_def prv_def)
  have "linked h' p ps Tail"
  proof (rule linked_resource [OF l d(1)])
    show "Tail \<notin> set ps" using d by auto
    show "z \<in> set ps \<Longrightarrow> nxt h' z = nxt h z" for z using d p by (auto simp: nxt)
    show "nxt h' p = Some ?q" and "prv h' ?q = Some p" using p' by (simp_all add: nxt prv)
    show "z \<in> insert Tail (set ps) \<Longrightarrow> z \<noteq> ?q \<Longrightarrow> prv h' z = prv h z" for z using p p' by (auto simp: prv)
  qed
  then have "linked h' Head (p # ps) Tail" using p' q by (simp add: nxt prv)
  moreover have "dom h' = dom h" using hd b n by (auto simp: h')
  moreover have "ent h' = ent h" using hd b n by (auto simp: h' ent_def fun_eq_iff)
  ultimately show ?thesis using c p d h' by (auto simp: chain_def)
qed

lemma new_node_chain:
  assumes "chain h ps" and "h (Cell a) = None"
  shows "\<exists>h'. new_node a e h = Some h' \<and> chain h' ps \<and> dom h' = insert (Cell a) (dom h)
    \<and> ent h' = (ent h)(Cell a := e) \<and> Cell a \<notin> set ps"
proof -
  let ?h = "h(Cell a \<mapsto> ListNode e)"
  have a: "Cell a \<notin> set ps" using assms by (auto simp: chain_def)
  have "linked ?h Head ps Tail = linked h Head ps Tail"
    using a by (intro linked_cong) (auto simp: nxt_def prv_def)
  then have "chain ?h ps" using assms(1) by (auto simp: chain_def)
  moreover have "ent ?h = (ent h)(Cell a := e)" by (auto simp: ent_def ListNode_def fun_eq_iff)
  ultimately show ?thesis using assms(2) a by (auto simp: new_node_def)
qed

lemma delete_node_chain:
  assumes "chain h ps" and "p \<notin> set ps" and "p \<in> range Cell" and "p \<in> dom h"
  shows "\<exists>h'. delete_node p h = Some h' \<and> chain h' ps \<and> dom h' = dom h - {p}
    \<and> (\<forall>z. z \<noteq> p \<longrightarrow> ent h' z = ent h z)"
proof -
  let ?h = "h(p := None)"
  have p: "p \<noteq> Head" "p \<noteq> Tail" using assms(3) by auto
  have "linked ?h Head ps Tail = linked h Head ps Tail"
    using assms(2) p by (intro linked_cong) (auto simp: nxt_def prv_def)
  then have "chain ?h ps" using assms p by (auto simp: chain_def)
  moreover have "delete_node p h = Some ?h" using assms(3,4) by (auto simp: delete_node_def)
  ultimately show ?thesis by (auto simp: ent_def)
qed

text \<open>Taking a cell out of the list and freeing it.\<close>

lemma unlink_owned:
  assumes o: "owned h (ps @ p # qs)"
  shows "\<exists>h1 h2. detach p h = Some h1 \<and> delete_node p h1 = Some h2 \<and> owned h2 (ps @ qs)
    \<and> (\<forall>z\<in>set (ps @ qs). ent h2 z = ent h z)"
proof -
  from o have c: "chain h (ps @ p # qs)" and dom: "dom h = insert Head (insert Tail (set (ps @ p # qs)))"
    by (simp_all add: owned_def)
  obtain h1 where h1: "detach p h = Some h1" "chain h1 (ps @ qs)" "dom h1 = dom h" "ent h1 = ent h"
    using detach_chain [OF c] by blast
  have p: "p \<notin> set (ps @ qs)" "p \<in> range Cell" "p \<in> dom h1" "p \<noteq> Head" "p \<noteq> Tail"
    using c dom h1(3) by (auto simp: chain_def)
  from delete_node_chain [OF h1(2) p(1-3)] obtain h2 where h2: "delete_node p h1 = Some h2"
    "chain h2 (ps @ qs)" "dom h2 = dom h1 - {p}" "\<forall>z. z \<noteq> p \<longrightarrow> ent h2 z = ent h1 z" by blast
  have "dom h2 = insert Head (insert Tail (set (ps @ qs)))" using h2(3) h1(3) dom p by auto
  with h1 h2 p show ?thesis by (auto simp: owned_def)
qed

text \<open>Moving a cell to the front.\<close>

lemma move_front_owned:
  assumes o: "owned h (ps @ p # qs)"
  shows "\<exists>h1 h2. detach p h = Some h1 \<and> attach_front p h1 = Some h2 \<and> owned h2 (p # ps @ qs) \<and> ent h2 = ent h"
proof -
  from o have c: "chain h (ps @ p # qs)" and dom: "dom h = insert Head (insert Tail (set (ps @ p # qs)))"
    by (simp_all add: owned_def)
  obtain h1 where h1: "detach p h = Some h1" "chain h1 (ps @ qs)" "dom h1 = dom h" "ent h1 = ent h"
    using detach_chain [OF c] by blast
  have p: "p \<notin> set (ps @ qs)" "p \<in> range Cell" "p \<in> dom h1" using c dom h1(3) by (auto simp: chain_def)
  from attach_front_chain [OF h1(2) p] obtain h2 where "attach_front p h1 = Some h2"
    "chain h2 (p # ps @ qs)" "dom h2 = dom h1" "ent h2 = ent h1" by auto
  with h1 dom show ?thesis by (auto simp: owned_def)
qed

text \<open>Allocating a cell at the front.\<close>

lemma new_front_owned:
  assumes o: "owned h ps" and a: "h (Cell a) = None"
  shows "\<exists>h1 h2. new_node a e h = Some h1 \<and> attach_front (Cell a) h1 = Some h2 \<and> owned h2 (Cell a # ps)
    \<and> ent h2 = (ent h)(Cell a := e) \<and> Cell a \<notin> set ps"
proof -
  from o have c: "chain h ps" and dom: "dom h = insert Head (insert Tail (set ps))" by (simp_all add: owned_def)
  from new_node_chain [OF c a] obtain h1 where h1: "new_node a e h = Some h1" "chain h1 ps"
    "dom h1 = insert (Cell a) (dom h)" "ent h1 = (ent h)(Cell a := e)" "Cell a \<notin> set ps" by blast
  from attach_front_chain [OF h1(2,5)] h1(3) obtain h2 where "attach_front (Cell a) h1 = Some h2"
    "chain h2 (Cell a # ps)" "dom h2 = dom h1" "ent h2 = ent h1" by auto
  with h1 dom show ?thesis by (auto simp: owned_def)
qed

end
