(* ===== verification/Lru_Cache.thy ===== *)
theory Lru_Cache
  imports Lru_Heap Float64 "HOL-Library.Word" "HOL-Library.AList"
begin

text \<open>
  The LRU cache of a cache node, \<open>cache-node/src/lru_cache.hpp\<close> and \<open>lru_cache.cpp\<close>: a hash
  map from keys to the cells of a doubly linked list whose front is the most recently used
  entry. The mutex makes every method atomic. A method that would run into undefined behaviour
  is \<open>None\<close>, and so is a walk that does not end. The hash map is an association list; the order
  \<open>std::unordered_map\<close> iterates in is unspecified, so only the set of the listed keys counts.
  The memory estimate depends on the compiler's layout and the allocator and is left out.
\<close>

section \<open>Model\<close>

record cache_metrics =
  hits :: "64 word"
  misses :: "64 word"
  evictions :: "64 word"
  expirations :: "64 word"
  total_puts :: "64 word"
  total_dels :: "64 word"

definition CacheMetrics :: cache_metrics where
  "CacheMetrics = \<lparr>hits = 0, misses = 0, evictions = 0, expirations = 0, total_puts = 0, total_dels = 0\<rparr>"

definition hit_ratio :: "cache_metrics \<Rightarrow> rat" where
  "hit_ratio m = (let total = hits m + misses m
     in if total = 0 then 0 else fl (fl (of_int (uint (hits m))) / fl (of_int (uint total))))"

record lru_cache =
  lc_capacity :: nat
  lc_default_ttl_s :: "32 word"
  lc_heap :: heap
  lc_map :: "(string \<times> ptr) list"
  lc_metrics :: cache_metrics

datatype cpp_error = Invalid_Argument

definition sentinels :: heap where
  "sentinels = [Head \<mapsto> \<lparr>ln_entry = \<lparr>ce_key = ''__head__'', ce_value = '''', ce_expires_at = None\<rparr>,
                       ln_prev = None, ln_next = Some Tail\<rparr>,
                Tail \<mapsto> \<lparr>ln_entry = \<lparr>ce_key = ''__tail__'', ce_value = '''', ce_expires_at = None\<rparr>,
                       ln_prev = Some Head, ln_next = None\<rparr>]"

definition LRUCache :: "nat \<Rightarrow> 32 word \<Rightarrow> cpp_error + lru_cache" where
  "LRUCache capacity default_ttl_s =
     (if capacity = 0 then Inl Invalid_Argument
      else Inr \<lparr>lc_capacity = capacity, lc_default_ttl_s = default_ttl_s, lc_heap = sentinels,
                lc_map = [], lc_metrics = CacheMetrics\<rparr>)"

definition is_expired :: "ns \<Rightarrow> cache_entry \<Rightarrow> bool" where
  "is_expired now e \<longleftrightarrow> (case ce_expires_at e of None \<Rightarrow> False | Some t \<Rightarrow> t \<le> now)"

definition make_expiry :: "ns \<Rightarrow> 32 word \<Rightarrow> ns" where
  "make_expiry now ttl_seconds = now + 1000000000 * uint ttl_seconds"

definition lru_get :: "ns \<Rightarrow> string \<Rightarrow> lru_cache \<Rightarrow> (string option \<times> lru_cache) option" where
  "lru_get now key c =
     (case map_of (lc_map c) key of
        None \<Rightarrow> Some (None, c\<lparr>lc_metrics := (lc_metrics c)\<lparr>misses := misses (lc_metrics c) + 1\<rparr>\<rparr>)
      | Some node \<Rightarrow> do {
          n \<leftarrow> lc_heap c node;
          if is_expired now (ln_entry n) then do {
            h1 \<leftarrow> detach node (lc_heap c);
            h2 \<leftarrow> delete_node node h1;
            Some (None, c\<lparr>lc_heap := h2, lc_map := AList.delete key (lc_map c),
              lc_metrics := (lc_metrics c)\<lparr>misses := misses (lc_metrics c) + 1,
                                            expirations := expirations (lc_metrics c) + 1\<rparr>\<rparr>)
          } else do {
            h1 \<leftarrow> detach node (lc_heap c);
            h2 \<leftarrow> attach_front node h1;
            n2 \<leftarrow> h2 node;
            Some (Some (ce_value (ln_entry n2)),
              c\<lparr>lc_heap := h2, lc_metrics := (lc_metrics c)\<lparr>hits := hits (lc_metrics c) + 1\<rparr>\<rparr>)
          }
        })"

definition evict_lru :: "lru_cache \<Rightarrow> lru_cache option" where
  "evict_lru c = do {
     t \<leftarrow> lc_heap c Tail;
     lru \<leftarrow> ln_prev t;
     if lru = Head then Some c
     else do {
       n \<leftarrow> lc_heap c lru;
       h1 \<leftarrow> detach lru (lc_heap c);
       h2 \<leftarrow> delete_node lru h1;
       Some (c\<lparr>lc_heap := h2, lc_map := AList.delete (ce_key (ln_entry n)) (lc_map c),
         lc_metrics := (lc_metrics c)\<lparr>evictions := evictions (lc_metrics c) + 1\<rparr>\<rparr>)
     }
   }"

definition expiry_of :: "ns \<Rightarrow> 32 word \<Rightarrow> 32 word \<Rightarrow> ns option" where
  "expiry_of now default_ttl ttl_seconds =
     (let effective_ttl = (if ttl_seconds > 0 then ttl_seconds else default_ttl)
      in if effective_ttl > 0 then Some (make_expiry now effective_ttl) else None)"

definition count_put :: "lru_cache \<Rightarrow> lru_cache" where
  "count_put c = c\<lparr>lc_metrics := (lc_metrics c)\<lparr>total_puts := total_puts (lc_metrics c) + 1\<rparr>\<rparr>"

text \<open>The address \<open>new\<close> returns depends on the heap and is the allocator's, a parameter.\<close>

type_synonym allocator = "heap \<Rightarrow> nat"

definition lru_put :: "allocator \<Rightarrow> ns \<Rightarrow> string \<Rightarrow> string \<Rightarrow> 32 word \<Rightarrow> lru_cache \<Rightarrow> lru_cache option" where
  "lru_put alloc now key val ttl_seconds c =
     (let expiry = expiry_of now (lc_default_ttl_s c) ttl_seconds
      in case map_of (lc_map c) key of
           Some node \<Rightarrow> do {
             h \<leftarrow> modify (Some node) (\<lambda>n. n\<lparr>ln_entry := (ln_entry n)\<lparr>ce_value := val, ce_expires_at := expiry\<rparr>\<rparr>) (lc_heap c);
             h1 \<leftarrow> detach node h;
             h2 \<leftarrow> attach_front node h1;
             Some (count_put (c\<lparr>lc_heap := h2\<rparr>))
           }
         | None \<Rightarrow> do {
             c1 \<leftarrow> (if length (lc_map c) \<ge> lc_capacity c then evict_lru c else Some c);
             let a = alloc (lc_heap c1);
             h1 \<leftarrow> new_node a \<lparr>ce_key = key, ce_value = val, ce_expires_at = expiry\<rparr> (lc_heap c1);
             h2 \<leftarrow> attach_front (Cell a) h1;
             Some (count_put (c1\<lparr>lc_heap := h2, lc_map := AList.update key (Cell a) (lc_map c1)\<rparr>))
           })"

definition lru_remove :: "string \<Rightarrow> lru_cache \<Rightarrow> (bool \<times> lru_cache) option" where
  "lru_remove key c =
     (case map_of (lc_map c) key of
        None \<Rightarrow> Some (False, c)
      | Some node \<Rightarrow> do {
          h1 \<leftarrow> detach node (lc_heap c);
          h2 \<leftarrow> delete_node node h1;
          Some (True, c\<lparr>lc_heap := h2, lc_map := AList.delete key (lc_map c),
            lc_metrics := (lc_metrics c)\<lparr>total_dels := total_dels (lc_metrics c) + 1\<rparr>\<rparr>)
        })"

definition lru_size :: "lru_cache \<Rightarrow> nat" where
  "lru_size c = length (lc_map c)"

definition lru_empty :: "lru_cache \<Rightarrow> bool" where
  "lru_empty c \<longleftrightarrow> lc_map c = []"

definition lru_contains :: "ns \<Rightarrow> string \<Rightarrow> lru_cache \<Rightarrow> bool option" where
  "lru_contains now key c =
     (case map_of (lc_map c) key of
        None \<Rightarrow> Some False
      | Some node \<Rightarrow> do { n \<leftarrow> lc_heap c node; Some (\<not> is_expired now (ln_entry n)) })"

text \<open>A loop that reads the clock at each entry does so at the time \<open>clock\<close> gives for its key.\<close>

fun keys_loop :: "(string \<Rightarrow> ns) \<Rightarrow> heap \<Rightarrow> (string \<times> ptr) list \<Rightarrow> string list option" where
  "keys_loop clock h [] = Some []"
| "keys_loop clock h ((k, node) # m) = do {
     n \<leftarrow> h node;
     rest \<leftarrow> keys_loop clock h m;
     Some (if is_expired (clock k) (ln_entry n) then rest else k # rest)
   }"

definition lru_keys :: "(string \<Rightarrow> ns) \<Rightarrow> lru_cache \<Rightarrow> string list option" where
  "lru_keys clock c = keys_loop clock (lc_heap c) (lc_map c)"

partial_function (option) purge_loop ::
  "(string \<Rightarrow> ns) \<Rightarrow> ptr \<Rightarrow> nat \<Rightarrow> lru_cache \<Rightarrow> (nat \<times> lru_cache) option" where
  "purge_loop clock cur count c =
     (if cur = Tail then Some (count, c)
      else do {
        n \<leftarrow> lc_heap c cur;
        succ_p \<leftarrow> ln_next n;
        if is_expired (clock (ce_key (ln_entry n))) (ln_entry n) then do {
          h1 \<leftarrow> detach cur (lc_heap c);
          h2 \<leftarrow> delete_node cur h1;
          purge_loop clock succ_p (count + 1)
            (c\<lparr>lc_heap := h2, lc_map := AList.delete (ce_key (ln_entry n)) (lc_map c),
               lc_metrics := (lc_metrics c)\<lparr>expirations := expirations (lc_metrics c) + 1\<rparr>\<rparr>)
        } else purge_loop clock succ_p count c
      })"

definition first_node :: "heap \<Rightarrow> ptr option" where
  "first_node h = do { n \<leftarrow> h Head; ln_next n }"

definition lru_purge_expired :: "(string \<Rightarrow> ns) \<Rightarrow> lru_cache \<Rightarrow> (nat \<times> lru_cache) option" where
  "lru_purge_expired clock c = do { cur \<leftarrow> first_node (lc_heap c); purge_loop clock cur 0 c }"

text \<open>Remaining whole seconds, as \<open>duration_cast\<close> and \<open>static_cast<uint32_t>\<close> compute them.\<close>

definition remaining_ttl :: "ns \<Rightarrow> cache_entry \<Rightarrow> 32 word" where
  "remaining_ttl now e =
     (case ce_expires_at e of
        None \<Rightarrow> 0
      | Some t \<Rightarrow> let secs = (if now \<le> t then (t - now) div 1000000000 else - ((now - t) div 1000000000))
                  in if secs > 0 then word_of_int secs else 0)"

type_synonym snapshot_row = "string \<times> string \<times> 32 word"

partial_function (option) snapshot_loop ::
  "ns \<Rightarrow> (string \<Rightarrow> ns) \<Rightarrow> heap \<Rightarrow> ptr \<Rightarrow> snapshot_row list option" where
  "snapshot_loop now clock h cur =
     (if cur = Tail then Some []
      else do {
        n \<leftarrow> h cur;
        succ_p \<leftarrow> ln_next n;
        rest \<leftarrow> snapshot_loop now clock h succ_p;
        let e = ln_entry n in
        Some (if is_expired (clock (ce_key e)) e then rest
              else (ce_key e, ce_value e, remaining_ttl now e) # rest)
      })"

definition lru_snapshot :: "ns \<Rightarrow> (string \<Rightarrow> ns) \<Rightarrow> lru_cache \<Rightarrow> snapshot_row list option" where
  "lru_snapshot now clock c = do { cur \<leftarrow> first_node (lc_heap c); snapshot_loop now clock (lc_heap c) cur }"

text \<open>Each \<open>put\<close> of a bulk load has its own time.\<close>

fun bulk_loop :: "allocator \<Rightarrow> (nat \<Rightarrow> ns) \<Rightarrow> nat \<Rightarrow> snapshot_row list \<Rightarrow> lru_cache \<Rightarrow> lru_cache option" where
  "bulk_loop alloc clock i [] c = Some c"
| "bulk_loop alloc clock i ((key, val, ttl) # rows) c = do {
     c1 \<leftarrow> lru_put alloc (clock i) key val ttl c;
     bulk_loop alloc clock (Suc i) rows c1
   }"

definition lru_bulk_load :: "allocator \<Rightarrow> (nat \<Rightarrow> ns) \<Rightarrow> snapshot_row list \<Rightarrow> lru_cache \<Rightarrow> lru_cache option" where
  "lru_bulk_load alloc clock rows c = bulk_loop alloc clock 0 rows c"

text \<open>The walk of \<open>clear\<close> and of the destructor, which frees the cells without unlinking them.\<close>

partial_function (option) free_loop :: "ptr \<Rightarrow> heap \<Rightarrow> heap option" where
  "free_loop cur h =
     (if cur = Tail then Some h
      else do {
        n \<leftarrow> h cur;
        succ_p \<leftarrow> ln_next n;
        h1 \<leftarrow> delete_node cur h;
        free_loop succ_p h1
      })"

definition lru_clear :: "lru_cache \<Rightarrow> lru_cache option" where
  "lru_clear c = do {
     cur \<leftarrow> first_node (lc_heap c);
     h \<leftarrow> free_loop cur (lc_heap c);
     h1 \<leftarrow> modify (Some Head) (\<lambda>n. n\<lparr>ln_next := Some Tail\<rparr>) h;
     h2 \<leftarrow> modify (Some Tail) (\<lambda>n. n\<lparr>ln_prev := Some Head\<rparr>) h1;
     Some (c\<lparr>lc_heap := h2, lc_map := []\<rparr>)
   }"

definition lru_destroy :: "lru_cache \<Rightarrow> heap option" where
  "lru_destroy c = do { cur \<leftarrow> first_node (lc_heap c); free_loop cur (lc_heap c) }"

end
