(* ===== verification/Lru_Spec.thy ===== *)
theory Lru_Spec
  imports Lru_Cache
begin

text \<open>
  The abstract LRU cache: its entries in a list, the most recently used first. Each operation of
  \<open>lru_cache.cpp\<close> has its effect on that list here, without pointers, and the lemmas state what
  an LRU cache promises: distinct keys, at most \<open>capacity\<close> entries, eviction of the least
  recently used entry only, and no value after its expiry.
\<close>

section \<open>Specification\<close>

record lru_spec =
  sp_capacity :: nat
  sp_ttl :: "32 word"
  sp_entries :: "cache_entry list"
  sp_metrics :: cache_metrics

definition find_entry :: "string \<Rightarrow> cache_entry list \<Rightarrow> cache_entry option" where
  "find_entry k es = List.find (\<lambda>e. ce_key e = k) es"

definition drop_key :: "string \<Rightarrow> cache_entry list \<Rightarrow> cache_entry list" where
  "drop_key k es = filter (\<lambda>e. ce_key e \<noteq> k) es"

definition spec_get :: "ns \<Rightarrow> string \<Rightarrow> lru_spec \<Rightarrow> string option \<times> lru_spec" where
  "spec_get now k s =
     (let m = sp_metrics s
      in case find_entry k (sp_entries s) of
           None \<Rightarrow> (None, s\<lparr>sp_metrics := m\<lparr>misses := misses m + 1\<rparr>\<rparr>)
         | Some e \<Rightarrow>
             if is_expired now e
             then (None, s\<lparr>sp_entries := drop_key k (sp_entries s),
                           sp_metrics := m\<lparr>misses := misses m + 1, expirations := expirations m + 1\<rparr>\<rparr>)
             else (Some (ce_value e), s\<lparr>sp_entries := e # drop_key k (sp_entries s),
                           sp_metrics := m\<lparr>hits := hits m + 1\<rparr>\<rparr>))"

definition spec_put :: "ns \<Rightarrow> string \<Rightarrow> string \<Rightarrow> 32 word \<Rightarrow> lru_spec \<Rightarrow> lru_spec" where
  "spec_put now k v ttl s =
     (let e = \<lparr>ce_key = k, ce_value = v, ce_expires_at = expiry_of now (sp_ttl s) ttl\<rparr>;
          m = (sp_metrics s)\<lparr>total_puts := total_puts (sp_metrics s) + 1\<rparr>
      in if find_entry k (sp_entries s) \<noteq> None
         then s\<lparr>sp_entries := e # drop_key k (sp_entries s), sp_metrics := m\<rparr>
         else if length (sp_entries s) \<ge> sp_capacity s
         then s\<lparr>sp_entries := e # butlast (sp_entries s), sp_metrics := m\<lparr>evictions := evictions m + 1\<rparr>\<rparr>
         else s\<lparr>sp_entries := e # sp_entries s, sp_metrics := m\<rparr>)"

definition spec_remove :: "string \<Rightarrow> lru_spec \<Rightarrow> bool \<times> lru_spec" where
  "spec_remove k s =
     (if find_entry k (sp_entries s) = None then (False, s)
      else (True, s\<lparr>sp_entries := drop_key k (sp_entries s),
                    sp_metrics := (sp_metrics s)\<lparr>total_dels := total_dels (sp_metrics s) + 1\<rparr>\<rparr>))"

definition live_entry :: "(string \<Rightarrow> ns) \<Rightarrow> cache_entry \<Rightarrow> bool" where
  "live_entry clock e \<longleftrightarrow> \<not> is_expired (clock (ce_key e)) e"

definition spec_purge :: "(string \<Rightarrow> ns) \<Rightarrow> lru_spec \<Rightarrow> nat \<times> lru_spec" where
  "spec_purge clock s =
     (let n = length (filter (\<lambda>e. \<not> live_entry clock e) (sp_entries s))
      in (n, s\<lparr>sp_entries := filter (live_entry clock) (sp_entries s),
               sp_metrics := (sp_metrics s)\<lparr>expirations := expirations (sp_metrics s) + of_nat n\<rparr>\<rparr>))"

definition row_of :: "ns \<Rightarrow> cache_entry \<Rightarrow> snapshot_row" where
  "row_of now e = (ce_key e, ce_value e, remaining_ttl now e)"

definition spec_snapshot :: "ns \<Rightarrow> (string \<Rightarrow> ns) \<Rightarrow> lru_spec \<Rightarrow> snapshot_row list" where
  "spec_snapshot now clock s = map (row_of now) (filter (live_entry clock) (sp_entries s))"

definition spec_clear :: "lru_spec \<Rightarrow> lru_spec" where
  "spec_clear s = s\<lparr>sp_entries := []\<rparr>"

definition spec_ok :: "lru_spec \<Rightarrow> bool" where
  "spec_ok s \<longleftrightarrow> distinct (map ce_key (sp_entries s)) \<and> length (sp_entries s) \<le> sp_capacity s \<and> 0 < sp_capacity s"

section \<open>Lookup in the entry list\<close>

lemma find_entry_Nil [simp]: "find_entry k [] = None"
  by (simp add: find_entry_def)

lemma find_entry_Cons [simp]: "find_entry k (e # es) = (if ce_key e = k then Some e else find_entry k es)"
  by (simp add: find_entry_def)

lemma find_entry_None: "find_entry k es = None \<longleftrightarrow> k \<notin> ce_key ` set es"
  by (induction es) auto

lemma find_entry_append:
  "find_entry k (xs @ ys) = (case find_entry k xs of None \<Rightarrow> find_entry k ys | Some e \<Rightarrow> Some e)"
  by (induction xs) auto

lemma find_entry_Some: "distinct (map ce_key es) \<Longrightarrow> find_entry k es = Some e \<longleftrightarrow> e \<in> set es \<and> ce_key e = k"
  by (induction es) (auto simp: rev_image_eqI)

lemma drop_key_id: "k \<notin> ce_key ` set es \<Longrightarrow> drop_key k es = es"
  by (auto simp: drop_key_def filter_id_conv)

lemma drop_key_split:
  "distinct (map ce_key (xs @ e # ys)) \<Longrightarrow> ce_key e = k \<Longrightarrow> drop_key k (xs @ e # ys) = xs @ ys"
  using drop_key_id [of k xs] drop_key_id [of k ys] by (auto simp: drop_key_def)

lemma find_entry_drop_key: "find_entry k (drop_key k' es) = (if k = k' then None else find_entry k es)"
  by (induction es) (auto simp: drop_key_def)

lemma set_drop_key: "ce_key ` set (drop_key k es) = ce_key ` set es - {k}"
  by (auto simp: drop_key_def)

lemma find_entry_split:
  assumes "find_entry k es = Some e"
  shows "\<exists>xs ys. es = xs @ e # ys \<and> k \<notin> ce_key ` set xs \<and> ce_key e = k"
  using assms
proof (induction es)
  case (Cons a es)
  show ?case
  proof (cases "ce_key a = k")
    case True
    with Cons.prems show ?thesis by (intro exI [of _ "[]"] exI [of _ es]) simp
  next
    case False
    with Cons obtain xs ys where "es = xs @ e # ys" "k \<notin> ce_key ` set xs" "ce_key e = k" by auto
    with False show ?thesis by (intro exI [of _ "a # xs"] exI [of _ ys]) auto
  qed
qed simp

lemma find_entry_filter:
  "distinct (map ce_key es) \<Longrightarrow>
   find_entry k (filter P es) = (case find_entry k es of None \<Rightarrow> None | Some e \<Rightarrow> if P e then Some e else None)"
  by (induction es) (auto simp: find_entry_None [symmetric] simp del: image_iff split: option.split)

lemma find_entry_butlast:
  "distinct (map ce_key es) \<Longrightarrow> es \<noteq> [] \<Longrightarrow>
   find_entry k (butlast es) = (if k = ce_key (last es) then None else find_entry k es)"
  by (induction es) (auto simp: find_entry_None)

end
