(* ===== verification/Lru_Refine.thy ===== *)
theory Lru_Refine
  imports Lru_Spec
begin

text \<open>
  The pointer implementation refines the abstract LRU cache. \<open>repr\<close> relates a heap and a hash map
  to the cells of the list: the map holds exactly the cells, each under its own key, and the heap
  holds nothing else. Every operation started in such a state is defined (no null or dangling
  pointer is followed, nothing is freed twice, no loop runs for ever), returns what the abstract
  operation returns and ends in a state that represents the abstract result.
\<close>

section \<open>The representation\<close>

definition repr :: "heap \<Rightarrow> (string \<times> ptr) list \<Rightarrow> ptr list \<Rightarrow> bool" where
  "repr h m ps \<longleftrightarrow> owned h ps \<and> distinct (map fst m)
     \<and> (\<forall>k p. map_of m k = Some p \<longleftrightarrow> p \<in> set ps \<and> ce_key (ent h p) = k)"

definition abs_cache :: "lru_cache \<Rightarrow> ptr list \<Rightarrow> lru_spec" where
  "abs_cache c ps = \<lparr>sp_capacity = lc_capacity c, sp_ttl = lc_default_ttl_s c,
     sp_entries = map (ent (lc_heap c)) ps, sp_metrics = lc_metrics c\<rparr>"

definition implements :: "lru_cache \<Rightarrow> lru_spec \<Rightarrow> bool" where
  "implements c s \<longleftrightarrow> (\<exists>ps. repr (lc_heap c) (lc_map c) ps \<and> s = abs_cache c ps) \<and> spec_ok s"

text \<open>An allocator with room for \<open>n\<close> nodes: \<open>new\<close> returns memory that is not in use.\<close>

definition allocates :: "nat \<Rightarrow> allocator \<Rightarrow> bool" where
  "allocates n alloc \<longleftrightarrow> (\<forall>h ps. owned h ps \<longrightarrow> length ps < n \<longrightarrow> h (Cell (alloc h)) = None)"

lemma implementsI:
  "repr (lc_heap c) (lc_map c) ps \<Longrightarrow> s = abs_cache c ps \<Longrightarrow> spec_ok s \<Longrightarrow> implements c s"
  by (auto simp: implements_def)

lemma implementsE:
  assumes "implements c s"
  obtains ps where "repr (lc_heap c) (lc_map c) ps" and "s = abs_cache c ps" and "spec_ok s"
  using assms by (auto simp: implements_def)

lemma repr_keys:
  assumes "repr h m ps"
  shows "distinct (map ce_key (map (ent h) ps))" and "length m = length ps"
    and "dom (map_of m) = ce_key ` set (map (ent h) ps)"
proof -
  have d: "distinct ps" using assms by (simp add: repr_def owned_def chain_def)
  have "inj_on (ce_key \<circ> ent h) (set ps)"
  proof (rule inj_onI)
    fix p q assume "p \<in> set ps" "q \<in> set ps" "(ce_key \<circ> ent h) p = (ce_key \<circ> ent h) q"
    then have "map_of m (ce_key (ent h p)) = Some p" "map_of m (ce_key (ent h p)) = Some q"
      using assms by (simp_all add: repr_def)
    then show "p = q" by simp
  qed
  with d show keys: "distinct (map ce_key (map (ent h) ps))" by (simp add: distinct_map)
  show dom: "dom (map_of m) = ce_key ` set (map (ent h) ps)"
    using assms by (auto simp: repr_def dom_def)
  have "length m = card (set (map fst m))" using assms distinct_card [of "map fst m"] by (simp add: repr_def)
  also have "set (map fst m) = set (map ce_key (map (ent h) ps))" using dom by (simp add: dom_map_of_conv_image_fst image_image)
  also have "card \<dots> = length ps" using distinct_card [OF keys] by simp
  finally show "length m = length ps" .
qed

lemma repr_None: "repr h m ps \<Longrightarrow> map_of m k = None \<longleftrightarrow> find_entry k (map (ent h) ps) = None"
  by (metis domIff find_entry_None repr_keys(3))

lemma repr_Some:
  assumes r: "repr h m ps" and k: "map_of m k = Some p"
  obtains xs ys where "ps = xs @ p # ys" and "ce_key (ent h p) = k" and "h p \<noteq> None"
    and "find_entry k (map (ent h) ps) = Some (ent h p)"
    and "drop_key k (map (ent h) ps) = map (ent h) (xs @ ys)"
proof -
  from r k have p: "p \<in> set ps" "ce_key (ent h p) = k" by (auto simp: repr_def)
  then obtain xs ys where ps: "ps = xs @ p # ys" by (meson split_list)
  have keys: "distinct (map ce_key (map (ent h) ps))" by (rule repr_keys(1) [OF r])
  have "find_entry k (map (ent h) ps) = Some (ent h p)" using find_entry_Some [OF keys] p by auto
  moreover have "drop_key k (map (ent h) ps) = map (ent h) (xs @ ys)"
    using drop_key_split [of "map (ent h) xs" "ent h p" "map (ent h) ys" k] keys p ps by simp
  moreover have "h p \<noteq> None" using r p(1) by (auto simp: repr_def owned_def)
  ultimately show thesis using that ps p by blast
qed

section \<open>The representation under the pointer operations\<close>

lemma map_of_delete: "map_of (AList.delete k m) = (map_of m)(k := None)"
  by (simp add: AList.delete_conv')

lemma repr_unlink:
  assumes r: "repr h m (xs @ p # ys)"
  shows "\<exists>h1 h2. detach p h = Some h1 \<and> delete_node p h1 = Some h2
    \<and> repr h2 (AList.delete (ce_key (ent h p)) m) (xs @ ys) \<and> map (ent h2) (xs @ ys) = map (ent h) (xs @ ys)"
proof -
  let ?k = "ce_key (ent h p)"
  have o: "owned h (xs @ p # ys)" and d: "distinct (xs @ p # ys)" using r by (simp_all add: repr_def owned_def chain_def)
  from unlink_owned [OF o] obtain h1 h2 where h: "detach p h = Some h1" "delete_node p h1 = Some h2"
    "owned h2 (xs @ ys)" and e: "\<And>z. z \<in> set (xs @ ys) \<Longrightarrow> ent h2 z = ent h z" by blast
  have m: "\<And>k q. map_of m k = Some q \<longleftrightarrow> q \<in> set (xs @ p # ys) \<and> ce_key (ent h q) = k" using r by (simp add: repr_def)
  have "map_of (AList.delete ?k m) k = Some q \<longleftrightarrow> q \<in> set (xs @ ys) \<and> ce_key (ent h2 q) = k" for k q
  proof -
    have "map_of m ?k = Some p" using m by simp
    then have "q \<in> set (xs @ ys) \<Longrightarrow> ce_key (ent h q) \<noteq> ?k" using m [of ?k q] d by auto
    then show ?thesis using m [of k q] e [of q] by (auto simp: map_of_delete)
  qed
  then have "repr h2 (AList.delete ?k m) (xs @ ys)" using h(3) r by (simp add: repr_def distinct_delete)
  moreover have "map (ent h2) (xs @ ys) = map (ent h) (xs @ ys)" using e by simp
  ultimately show ?thesis using h by blast
qed

lemma repr_front:
  assumes r: "repr h m (xs @ p # ys)"
  shows "\<exists>h1 h2. detach p h = Some h1 \<and> attach_front p h1 = Some h2 \<and> repr h2 m (p # xs @ ys) \<and> ent h2 = ent h"
proof -
  have "owned h (xs @ p # ys)" using r by (simp add: repr_def)
  from move_front_owned [OF this] obtain h1 h2 where h: "detach p h = Some h1" "attach_front p h1 = Some h2"
    "owned h2 (p # xs @ ys)" "ent h2 = ent h" by blast
  have "repr h2 m (p # xs @ ys)" using r h(3,4) by (simp add: repr_def)
  with h show ?thesis by blast
qed

lemma repr_overwrite:
  assumes r: "repr h m ps" and p: "p \<in> set ps"
  shows "\<exists>h1. modify (Some p) (\<lambda>n. n\<lparr>ln_entry := (ln_entry n)\<lparr>ce_value := v, ce_expires_at := x\<rparr>\<rparr>) h = Some h1
    \<and> repr h1 m ps \<and> ent h1 = (ent h)(p := \<lparr>ce_key = ce_key (ent h p), ce_value = v, ce_expires_at = x\<rparr>)"
proof -
  from r have o: "owned h ps" by (simp add: repr_def)
  with p obtain n where n: "h p = Some n" by (auto simp: owned_def)
  let ?h = "h(p \<mapsto> n\<lparr>ln_entry := (ln_entry n)\<lparr>ce_value := v, ce_expires_at := x\<rparr>\<rparr>)"
  have e: "ent ?h = (ent h)(p := \<lparr>ce_key = ce_key (ent h p), ce_value = v, ce_expires_at = x\<rparr>)"
    using n by (auto simp: ent_def fun_eq_iff)
  have links: "nxt ?h = nxt h" "prv ?h = prv h" using n by (auto simp: nxt_def prv_def fun_eq_iff)
  have "linked ?h a qs b = linked h a qs b" for a qs b using links by (intro linked_cong) simp_all
  then have "owned ?h ps" using o n by (auto simp: owned_def chain_def)
  then have "repr ?h m ps" using r by (auto simp: repr_def e)
  with e modify_Some [of h p n] n show ?thesis by (metis (no_types, lifting))
qed

lemma repr_new:
  assumes r: "repr h m ps" and k: "map_of m (ce_key e) = None" and a: "h (Cell a) = None"
  shows "\<exists>h1 h2. new_node a e h = Some h1 \<and> attach_front (Cell a) h1 = Some h2
    \<and> repr h2 (AList.update (ce_key e) (Cell a) m) (Cell a # ps) \<and> map (ent h2) (Cell a # ps) = e # map (ent h) ps"
proof -
  have "owned h ps" using r by (simp add: repr_def)
  from new_front_owned [OF this a, of e] obtain h1 h2 where h: "new_node a e h = Some h1"
    "attach_front (Cell a) h1 = Some h2" "owned h2 (Cell a # ps)" and e: "ent h2 = (ent h)(Cell a := e)"
    and n: "Cell a \<notin> set ps" by blast
  have m: "\<And>k p. map_of m k = Some p \<longleftrightarrow> p \<in> set ps \<and> ce_key (ent h p) = k" using r by (simp add: repr_def)
  have "map_of (AList.update (ce_key e) (Cell a) m) k' = Some p \<longleftrightarrow> p \<in> set (Cell a # ps) \<and> ce_key (ent h2 p) = k'" for k' p
    using m [of k' p] n k m [of "ce_key e" p] by (auto simp: update_conv' e)
  then have "repr h2 (AList.update (ce_key e) (Cell a) m) (Cell a # ps)"
    using h(3) r by (simp add: repr_def distinct_update)
  moreover have "map (ent h2) (Cell a # ps) = e # map (ent h) ps" using n by (auto simp: e)
  ultimately show ?thesis using h(1,2) by metis
qed

section \<open>The operations\<close>

lemma spec_ok_drop: "spec_ok (abs_cache c ps) \<Longrightarrow> length (drop_key k (map (ent (lc_heap c)) ps)) \<le> lc_capacity c"
  by (auto simp: spec_ok_def abs_cache_def drop_key_def intro: order_trans [OF length_filter_le])

lemma distinct_drop_key: "distinct (map ce_key es) \<Longrightarrow> distinct (map ce_key (drop_key k es))"
  by (simp add: drop_key_def distinct_map_filter)

lemma spec_ok_get: "spec_ok s \<Longrightarrow> spec_ok (snd (spec_get now k s))"
proof -
  assume ok: "spec_ok s"
  show ?thesis
  proof (cases "find_entry k (sp_entries s)")
    case (Some e)
    have e: "e \<in> set (sp_entries s)" "ce_key e = k" using Some ok find_entry_Some by (auto simp: spec_ok_def)
    have "length (drop_key k (sp_entries s)) < length (sp_entries s)"
      using e by (auto simp: drop_key_def intro: length_filter_less)
    then show ?thesis using ok e set_drop_key [of k "sp_entries s"]
      by (auto simp: spec_get_def Let_def Some spec_ok_def distinct_drop_key)
  qed (use ok in \<open>simp add: spec_get_def Let_def spec_ok_def\<close>)
qed

lemma spec_ok_put: "spec_ok s \<Longrightarrow> spec_ok (spec_put now k v ttl s)"
proof -
  assume ok: "spec_ok s"
  show ?thesis
  proof (cases "find_entry k (sp_entries s)")
    case (Some e)
    have e: "e \<in> set (sp_entries s)" "ce_key e = k" using Some ok find_entry_Some by (auto simp: spec_ok_def)
    have "length (drop_key k (sp_entries s)) < length (sp_entries s)"
      using e by (auto simp: drop_key_def intro: length_filter_less)
    then show ?thesis using ok e set_drop_key [of k "sp_entries s"]
      by (auto simp: spec_put_def Let_def Some spec_ok_def distinct_drop_key)
  next
    case None
    then have k: "k \<notin> ce_key ` set (sp_entries s)" by (simp add: find_entry_None)
    then have "k \<notin> set (butlast (map ce_key (sp_entries s)))" by (auto dest!: in_set_butlastD)
    with k show ?thesis using ok None distinct_butlast [of "map ce_key (sp_entries s)"]
      by (auto simp: spec_put_def Let_def spec_ok_def map_butlast)
  qed
qed

lemma spec_ok_remove: "spec_ok s \<Longrightarrow> spec_ok (snd (spec_remove k s))"
  by (auto simp: spec_remove_def spec_ok_def distinct_map_filter drop_key_def intro: order_trans [OF length_filter_le])

lemma spec_ok_purge: "spec_ok s \<Longrightarrow> spec_ok (snd (spec_purge clock s))"
  by (auto simp: spec_purge_def Let_def spec_ok_def distinct_map_filter intro: order_trans [OF length_filter_le])

lemma spec_ok_clear: "spec_ok s \<Longrightarrow> spec_ok (spec_clear s)"
  by (simp add: spec_clear_def spec_ok_def)

lemma ent_Some: "h p = Some n \<Longrightarrow> ln_entry n = ent h p"
  by (simp add: ent_def)

lemma repr_alloc:
  assumes "repr h m ps" and "p \<in> set ps"
  obtains n where "h p = Some n" and "ln_entry n = ent h p"
proof -
  have "p \<in> dom h" using assms by (simp add: repr_def owned_def)
  then show thesis using that ent_Some [of h p] by blast
qed

lemma lru_get_refines:
  assumes "implements c s"
  shows "\<exists>c'. lru_get now k c = Some (fst (spec_get now k s), c') \<and> implements c' (snd (spec_get now k s))"
proof -
  from assms obtain ps where r: "repr (lc_heap c) (lc_map c) ps" and s: "s = abs_cache c ps" and ok: "spec_ok s"
    by (rule implementsE)
  have ok': "spec_ok (snd (spec_get now k s))" by (rule spec_ok_get [OF ok])
  show ?thesis
  proof (cases "map_of (lc_map c) k")
    case None
    then have "find_entry k (sp_entries s) = None" using repr_None [OF r] s by (simp add: abs_cache_def)
    with None r s ok' show ?thesis
      by (auto simp: lru_get_def spec_get_def Let_def abs_cache_def intro!: implementsI)
  next
    case (Some p)
    from repr_Some [OF r this] obtain xs ys where ps: "ps = xs @ p # ys" and key: "ce_key (ent (lc_heap c) p) = k"
      and hp: "lc_heap c p \<noteq> None" and f: "find_entry k (map (ent (lc_heap c)) ps) = Some (ent (lc_heap c) p)"
      and d: "drop_key k (map (ent (lc_heap c)) ps) = map (ent (lc_heap c)) (xs @ ys)" .
    from hp obtain n where n: "lc_heap c p = Some n" by blast
    have e: "ln_entry n = ent (lc_heap c) p" using n by (rule ent_Some)
    show ?thesis
    proof (cases "is_expired now (ent (lc_heap c) p)")
      case True
      from repr_unlink [OF r [unfolded ps]] key obtain h1 h2 where "detach p (lc_heap c) = Some h1"
        "delete_node p h1 = Some h2" "repr h2 (AList.delete k (lc_map c)) (xs @ ys)"
        "map (ent h2) (xs @ ys) = map (ent (lc_heap c)) (xs @ ys)" by auto
      with True Some n e f d s ok' show ?thesis
        by (auto simp: lru_get_def spec_get_def Let_def abs_cache_def intro!: implementsI [where ps = "xs @ ys"])
    next
      case False
      from repr_front [OF r [unfolded ps]] obtain h1 h2 where h: "detach p (lc_heap c) = Some h1"
        "attach_front p h1 = Some h2" "repr h2 (lc_map c) (p # xs @ ys)" "ent h2 = ent (lc_heap c)" by blast
      obtain n2 where "h2 p = Some n2" "ln_entry n2 = ent h2 p" using repr_alloc [OF h(3), of p] by auto
      with h False Some n e f d s ok' show ?thesis
        by (auto simp: lru_get_def spec_get_def Let_def abs_cache_def intro!: implementsI [where ps = "p # xs @ ys"])
    qed
  qed
qed

lemma last_before: "ps = xs @ [p] \<Longrightarrow> before Head ps = p"
  by (simp add: before_def)

lemma evict_lru_refines:
  assumes r: "repr (lc_heap c) (lc_map c) ps" and ps: "ps \<noteq> []"
  shows "\<exists>h m. evict_lru c = Some (c\<lparr>lc_heap := h, lc_map := m,
      lc_metrics := (lc_metrics c)\<lparr>evictions := evictions (lc_metrics c) + 1\<rparr>\<rparr>)
    \<and> repr h m (butlast ps) \<and> map (ent h) (butlast ps) = butlast (map (ent (lc_heap c)) ps)
    \<and> map_of m = (map_of (lc_map c))(ce_key (ent (lc_heap c) (last ps)) := None)"
proof -
  obtain xs p where split: "ps = xs @ [p]" using ps by (cases ps rule: rev_cases) auto
  have l: "linked (lc_heap c) Head ps Tail" and p: "p \<noteq> Head" and "Tail \<in> dom (lc_heap c)"
    using r split by (auto simp: repr_def owned_def chain_def)
  then obtain t where t: "lc_heap c Tail = Some t" "ln_prev t = Some p"
    using linked_before [OF l] last_before [OF split] by (auto simp: prv_def)
  obtain n where n: "lc_heap c p = Some n" "ln_entry n = ent (lc_heap c) p"
    using repr_alloc [OF r, of p] split by auto
  from repr_unlink [of "lc_heap c" "lc_map c" xs p "[]"] r split obtain h1 h2 where
    "detach p (lc_heap c) = Some h1" "delete_node p h1 = Some h2"
    "repr h2 (AList.delete (ce_key (ent (lc_heap c) p)) (lc_map c)) xs"
    "map (ent h2) xs = map (ent (lc_heap c)) xs" by auto
  with t n p split show ?thesis
    by (intro exI [of _ h2] exI [of _ "AList.delete (ce_key (ent (lc_heap c) p)) (lc_map c)"])
      (simp add: evict_lru_def map_of_delete)
qed

lemma lru_put_update_refines:
  assumes "implements c s" and k: "map_of (lc_map c) k = Some p"
  shows "\<exists>c'. lru_put alloc now k v ttl c = Some c' \<and> implements c' (spec_put now k v ttl s)"
proof -
  from assms obtain ps where r: "repr (lc_heap c) (lc_map c) ps" and s: "s = abs_cache c ps" and ok: "spec_ok s"
    by (blast elim: implementsE)
  let ?x = "expiry_of now (lc_default_ttl_s c) ttl"
  let ?e = "\<lparr>ce_key = k, ce_value = v, ce_expires_at = ?x\<rparr>"
  from repr_Some [OF r k] obtain xs ys where ps: "ps = xs @ p # ys" and key: "ce_key (ent (lc_heap c) p) = k"
    and f: "find_entry k (map (ent (lc_heap c)) ps) = Some (ent (lc_heap c) p)"
    and d: "drop_key k (map (ent (lc_heap c)) ps) = map (ent (lc_heap c)) (xs @ ys)" .
  have p: "p \<in> set ps" and dp: "p \<notin> set (xs @ ys)" using r ps by (auto simp: repr_def owned_def chain_def)
  from repr_overwrite [OF r p] key obtain h1 where h1: "modify (Some p)
      (\<lambda>n. n\<lparr>ln_entry := (ln_entry n)\<lparr>ce_value := v, ce_expires_at := ?x\<rparr>\<rparr>) (lc_heap c) = Some h1"
    "repr h1 (lc_map c) ps" "ent h1 = (ent (lc_heap c))(p := ?e)" by metis
  from repr_front [OF h1(2) [unfolded ps]] obtain h2 h3 where h3: "detach p h1 = Some h2" "attach_front p h2 = Some h3"
    "repr h3 (lc_map c) (p # xs @ ys)" "ent h3 = ent h1" by blast
  have "map (ent h3) (p # xs @ ys) = ?e # drop_key k (map (ent (lc_heap c)) ps)" using h1(3) h3(4) d dp by auto
  with k h1(1) h3 f s spec_ok_put [OF ok, of now k v ttl] show ?thesis
    by (auto simp: lru_put_def spec_put_def Let_def abs_cache_def count_put_def intro!: implementsI [where ps = "p # xs @ ys"])
qed

lemma lru_put_evict_refines:
  assumes "implements c s" and k: "map_of (lc_map c) k = None"
    and full: "length (lc_map c) \<ge> lc_capacity c" and alloc: "allocates (lc_capacity c) alloc"
  shows "\<exists>c'. lru_put alloc now k v ttl c = Some c' \<and> implements c' (spec_put now k v ttl s)"
proof -
  from assms obtain ps where r: "repr (lc_heap c) (lc_map c) ps" and s: "s = abs_cache c ps" and ok: "spec_ok s"
    by (blast elim: implementsE)
  let ?e = "\<lparr>ce_key = k, ce_value = v, ce_expires_at = expiry_of now (lc_default_ttl_s c) ttl\<rparr>"
  have f: "find_entry k (map (ent (lc_heap c)) ps) = None" using repr_None [OF r] k by simp
  have len: "length (lc_map c) = length ps" by (rule repr_keys(2) [OF r])
  have cap: "0 < lc_capacity c" "length ps \<le> lc_capacity c" using ok s by (simp_all add: spec_ok_def abs_cache_def)
  with full len have ne: "ps \<noteq> []" by auto
  from evict_lru_refines [OF r ne] obtain h m where ev: "evict_lru c = Some (c\<lparr>lc_heap := h, lc_map := m,
      lc_metrics := (lc_metrics c)\<lparr>evictions := evictions (lc_metrics c) + 1\<rparr>\<rparr>)"
    and r2: "repr h m (butlast ps)" and en: "map (ent h) (butlast ps) = butlast (map (ent (lc_heap c)) ps)"
    and m: "map_of m = (map_of (lc_map c))(ce_key (ent (lc_heap c) (last ps)) := None)" by blast
  have "h (Cell (alloc h)) = None" and "map_of m k = None"
    using alloc r2 cap ne k m by (auto simp: allocates_def repr_def)
  with repr_new [OF r2, of ?e "alloc h"] obtain h1 h2 where "new_node (alloc h) ?e h = Some h1"
    "attach_front (Cell (alloc h)) h1 = Some h2" "repr h2 (AList.update k (Cell (alloc h)) m) (Cell (alloc h) # butlast ps)"
    "map (ent h2) (Cell (alloc h) # butlast ps) = ?e # map (ent h) (butlast ps)" by auto
  with k full ev en f len s spec_ok_put [OF ok, of now k v ttl] show ?thesis
    by (auto simp: lru_put_def spec_put_def Let_def abs_cache_def count_put_def
        intro!: implementsI [where ps = "Cell (alloc h) # butlast ps"])
qed

lemma lru_put_insert_refines:
  assumes "implements c s" and k: "map_of (lc_map c) k = None"
    and room: "length (lc_map c) < lc_capacity c" and alloc: "allocates (lc_capacity c) alloc"
  shows "\<exists>c'. lru_put alloc now k v ttl c = Some c' \<and> implements c' (spec_put now k v ttl s)"
proof -
  from assms obtain ps where r: "repr (lc_heap c) (lc_map c) ps" and s: "s = abs_cache c ps" and ok: "spec_ok s"
    by (blast elim: implementsE)
  let ?e = "\<lparr>ce_key = k, ce_value = v, ce_expires_at = expiry_of now (lc_default_ttl_s c) ttl\<rparr>"
  let ?a = "alloc (lc_heap c)"
  have f: "find_entry k (map (ent (lc_heap c)) ps) = None" using repr_None [OF r] k by simp
  have len: "length (lc_map c) = length ps" by (rule repr_keys(2) [OF r])
  have "lc_heap c (Cell ?a) = None" using alloc r room len by (auto simp: allocates_def repr_def)
  with repr_new [OF r, of ?e ?a] k obtain h1 h2 where "new_node ?a ?e (lc_heap c) = Some h1"
    "attach_front (Cell ?a) h1 = Some h2" "repr h2 (AList.update k (Cell ?a) (lc_map c)) (Cell ?a # ps)"
    "map (ent h2) (Cell ?a # ps) = ?e # map (ent (lc_heap c)) ps" by auto
  with k room f len s spec_ok_put [OF ok, of now k v ttl] show ?thesis
    by (auto simp: lru_put_def spec_put_def Let_def abs_cache_def count_put_def
        intro!: implementsI [where ps = "Cell ?a # ps"])
qed

lemma lru_put_refines:
  assumes "implements c s" and "allocates (lc_capacity c) alloc"
  shows "\<exists>c'. lru_put alloc now k v ttl c = Some c' \<and> implements c' (spec_put now k v ttl s)"
  using lru_put_update_refines lru_put_evict_refines lru_put_insert_refines assms
  by (cases "map_of (lc_map c) k"; cases "length (lc_map c) < lc_capacity c"; simp add: not_less)

lemma lru_remove_refines:
  assumes "implements c s"
  shows "\<exists>c'. lru_remove k c = Some (fst (spec_remove k s), c') \<and> implements c' (snd (spec_remove k s))"
proof -
  from assms obtain ps where r: "repr (lc_heap c) (lc_map c) ps" and s: "s = abs_cache c ps" and ok: "spec_ok s"
    by (rule implementsE)
  have ok': "spec_ok (snd (spec_remove k s))" by (rule spec_ok_remove [OF ok])
  show ?thesis
  proof (cases "map_of (lc_map c) k")
    case None
    then have "find_entry k (sp_entries s) = None" using repr_None [OF r] s by (simp add: abs_cache_def)
    with None assms show ?thesis by (simp add: lru_remove_def spec_remove_def)
  next
    case (Some p)
    from repr_Some [OF r this] obtain xs ys where ps: "ps = xs @ p # ys" and key: "ce_key (ent (lc_heap c) p) = k"
      and f: "find_entry k (map (ent (lc_heap c)) ps) = Some (ent (lc_heap c) p)"
      and d: "drop_key k (map (ent (lc_heap c)) ps) = map (ent (lc_heap c)) (xs @ ys)" .
    from repr_unlink [OF r [unfolded ps]] key obtain h1 h2 where "detach p (lc_heap c) = Some h1"
      "delete_node p h1 = Some h2" "repr h2 (AList.delete k (lc_map c)) (xs @ ys)"
      "map (ent h2) (xs @ ys) = map (ent (lc_heap c)) (xs @ ys)" by auto
    with Some f d s ok' show ?thesis
      by (auto simp: lru_remove_def spec_remove_def abs_cache_def intro!: implementsI [where ps = "xs @ ys"])
  qed
qed

end
