(* ===== verification/Lru_Walks.thy ===== *)
theory Lru_Walks
  imports Lru_Refine
begin

text \<open>
  The loops of the LRU cache that walk the list: \<open>purge_expired\<close>, \<open>snapshot\<close>, \<open>clear\<close> and the
  destructor. Each ends, because the list is finite and the loop reads the next pointer before it
  frees the cell it stands on, and each refines the abstract operation.
\<close>

lemma repr_next:
  assumes "repr h m (xs @ p # ys)"
  obtains n where "h p = Some n" and "ln_entry n = ent h p" and "ln_next n = Some (after ys Tail)" and "p \<noteq> Tail"
proof -
  have c: "chain h (xs @ p # ys)" using assms by (simp add: repr_def owned_def)
  from chain_split(1) [OF c] chain_parts(12) [OF c] that ent_Some show thesis by blast
qed

lemma repr_first:
  assumes "repr h m ps"
  shows "first_node h = Some (after ps Tail)"
proof -
  have "linked h Head ps Tail" and "Head \<in> dom h" using assms by (auto simp: repr_def owned_def chain_def)
  then show ?thesis using linked_after [of h Head ps Tail] by (auto simp: first_node_def nxt_def)
qed

section \<open>Purging\<close>

lemma purge_loop_refines:
  assumes "repr (lc_heap c) (lc_map c) (xs @ qs)"
  shows "\<exists>c'. purge_loop clock (after qs Tail) n c
        = Some (n + length (filter (\<lambda>q. \<not> live_entry clock (ent (lc_heap c) q)) qs), c')
    \<and> repr (lc_heap c') (lc_map c') (xs @ filter (\<lambda>q. live_entry clock (ent (lc_heap c) q)) qs)
    \<and> map (ent (lc_heap c')) (xs @ filter (\<lambda>q. live_entry clock (ent (lc_heap c) q)) qs)
      = map (ent (lc_heap c)) (xs @ filter (\<lambda>q. live_entry clock (ent (lc_heap c) q)) qs)
    \<and> lc_capacity c' = lc_capacity c \<and> lc_default_ttl_s c' = lc_default_ttl_s c
    \<and> lc_metrics c' = (lc_metrics c)\<lparr>expirations := expirations (lc_metrics c)
        + of_nat (length (filter (\<lambda>q. \<not> live_entry clock (ent (lc_heap c) q)) qs))\<rparr>"
  using assms
proof (induction qs arbitrary: xs n c)
  case Nil
  then show ?case by (simp add: purge_loop.simps)
next
  case (Cons q qs)
  from repr_next [OF Cons.prems] obtain nd where q: "lc_heap c q = Some nd" "ln_entry nd = ent (lc_heap c) q"
    "ln_next nd = Some (after qs Tail)" "q \<noteq> Tail" .
  show ?case
  proof (cases "live_entry clock (ent (lc_heap c) q)")
    case True
    with q have "purge_loop clock (after (q # qs) Tail) n c = purge_loop clock (after qs Tail) n c"
      by (simp add: live_entry_def purge_loop.simps [of clock q])
    with True Cons.IH [of c "xs @ [q]" n] Cons.prems show ?thesis by simp
  next
    case False
    from repr_unlink [OF Cons.prems] obtain h1 h2 where h: "detach q (lc_heap c) = Some h1"
      "delete_node q h1 = Some h2" "repr h2 (AList.delete (ce_key (ent (lc_heap c) q)) (lc_map c)) (xs @ qs)"
      and same: "\<And>z. z \<in> set (xs @ qs) \<Longrightarrow> ent h2 z = ent (lc_heap c) z" by auto
    let ?c = "c\<lparr>lc_heap := h2, lc_map := AList.delete (ce_key (ent (lc_heap c) q)) (lc_map c),
      lc_metrics := (lc_metrics c)\<lparr>expirations := expirations (lc_metrics c) + 1\<rparr>\<rparr>"
    have step: "purge_loop clock (after (q # qs) Tail) n c = purge_loop clock (after qs Tail) (n + 1) ?c"
      using q h(1,2) False by (simp add: live_entry_def purge_loop.simps [of clock q])
    have eq: "filter (\<lambda>z. live_entry clock (ent h2 z)) qs = filter (\<lambda>z. live_entry clock (ent (lc_heap c) z)) qs"
      "filter (\<lambda>z. \<not> live_entry clock (ent h2 z)) qs = filter (\<lambda>z. \<not> live_entry clock (ent (lc_heap c) z)) qs"
      using same by (auto intro: filter_cong)
    have keep: "map (ent h2) (xs @ filter (\<lambda>z. live_entry clock (ent (lc_heap c) z)) qs)
        = map (ent (lc_heap c)) (xs @ filter (\<lambda>z. live_entry clock (ent (lc_heap c) z)) qs)" using same by auto
    from Cons.IH [of ?c xs "n + 1"] h(3) obtain c' where
      "purge_loop clock (after qs Tail) (n + 1) ?c = Some (n + 1 + length (filter (\<lambda>z. \<not> live_entry clock (ent (lc_heap c) z)) qs), c')"
      "repr (lc_heap c') (lc_map c') (xs @ filter (\<lambda>z. live_entry clock (ent (lc_heap c) z)) qs)"
      "map (ent (lc_heap c')) (xs @ filter (\<lambda>z. live_entry clock (ent (lc_heap c) z)) qs)
        = map (ent h2) (xs @ filter (\<lambda>z. live_entry clock (ent (lc_heap c) z)) qs)"
      "lc_capacity c' = lc_capacity c" "lc_default_ttl_s c' = lc_default_ttl_s c"
      "lc_metrics c' = (lc_metrics ?c)\<lparr>expirations := expirations (lc_metrics ?c)
        + of_nat (length (filter (\<lambda>z. \<not> live_entry clock (ent (lc_heap c) z)) qs))\<rparr>"
      by (auto simp: eq)
    with False step keep show ?thesis by (intro exI [of _ c']) (simp add: algebra_simps)
  qed
qed

lemma filter_map_live:
  "filter (live_entry clock) (map f qs) = map f (filter (\<lambda>q. live_entry clock (f q)) qs)"
  "length (filter (\<lambda>e. \<not> live_entry clock e) (map f qs)) = length (filter (\<lambda>q. \<not> live_entry clock (f q)) qs)"
  by (simp_all add: filter_map comp_def)

lemma lru_purge_refines:
  assumes "implements c s"
  shows "\<exists>c'. lru_purge_expired clock c = Some (fst (spec_purge clock s), c') \<and> implements c' (snd (spec_purge clock s))"
proof -
  from assms obtain ps where r: "repr (lc_heap c) (lc_map c) ps" and s: "s = abs_cache c ps" and ok: "spec_ok s"
    by (rule implementsE)
  let ?live = "filter (\<lambda>q. live_entry clock (ent (lc_heap c) q)) ps"
  let ?n = "length (filter (\<lambda>q. \<not> live_entry clock (ent (lc_heap c) q)) ps)"
  from purge_loop_refines [of c "[]" ps clock 0] r obtain c' where c': "purge_loop clock (after ps Tail) 0 c = Some (?n, c')"
    "repr (lc_heap c') (lc_map c') ?live" "map (ent (lc_heap c')) ?live = map (ent (lc_heap c)) ?live"
    "lc_capacity c' = lc_capacity c" "lc_default_ttl_s c' = lc_default_ttl_s c"
    "lc_metrics c' = (lc_metrics c)\<lparr>expirations := expirations (lc_metrics c) + of_nat ?n\<rparr>" by auto
  have "lru_purge_expired clock c = Some (fst (spec_purge clock s), c')"
    using c'(1) repr_first [OF r] s by (simp add: lru_purge_expired_def spec_purge_def Let_def abs_cache_def filter_map comp_def)
  moreover have "snd (spec_purge clock s) = abs_cache c' ?live"
    using c'(3-6) s by (simp only: spec_purge_def Let_def abs_cache_def filter_map_live snd_conv lru_spec.simps)
  ultimately show ?thesis using c'(2) spec_ok_purge [OF ok, of clock] by (auto intro: implementsI)
qed

section \<open>Snapshot\<close>

lemma snapshot_loop_refines:
  "repr h m (xs @ qs) \<Longrightarrow>
   snapshot_loop now clock h (after qs Tail) = Some (map (row_of now) (filter (live_entry clock) (map (ent h) qs)))"
proof (induction qs arbitrary: xs)
  case (Cons q qs)
  from repr_next [OF Cons.prems] obtain nd where "h q = Some nd" "ln_entry nd = ent h q"
    "ln_next nd = Some (after qs Tail)" "q \<noteq> Tail" .
  then show ?case using Cons.IH [of "xs @ [q]"] Cons.prems
    by (simp add: snapshot_loop.simps [of now clock h q] live_entry_def row_of_def Let_def)
qed (simp add: snapshot_loop.simps)

lemma lru_snapshot_refines:
  assumes "implements c s"
  shows "lru_snapshot now clock c = Some (spec_snapshot now clock s)"
proof -
  from assms obtain ps where r: "repr (lc_heap c) (lc_map c) ps" and s: "s = abs_cache c ps" by (rule implementsE)
  then show ?thesis using repr_first [OF r] snapshot_loop_refines [of "lc_heap c" "lc_map c" "[]" ps now clock]
    by (simp add: lru_snapshot_def spec_snapshot_def abs_cache_def)
qed

section \<open>Freeing the list\<close>

text \<open>The walk frees the cells in order, so it reads the forward link of a cell not yet freed.\<close>

fun forward :: "heap \<Rightarrow> ptr list \<Rightarrow> bool" where
  "forward h [] \<longleftrightarrow> True"
| "forward h (p # ps) \<longleftrightarrow> p \<in> range Cell \<and> nxt h p = Some (after ps Tail) \<and> forward h ps"

lemma forward_cong: "(\<And>p. p \<in> set ps \<Longrightarrow> nxt h' p = nxt h p) \<Longrightarrow> forward h' ps = forward h ps"
  by (induction ps) auto

lemma linked_forward: "linked h x ps Tail \<Longrightarrow> set ps \<subseteq> range Cell \<Longrightarrow> forward h ps"
  by (induction ps arbitrary: x) (auto dest: linked_after)

lemma free_loop_frees:
  "forward h ps \<Longrightarrow> distinct ps \<Longrightarrow> free_loop (after ps Tail) h = Some (\<lambda>p. if p \<in> set ps then None else h p)"
proof (induction ps arbitrary: h)
  case (Cons p ps)
  then obtain n a where p: "h p = Some n" "ln_next n = Some (after ps Tail)" "p = Cell a"
    by (auto simp: nxt_def split: option.splits)
  have "nxt (h(p := None)) q = nxt h q" if "q \<in> set ps" for q using that Cons.prems(2) by (auto simp: nxt_def)
  then have "forward (h(p := None)) ps" using Cons.prems(1) forward_cong [of ps "h(p := None)" h] by simp
  then have "free_loop (after ps Tail) (h(p := None)) = Some (\<lambda>q. if q \<in> set ps then None else (h(p := None)) q)"
    using Cons.prems(2) by (intro Cons.IH) (assumption, simp)
  moreover have "(\<lambda>q. if q \<in> set ps then None else (h(p := None)) q) = (\<lambda>q. if q \<in> set (p # ps) then None else h q)"
    by (auto simp: fun_eq_iff)
  ultimately show ?case using p by (simp add: free_loop.simps [of "Cell a" h] delete_node_def)
qed (simp add: free_loop.simps)

lemma free_owned:
  assumes "owned h ps"
  shows "free_loop (after ps Tail) h = Some (\<lambda>p. if p \<in> set ps then None else h p)"
  using assms linked_forward [of h Head ps] by (auto simp: owned_def chain_def intro!: free_loop_frees)

lemma repr_empty: "repr sentinels [] []"
  by (auto simp: repr_def owned_def chain_def sentinels_def nxt_def prv_def)

text \<open>After the walk only the sentinels remain, and \<open>clear\<close> links them again.\<close>

lemma freed_dom: "owned h ps \<Longrightarrow> dom (\<lambda>p. if p \<in> set ps then None else h p) = {Head, Tail}"
  by (auto simp: owned_def chain_def dom_def split: if_splits)

lemma lru_clear_refines:
  assumes "implements c s"
  shows "\<exists>c'. lru_clear c = Some c' \<and> implements c' (spec_clear s)"
proof -
  from assms obtain ps where r: "repr (lc_heap c) (lc_map c) ps" and s: "s = abs_cache c ps" and ok: "spec_ok s"
    by (rule implementsE)
  have o: "owned (lc_heap c) ps" using r by (simp add: repr_def)
  let ?h = "\<lambda>p. if p \<in> set ps then None else lc_heap c p"
  have dom: "dom ?h = {Head, Tail}" by (rule freed_dom [OF o])
  then have "Head \<in> dom ?h" and "Tail \<in> dom ?h" by blast+
  then obtain a b where ab: "?h Head = Some a" "?h Tail = Some b" by blast
  let ?h2 = "?h(Head \<mapsto> a\<lparr>ln_next := Some Tail\<rparr>, Tail \<mapsto> b\<lparr>ln_prev := Some Head\<rparr>)"
  have "lru_clear c = Some (c\<lparr>lc_heap := ?h2, lc_map := []\<rparr>)"
    using repr_first [OF r] free_owned [OF o] modify_Some [of ?h Head a, OF ab(1)] ab(2)
    by (simp add: lru_clear_def modify_Some)
  moreover have "dom ?h2 = {Head, Tail}" using dom by (simp add: insert_commute)
  then have "repr ?h2 [] []" by (auto simp: repr_def owned_def chain_def nxt_def prv_def)
  moreover have "spec_clear s = abs_cache (c\<lparr>lc_heap := ?h2, lc_map := []\<rparr>) []"
    using s by (simp add: spec_clear_def abs_cache_def)
  ultimately show ?thesis using spec_ok_clear [OF ok] by (auto intro: implementsI)
qed

lemma lru_destroy_frees:
  assumes "implements c s"
  shows "\<exists>h. lru_destroy c = Some h \<and> dom h = {Head, Tail}"
proof -
  from assms obtain ps where r: "repr (lc_heap c) (lc_map c) ps" by (rule implementsE)
  then have o: "owned (lc_heap c) ps" by (simp add: repr_def)
  show ?thesis using repr_first [OF r] free_owned [OF o] freed_dom [OF o] by (simp add: lru_destroy_def)
qed

section \<open>Reading without reordering\<close>

lemma lru_contains_refines:
  assumes "implements c s"
  shows "lru_contains now k c = Some (case find_entry k (sp_entries s) of None \<Rightarrow> False | Some e \<Rightarrow> \<not> is_expired now e)"
proof -
  from assms obtain ps where r: "repr (lc_heap c) (lc_map c) ps" and s: "s = abs_cache c ps" by (rule implementsE)
  show ?thesis
  proof (cases "map_of (lc_map c) k")
    case None
    with repr_None [OF r, of k] s show ?thesis by (simp add: lru_contains_def abs_cache_def)
  next
    case (Some p)
    from repr_Some [OF r this] have f: "find_entry k (map (ent (lc_heap c)) ps) = Some (ent (lc_heap c) p)"
      and "lc_heap c p \<noteq> None" by blast+
    then obtain n where "lc_heap c p = Some n" "ln_entry n = ent (lc_heap c) p" using ent_Some [of "lc_heap c" p] by blast
    with Some f s show ?thesis by (simp add: lru_contains_def abs_cache_def)
  qed
qed

lemma lru_size_refines: "implements c s \<Longrightarrow> lru_size c = length (sp_entries s)"
  using repr_keys(2) by (auto simp: implements_def lru_size_def abs_cache_def)

lemma keys_loop_filter:
  "(\<And>k p. (k, p) \<in> set m \<Longrightarrow> h p \<noteq> None) \<Longrightarrow>
   keys_loop clock h m = Some (map fst (filter (\<lambda>(k, p). \<not> is_expired (clock k) (ent h p)) m))"
proof (induction m)
  case (Cons kp m)
  obtain k p where kp: "kp = (k, p)" by (cases kp)
  with Cons.prems [of k p] obtain n where "h p = Some n" "ln_entry n = ent h p" using ent_Some [of h p] by auto
  with Cons.IH Cons.prems kp show ?case by fastforce
qed simp

lemma lru_keys_refines:
  assumes "implements c s"
  shows "\<exists>ks. lru_keys clock c = Some ks \<and> distinct ks \<and> set ks = ce_key ` set (filter (live_entry clock) (sp_entries s))"
proof -
  from assms obtain ps where r: "repr (lc_heap c) (lc_map c) ps" and s: "s = abs_cache c ps" by (rule implementsE)
  let ?m = "lc_map c" and ?h = "lc_heap c"
  have d: "distinct (map fst ?m)" and o: "owned ?h ps"
    and m: "\<And>k p. map_of ?m k = Some p \<longleftrightarrow> p \<in> set ps \<and> ce_key (ent ?h p) = k" using r by (auto simp: repr_def)
  have mem: "(k, p) \<in> set ?m \<longleftrightarrow> p \<in> set ps \<and> ce_key (ent ?h p) = k" for k p using m d by simp
  have "lru_keys clock c = Some (map fst (filter (\<lambda>(k, p). \<not> is_expired (clock k) (ent ?h p)) ?m))"
    unfolding lru_keys_def using mem o by (intro keys_loop_filter) (auto simp: owned_def dom_def)
  moreover have "set (map fst (filter (\<lambda>(k, p). \<not> is_expired (clock k) (ent ?h p)) ?m))
      = ce_key ` set (filter (live_entry clock) (sp_entries s))"
    using s by (force simp: mem live_entry_def abs_cache_def image_iff)
  ultimately show ?thesis using d by (auto simp: distinct_map_filter)
qed

section \<open>Construction and bulk load\<close>

definition new_spec :: "nat \<Rightarrow> 32 word \<Rightarrow> lru_spec" where
  "new_spec n ttl = \<lparr>sp_capacity = n, sp_ttl = ttl, sp_entries = [], sp_metrics = CacheMetrics\<rparr>"

lemma LRUCache_refines: "LRUCache n ttl = Inr c \<Longrightarrow> implements c (new_spec n ttl)"
  using repr_empty by (auto simp: LRUCache_def new_spec_def abs_cache_def spec_ok_def split: if_splits intro!: implementsI [where ps = "[]"])

fun spec_load :: "(nat \<Rightarrow> ns) \<Rightarrow> nat \<Rightarrow> snapshot_row list \<Rightarrow> lru_spec \<Rightarrow> lru_spec" where
  "spec_load clock i [] s = s"
| "spec_load clock i ((k, v, ttl) # rows) s = spec_load clock (Suc i) rows (spec_put (clock i) k v ttl s)"

lemma implements_capacity: "implements c s \<Longrightarrow> lc_capacity c = sp_capacity s"
  by (auto simp: implements_def abs_cache_def)

lemma spec_put_capacity [simp]: "sp_capacity (spec_put now k v ttl s) = sp_capacity s"
  and spec_put_ttl [simp]: "sp_ttl (spec_put now k v ttl s) = sp_ttl s"
  by (simp_all add: spec_put_def Let_def)

lemma bulk_loop_refines:
  "implements c s \<Longrightarrow> allocates (lc_capacity c) alloc \<Longrightarrow>
   \<exists>c'. bulk_loop alloc clock i rows c = Some c' \<and> implements c' (spec_load clock i rows s)"
proof (induction rows arbitrary: i c s)
  case (Cons row rows)
  obtain k v ttl where row: "row = (k, v, ttl)" by (cases row)
  from lru_put_refines [OF Cons.prems, of "clock i" k v ttl] obtain c1 where c1:
    "lru_put alloc (clock i) k v ttl c = Some c1" "implements c1 (spec_put (clock i) k v ttl s)" by blast
  have "allocates (lc_capacity c1) alloc"
    using Cons.prems implements_capacity [OF c1(2)] implements_capacity [OF Cons.prems(1)] by simp
  from Cons.IH [OF c1(2) this, of "Suc i"] c1(1) row show ?case by simp
qed simp

end
