(* ===== verification/Machine_Runs.thy ===== *)
theory Machine_Runs
  imports Main "HOL-Library.Monad_Syntax"
begin

text \<open>
  Refinement of one machine by another, over lists of operations: the concrete step may fail, the
  abstract one may not, and an operation may be legal in some abstract states only. The locale
  \<open>simulation\<close> takes the obligation for one step and gives the one for runs; the LRU cache and the
  whole system interpret it.
\<close>

text \<open>Running a list of operations, on a step that may fail and on one that may not.\<close>

fun run_with :: "('op \<Rightarrow> 'c \<Rightarrow> ('r \<times> 'c) option) \<Rightarrow> 'op list \<Rightarrow> 'c \<Rightarrow> ('r list \<times> 'c) option" where
  "run_with stp [] c = Some ([], c)"
| "run_with stp (op # ops) c = do {
     (r, c1) \<leftarrow> stp op c;
     (rs, c2) \<leftarrow> run_with stp ops c1;
     Some (r # rs, c2)
   }"

fun run_spec :: "('op \<Rightarrow> 'a \<Rightarrow> 'r \<times> 'a) \<Rightarrow> 'op list \<Rightarrow> 'a \<Rightarrow> 'r list \<times> 'a" where
  "run_spec stp [] s = ([], s)"
| "run_spec stp (op # ops) s =
     (let (r, s1) = stp op s; (rs, s2) = run_spec stp ops s1 in (r # rs, s2))"

text \<open>Every operation of the run is legal where it happens.\<close>

fun legal_run :: "('op \<Rightarrow> 'a \<Rightarrow> 'r \<times> 'a) \<Rightarrow> ('op \<Rightarrow> 'a \<Rightarrow> bool) \<Rightarrow> 'op list \<Rightarrow> 'a \<Rightarrow> bool" where
  "legal_run stp legal [] s \<longleftrightarrow> True"
| "legal_run stp legal (op # ops) s \<longleftrightarrow> legal op s \<and> legal_run stp legal ops (snd (stp op s))"

lemma legal_run_True [simp]: "legal_run stp (\<lambda>op s. True) ops s"
  by (induction ops arbitrary: s) simp_all

lemma run_spec_append:
  "run_spec stp (ops @ ops') s = (fst (run_spec stp ops s) @ fst (run_spec stp ops' (snd (run_spec stp ops s))),
    snd (run_spec stp ops' (snd (run_spec stp ops s))))"
  by (induction ops arbitrary: s) (simp_all add: case_prod_beta Let_def)

text \<open>An implementation whose every step does what the specification does: so does every run.\<close>

locale simulation =
  fixes conc :: "'op \<Rightarrow> 'c \<Rightarrow> ('r \<times> 'c) option"
    and spec :: "'op \<Rightarrow> 'a \<Rightarrow> 'r \<times> 'a"
    and rel :: "'c \<Rightarrow> 'a \<Rightarrow> bool"
    and legal :: "'op \<Rightarrow> 'a \<Rightarrow> bool"
  assumes step: "rel c s \<Longrightarrow> legal op s \<Longrightarrow> \<exists>c'. conc op c = Some (fst (spec op s), c') \<and> rel c' (snd (spec op s))"
begin

lemma run:
  "rel c s \<Longrightarrow> legal_run spec legal ops s \<Longrightarrow>
   \<exists>c'. run_with conc ops c = Some (fst (run_spec spec ops s), c') \<and> rel c' (snd (run_spec spec ops s))"
proof (induction ops arbitrary: c s)
  case (Cons op ops)
  then obtain c1 where c1: "conc op c = Some (fst (spec op s), c1)" "rel c1 (snd (spec op s))"
    using step [of c s op] by auto
  from Cons.IH [OF c1(2)] Cons.prems(2) c1(1) show ?case by (auto simp: case_prod_beta Let_def)
qed simp

lemma run_total: "rel c s \<Longrightarrow> legal_run spec legal ops s \<Longrightarrow> run_with conc ops c \<noteq> None"
  using run by force

end

end
