(* ===== verification/Lru_Runs.thy ===== *)
theory Lru_Runs
  imports Lru_Walks Machine_Runs
begin

text \<open>
  Sequences of operations on one LRU cache, in the order its mutex serialises them, and what they
  promise: the whole run refines the abstract cache, a hit is never stale, a key stays cached until
  \<open>capacity\<close> other keys were used, and a snapshot carries the live entries to another node.
\<close>

section \<open>Runs\<close>

datatype lru_op =
  Get ns string
| Put ns string string "32 word"
| Remove string
| Purge "string \<Rightarrow> ns"
| Clear
| Contains ns string
| Snapshot ns "string \<Rightarrow> ns"
| Load "nat \<Rightarrow> ns" "snapshot_row list"

datatype lru_result =
  Got "string option" | Done | Removed bool | Purged nat | Held bool | Rows "snapshot_row list"

fun lru_step :: "allocator \<Rightarrow> lru_op \<Rightarrow> lru_cache \<Rightarrow> (lru_result \<times> lru_cache) option" where
  "lru_step alloc (Get now k) c = do { (r, c') \<leftarrow> lru_get now k c; Some (Got r, c') }"
| "lru_step alloc (Put now k v ttl) c = do { c' \<leftarrow> lru_put alloc now k v ttl c; Some (Done, c') }"
| "lru_step alloc (Remove k) c = do { (r, c') \<leftarrow> lru_remove k c; Some (Removed r, c') }"
| "lru_step alloc (Purge clock) c = do { (n, c') \<leftarrow> lru_purge_expired clock c; Some (Purged n, c') }"
| "lru_step alloc Clear c = do { c' \<leftarrow> lru_clear c; Some (Done, c') }"
| "lru_step alloc (Contains now k) c = do { b \<leftarrow> lru_contains now k c; Some (Held b, c) }"
| "lru_step alloc (Snapshot now clock) c = do { rows \<leftarrow> lru_snapshot now clock c; Some (Rows rows, c) }"
| "lru_step alloc (Load clock rows) c = do { c' \<leftarrow> lru_bulk_load alloc clock rows c; Some (Done, c') }"

fun spec_step :: "lru_op \<Rightarrow> lru_spec \<Rightarrow> lru_result \<times> lru_spec" where
  "spec_step (Get now k) s = map_prod Got id (spec_get now k s)"
| "spec_step (Put now k v ttl) s = (Done, spec_put now k v ttl s)"
| "spec_step (Remove k) s = map_prod Removed id (spec_remove k s)"
| "spec_step (Purge clock) s = map_prod Purged id (spec_purge clock s)"
| "spec_step Clear s = (Done, spec_clear s)"
| "spec_step (Contains now k) s =
     (Held (case find_entry k (sp_entries s) of None \<Rightarrow> False | Some e \<Rightarrow> \<not> is_expired now e), s)"
| "spec_step (Snapshot now clock) s = (Rows (spec_snapshot now clock s), s)"
| "spec_step (Load clock rows) s = (Done, spec_load clock 0 rows s)"

definition lru_run :: "allocator \<Rightarrow> lru_op list \<Rightarrow> lru_cache \<Rightarrow> (lru_result list \<times> lru_cache) option" where
  "lru_run alloc = run_with (lru_step alloc)"

abbreviation spec_run :: "lru_op list \<Rightarrow> lru_spec \<Rightarrow> lru_result list \<times> lru_spec" where
  "spec_run \<equiv> run_spec spec_step"

section \<open>Refinement of runs\<close>

lemma spec_load_capacity [simp]:
  "sp_capacity (spec_load clock i rows s) = sp_capacity s" "sp_ttl (spec_load clock i rows s) = sp_ttl s"
  by (induction rows arbitrary: i s) auto

lemma spec_step_capacity: "sp_capacity (snd (spec_step op s)) = sp_capacity s"
  and spec_step_ttl: "sp_ttl (snd (spec_step op s)) = sp_ttl s"
  by (cases op; simp add: spec_get_def spec_remove_def spec_purge_def spec_clear_def Let_def split: option.splits)+

lemma lru_step_refines:
  assumes i: "implements c s" and a: "allocates (lc_capacity c) alloc"
  shows "\<exists>c'. lru_step alloc op c = Some (fst (spec_step op s), c') \<and> implements c' (snd (spec_step op s))"
proof (cases op)
  case (Get now k)
  with lru_get_refines [OF i, of now k] show ?thesis by auto
next
  case (Put now k v ttl)
  with lru_put_refines [OF i a, of now k v ttl] show ?thesis by auto
next
  case (Remove k)
  with lru_remove_refines [OF i, of k] show ?thesis by auto
next
  case (Purge clock)
  with lru_purge_refines [OF i, of clock] show ?thesis by auto
next
  case Clear
  with lru_clear_refines [OF i] show ?thesis by auto
next
  case (Contains now k)
  with lru_contains_refines [OF i, of now k] i show ?thesis by auto
next
  case (Snapshot now clock)
  with lru_snapshot_refines [OF i, of now clock] i show ?thesis by auto
next
  case (Load clock rows)
  with bulk_loop_refines [OF i a, of clock 0 rows] show ?thesis by (auto simp: lru_bulk_load_def)
qed

lemma lru_step_capacity:
  assumes "implements c s" and "implements c' (snd (spec_step op s))"
  shows "lc_capacity c' = lc_capacity c"
  using implements_capacity [OF assms(1)] implements_capacity [OF assms(2)] by (simp add: spec_step_capacity)

interpretation lru: simulation "lru_step alloc" spec_step "\<lambda>c s. implements c s \<and> allocates (lc_capacity c) alloc"
    "\<lambda>op s. True"
  for alloc
proof
  fix c s op assume c: "implements c s \<and> allocates (lc_capacity c) alloc"
  then obtain c' where c': "lru_step alloc op c = Some (fst (spec_step op s), c')" "implements c' (snd (spec_step op s))"
    using lru_step_refines [of c s alloc op] by blast
  with c lru_step_capacity [of c s c' op] show "\<exists>c'. lru_step alloc op c = Some (fst (spec_step op s), c')
    \<and> implements c' (snd (spec_step op s)) \<and> allocates (lc_capacity c') alloc" by auto
qed

lemma lru_run_refines:
  "implements c s \<Longrightarrow> allocates (lc_capacity c) alloc \<Longrightarrow>
   \<exists>c'. lru_run alloc ops c = Some (fst (spec_run ops s), c') \<and> implements c' (snd (spec_run ops s))"
  using lru.run [of c s alloc ops] by (auto simp: lru_run_def)

lemmas spec_run_append = run_spec_append [where stp = spec_step]

lemma spec_run_capacity: "sp_capacity (snd (spec_run ops s)) = sp_capacity s"
  and spec_run_ttl: "sp_ttl (snd (spec_run ops s)) = sp_ttl s"
  by (induction ops arbitrary: s) (simp_all add: case_prod_beta Let_def spec_step_capacity spec_step_ttl)

lemma new_run_refines:
  assumes "LRUCache n ttl = Inr c0" and "allocates n alloc"
  shows "\<exists>c. lru_run alloc ops c0 = Some (fst (spec_run ops (new_spec n ttl)), c)
    \<and> implements c (snd (spec_run ops (new_spec n ttl)))"
proof -
  have i: "implements c0 (new_spec n ttl)" by (rule LRUCache_refines [OF assms(1)])
  moreover have "lc_capacity c0 = n" using implements_capacity [OF i] by (simp add: new_spec_def)
  ultimately show ?thesis using lru_run_refines assms(2) by blast
qed

section \<open>A first-fit allocator\<close>

text \<open>The allocators the theorems speak of exist: take the first free address below \<open>n\<close>.\<close>

definition first_fit :: "nat \<Rightarrow> allocator" where
  "first_fit n h = (case List.find (\<lambda>a. h (Cell a) = None) [0..<n] of None \<Rightarrow> n | Some a \<Rightarrow> a)"

lemma allocates_first_fit: "allocates n (first_fit n)"
  unfolding allocates_def
proof (intro allI impI)
  fix h ps assume o: "owned h ps" and l: "length ps < n"
  show "h (Cell (first_fit n h)) = None"
  proof (cases "List.find (\<lambda>a. h (Cell a) = None) [0..<n]")
    case None
    then have "Cell ` {0..<n} \<subseteq> set ps" using o by (auto simp: find_None_iff owned_def dom_def)
    then have "card (Cell ` {0..<n}) \<le> card (set ps)" by (intro card_mono) auto
    moreover have "card (Cell ` {0..<n}) = n" by (simp add: card_image inj_on_def)
    ultimately show ?thesis using l card_length [of ps] by linarith
  next
    case (Some a)
    then have "h (Cell a) = None" by (auto simp: find_Some_iff)
    with Some show ?thesis by (simp add: first_fit_def)
  qed
qed

section \<open>The last write\<close>

text \<open>The cache without a capacity and without expiry: what was last written under each key.\<close>

definition entry_of :: "ns \<Rightarrow> 32 word \<Rightarrow> string \<Rightarrow> string \<Rightarrow> 32 word \<Rightarrow> cache_entry" where
  "entry_of now default_ttl k v ttl = \<lparr>ce_key = k, ce_value = v, ce_expires_at = expiry_of now default_ttl ttl\<rparr>"

fun load_writes :: "32 word \<Rightarrow> (nat \<Rightarrow> ns) \<Rightarrow> nat \<Rightarrow> snapshot_row list \<Rightarrow> (string \<rightharpoonup> cache_entry) \<Rightarrow> string \<rightharpoonup> cache_entry" where
  "load_writes d clock i [] m = m"
| "load_writes d clock i ((k, v, ttl) # rows) m = load_writes d clock (Suc i) rows (m(k \<mapsto> entry_of (clock i) d k v ttl))"

fun last_write :: "32 word \<Rightarrow> lru_op \<Rightarrow> (string \<rightharpoonup> cache_entry) \<Rightarrow> string \<rightharpoonup> cache_entry" where
  "last_write d (Put now k v ttl) m = m(k \<mapsto> entry_of now d k v ttl)"
| "last_write d (Remove k) m = m(k := None)"
| "last_write d Clear m = Map.empty"
| "last_write d (Load clock rows) m = load_writes d clock 0 rows m"
| "last_write d _ m = m"

definition covered :: "lru_spec \<Rightarrow> (string \<rightharpoonup> cache_entry) \<Rightarrow> bool" where
  "covered s m \<longleftrightarrow> spec_ok s \<and> (\<forall>k e. find_entry k (sp_entries s) = Some e \<longrightarrow> m k = Some e)"

lemma find_entry_key: "find_entry k es = Some e \<Longrightarrow> ce_key e = k"
  by (auto dest: find_entry_split)

lemma find_entry_spec_put:
  assumes "spec_ok s"
  shows "find_entry k' (sp_entries (spec_put now k v ttl s)) = Some e \<Longrightarrow>
    (if k' = k then e = entry_of now (sp_ttl s) k v ttl else find_entry k' (sp_entries s) = Some e)"
proof -
  have d: "distinct (map ce_key (sp_entries s))" and c: "0 < sp_capacity s" using assms by (simp_all add: spec_ok_def)
  assume f: "find_entry k' (sp_entries (spec_put now k v ttl s)) = Some e"
  show ?thesis
  proof (cases "find_entry k (sp_entries s) = None \<and> length (sp_entries s) \<ge> sp_capacity s")
    case True
    with c have "sp_entries s \<noteq> []" by auto
    with True f show ?thesis
      by (auto simp: spec_put_def Let_def entry_of_def find_entry_butlast [OF d] split: if_splits)
  qed (use f in \<open>auto simp: spec_put_def Let_def entry_of_def find_entry_drop_key split: if_splits\<close>)
qed

lemma covered_put: "covered s m \<Longrightarrow> covered (spec_put now k v ttl s) (m(k \<mapsto> entry_of now (sp_ttl s) k v ttl))"
  using find_entry_spec_put [of s _ now k v ttl] by (auto simp: covered_def spec_ok_put split: if_splits)

lemma covered_load: "covered s m \<Longrightarrow> covered (spec_load clock i rows s) (load_writes (sp_ttl s) clock i rows m)"
proof (induction rows arbitrary: i s m)
  case (Cons row rows)
  obtain k v ttl where "row = (k, v, ttl)" by (cases row)
  with Cons.IH [OF covered_put [OF Cons.prems, of "clock i" k v ttl], of "Suc i"] show ?case
    by (simp del: fun_upd_apply)
qed simp

lemma covered_step:
  assumes c: "covered s m"
  shows "covered (snd (spec_step op s)) (last_write (sp_ttl s) op m)"
proof -
  have ok: "spec_ok s" and d: "distinct (map ce_key (sp_entries s))"
    and f: "\<And>k e. find_entry k (sp_entries s) = Some e \<Longrightarrow> m k = Some e"
    using c by (auto simp: covered_def spec_ok_def)
  show ?thesis
  proof (cases op)
    case (Get now k)
    have "find_entry k' (sp_entries (snd (spec_get now k s))) = Some e \<Longrightarrow> m k' = Some e" for k' e
      using f find_entry_key
      by (auto simp: spec_get_def Let_def find_entry_drop_key split: option.splits if_splits)
    with Get spec_ok_get [OF ok] show ?thesis by (simp add: covered_def)
  next
    case (Remove k)
    with f spec_ok_remove [OF ok, of k] show ?thesis
      by (auto simp: covered_def spec_remove_def find_entry_drop_key split: if_splits)
  next
    case (Purge clock)
    with f spec_ok_purge [OF ok, of clock] show ?thesis
      by (auto simp: covered_def spec_purge_def Let_def find_entry_filter [OF d] split: option.splits if_splits)
  qed (use c covered_put covered_load spec_ok_clear [OF ok] in \<open>auto simp: covered_def spec_clear_def\<close>)
qed

lemma covered_run:
  "covered s m \<Longrightarrow> covered (snd (spec_run ops s)) (fold (last_write (sp_ttl s)) ops m)"
proof (induction ops arbitrary: s m)
  case (Cons op ops)
  from Cons.IH [OF covered_step [OF Cons.prems, of op]] show ?case
    by (simp add: case_prod_beta Let_def spec_step_ttl)
qed simp

section \<open>Staying cached\<close>

text \<open>The operation leaves the entry of \<open>k\<close> that expires at \<open>x\<close>; the keys an operation uses.\<close>

fun spares :: "cache_entry \<Rightarrow> lru_op \<Rightarrow> bool" where
  "spares e (Get now k) \<longleftrightarrow> (k = ce_key e \<longrightarrow> \<not> is_expired now e)"
| "spares e (Put now k v ttl) \<longleftrightarrow> k \<noteq> ce_key e"
| "spares e (Remove k) \<longleftrightarrow> k \<noteq> ce_key e"
| "spares e (Purge clock) \<longleftrightarrow> live_entry clock e"
| "spares e Clear \<longleftrightarrow> False"
| "spares e (Load clock rows) \<longleftrightarrow> ce_key e \<notin> fst ` set rows"
| "spares e _ \<longleftrightarrow> True"

fun used_keys :: "lru_op \<Rightarrow> string list" where
  "used_keys (Get now k) = [k]"
| "used_keys (Put now k v ttl) = [k]"
| "used_keys (Load clock rows) = map fst rows"
| "used_keys _ = []"

definition recent :: "string set \<Rightarrow> cache_entry \<Rightarrow> lru_spec \<Rightarrow> bool" where
  "recent U e s \<longleftrightarrow> spec_ok s \<and> (\<exists>xs ys. sp_entries s = xs @ e # ys \<and> ce_key ` set xs \<subseteq> U)"

lemma recentI: "spec_ok s \<Longrightarrow> sp_entries s = xs @ e # ys \<Longrightarrow> ce_key ` set xs \<subseteq> U \<Longrightarrow> recent U e s"
  by (auto simp: recent_def)

lemma recent_find: "recent U e s \<Longrightarrow> find_entry (ce_key e) (sp_entries s) = Some e"
  using find_entry_Some by (auto simp: recent_def spec_ok_def)

lemma drop_key_other: "ce_key e \<noteq> k \<Longrightarrow> drop_key k (xs @ e # ys) = drop_key k xs @ e # drop_key k ys"
  by (simp add: drop_key_def)

lemma recent_put:
  assumes r: "recent U e s" and k: "k \<noteq> ce_key e" "k \<in> U" and U: "finite U" "card U < sp_capacity s" "ce_key e \<notin> U"
  shows "recent U e (spec_put now k v ttl s)"
proof -
  from r obtain xs ys where es: "sp_entries s = xs @ e # ys" and xs: "ce_key ` set xs \<subseteq> U" and ok: "spec_ok s"
    by (auto simp: recent_def)
  let ?n = "\<lparr>ce_key = k, ce_value = v, ce_expires_at = expiry_of now (sp_ttl s) ttl\<rparr>"
  have "\<exists>xs' ys'. sp_entries (spec_put now k v ttl s) = ?n # xs' @ e # ys' \<and> ce_key ` set xs' \<subseteq> U"
  proof (cases "find_entry k (sp_entries s) = None \<and> length (sp_entries s) \<ge> sp_capacity s")
    case True
    have "ys \<noteq> []"
    proof
      assume "ys = []"
      with True es ok have len: "Suc (length xs) \<ge> sp_capacity s" and k': "k \<notin> ce_key ` set xs"
        and d: "distinct (map ce_key xs)" by (auto simp: find_entry_None spec_ok_def)
      have "card (insert k (ce_key ` set xs)) = Suc (length xs)" using k' distinct_card [OF d] by simp
      moreover have "card (insert k (ce_key ` set xs)) \<le> card U" using xs k(2) U(1) by (intro card_mono) auto
      ultimately show False using len U(2) by linarith
    qed
    with True es xs show ?thesis
      by (intro exI [of _ xs] exI [of _ "butlast ys"]) (simp add: spec_put_def Let_def butlast_append)
  next
    case False
    then consider "find_entry k (sp_entries s) \<noteq> None" | "find_entry k (sp_entries s) = None" "length (sp_entries s) < sp_capacity s"
      by force
    then show ?thesis
    proof cases
      case 1
      with es xs k(1) show ?thesis
        by (intro exI [of _ "drop_key k xs"] exI [of _ "drop_key k ys"])
          (auto simp: spec_put_def Let_def drop_key_other drop_key_def)
    qed (use es xs in \<open>auto simp: spec_put_def Let_def\<close>)
  qed
  then obtain xs' ys' where "sp_entries (spec_put now k v ttl s) = (?n # xs') @ e # ys'" "ce_key ` set xs' \<subseteq> U" by auto
  with k(2) show ?thesis by (intro recentI [OF spec_ok_put [OF ok], where xs = "?n # xs'"]) auto
qed

lemma recent_load:
  "recent U e s \<Longrightarrow> ce_key e \<notin> fst ` set rows \<Longrightarrow> fst ` set rows \<subseteq> U \<Longrightarrow> finite U \<Longrightarrow> card U < sp_capacity s \<Longrightarrow>
   ce_key e \<notin> U \<Longrightarrow> recent U e (spec_load clock i rows s)"
proof (induction rows arbitrary: i s)
  case (Cons row rows)
  obtain k v ttl where row: "row = (k, v, ttl)" by (cases row)
  with Cons.prems have "recent U e (spec_put (clock i) k v ttl s)" by (intro recent_put) auto
  with Cons row show ?case by simp
qed simp

lemma recent_get:
  assumes r: "recent U e s" and k: "k = ce_key e \<Longrightarrow> \<not> is_expired now e" "k \<noteq> ce_key e \<Longrightarrow> k \<in> U"
  shows "recent U e (snd (spec_get now k s))"
proof -
  from r obtain xs ys where es: "sp_entries s = xs @ e # ys" and xs: "ce_key ` set xs \<subseteq> U" and ok: "spec_ok s"
    by (auto simp: recent_def)
  show ?thesis
  proof (cases "k = ce_key e")
    case True
    then have "sp_entries (snd (spec_get now k s)) = e # drop_key k (sp_entries s)"
      using k(1) recent_find [OF r] by (simp add: spec_get_def Let_def)
    then show ?thesis using spec_ok_get [OF ok] by (auto intro!: recentI [where xs = "[]"])
  next
    case False
    have dropped: "drop_key k (sp_entries s) = drop_key k xs @ e # drop_key k ys"
      using es False by (simp add: drop_key_other)
    show ?thesis
    proof (cases "find_entry k (sp_entries s)")
      case None
      with r ok show ?thesis by (auto simp: recent_def spec_get_def Let_def spec_ok_def)
    next
      case (Some f)
      let ?xs = "if is_expired now f then drop_key k xs else f # drop_key k xs"
      have "sp_entries (snd (spec_get now k s)) = ?xs @ e # drop_key k ys"
        using Some dropped by (simp add: spec_get_def Let_def)
      moreover have "ce_key ` set ?xs \<subseteq> U"
        using k(2) [OF False] find_entry_key [OF Some] xs by (auto simp: drop_key_def)
      ultimately show ?thesis using spec_ok_get [OF ok] by (auto intro: recentI)
    qed
  qed
qed

lemma recent_remove:
  assumes r: "recent U e s" and k: "k \<noteq> ce_key e"
  shows "recent U e (snd (spec_remove k s))"
proof -
  from r obtain xs ys where es: "sp_entries s = xs @ e # ys" and xs: "ce_key ` set xs \<subseteq> U" and ok: "spec_ok s"
    by (auto simp: recent_def)
  have d: "drop_key k (sp_entries s) = drop_key k xs @ e # drop_key k ys" using es k by (simp add: drop_key_other)
  have "ce_key ` set (drop_key k xs) \<subseteq> U" using xs by (auto simp: drop_key_def)
  with r d spec_ok_remove [OF ok, of k] show ?thesis
    by (cases "find_entry k (sp_entries s)") (auto simp: spec_remove_def intro: recentI)
qed

lemma recent_purge:
  assumes r: "recent U e s" and e: "live_entry clock e"
  shows "recent U e (snd (spec_purge clock s))"
proof -
  from r obtain xs ys where es: "sp_entries s = xs @ e # ys" and xs: "ce_key ` set xs \<subseteq> U" and ok: "spec_ok s"
    by (auto simp: recent_def)
  have "sp_entries (snd (spec_purge clock s)) = filter (live_entry clock) xs @ e # filter (live_entry clock) ys"
    using es e by (simp add: spec_purge_def Let_def)
  moreover have "ce_key ` set (filter (live_entry clock) xs) \<subseteq> U" using xs by auto
  ultimately show ?thesis by (rule recentI [OF spec_ok_purge [OF ok]])
qed

lemma recent_step:
  assumes r: "recent U e s" and op: "spares e op" "set (used_keys op) - {ce_key e} \<subseteq> U"
    and U: "finite U" "card U < sp_capacity s" "ce_key e \<notin> U"
  shows "recent U e (snd (spec_step op s))"
proof (cases op)
  case (Put now k v ttl)
  then show ?thesis using recent_put [OF r _ _ U] op by auto
next
  case (Load clock rows)
  then show ?thesis using recent_load [OF r _ _ U] op by auto
qed (use r op recent_get [OF r] recent_remove [OF r] recent_purge [OF r] in auto)

lemma recent_run:
  assumes "recent U e s" and "\<And>op. op \<in> set ops \<Longrightarrow> spares e op \<and> set (used_keys op) - {ce_key e} \<subseteq> U"
    and U: "finite U" "card U < sp_capacity s" "ce_key e \<notin> U"
  shows "recent U e (snd (spec_run ops s))"
  using assms(1,2,4)
proof (induction ops arbitrary: s)
  case (Cons op ops)
  have "recent U e (snd (spec_step op s))" using Cons.prems U(1,3) by (intro recent_step) auto
  with Cons show ?case by (simp add: case_prod_beta Let_def spec_step_capacity)
qed simp

section \<open>Loading a snapshot\<close>

fun loaded :: "32 word \<Rightarrow> (nat \<Rightarrow> ns) \<Rightarrow> nat \<Rightarrow> snapshot_row list \<Rightarrow> cache_entry list" where
  "loaded d clock i [] = []"
| "loaded d clock i ((k, v, ttl) # rows) = entry_of (clock i) d k v ttl # loaded d clock (Suc i) rows"

lemma loaded_keys: "map ce_key (loaded d clock i rows) = map fst rows"
  by (induction rows arbitrary: i) (auto simp: entry_of_def)

lemma loaded_nth:
  "j < length rows \<Longrightarrow> rows ! j = (k, v, ttl) \<Longrightarrow> entry_of (clock (i + j)) d k v ttl \<in> set (loaded d clock i rows)"
proof (induction rows arbitrary: i j)
  case (Cons row rows)
  show ?case
  proof (cases j)
    case (Suc j')
    with Cons.IH [of j' "Suc i"] Cons.prems show ?thesis by (cases row) auto
  qed (use Cons.prems in auto)
qed simp

lemma spec_load_fresh:
  assumes "distinct (map fst rows)" and "fst ` set rows \<inter> ce_key ` set (sp_entries s) = {}"
    and "length rows + length (sp_entries s) \<le> sp_capacity s"
  shows "sp_entries (spec_load clock i rows s) = rev (loaded (sp_ttl s) clock i rows) @ sp_entries s"
  using assms
proof (induction rows arbitrary: i s)
  case (Cons row rows)
  obtain k v ttl where row: "row = (k, v, ttl)" by (cases row)
  let ?s = "spec_put (clock i) k v ttl s"
  have "find_entry k (sp_entries s) = None" using Cons.prems(2) row by (simp add: find_entry_None)
  then have es: "sp_entries ?s = entry_of (clock i) (sp_ttl s) k v ttl # sp_entries s"
    using Cons.prems(3) by (simp add: spec_put_def Let_def entry_of_def)
  have "fst ` set rows \<inter> ce_key ` set (sp_entries ?s) = {}" using Cons.prems(1,2) row by (auto simp: es entry_of_def)
  with Cons.IH [of ?s "Suc i"] Cons.prems row show ?case by (simp add: es)
qed simp

end
