(* ===== verification/Cache_Server.thy ===== *)
theory Cache_Server
  imports Lru_Runs
begin

text \<open>
  The HTTP server of a cache node, \<open>cache-node/src/cache_server.hpp\<close> and \<open>cache_server.cpp\<close>: the
  handlers around one LRU cache and the routes that lead to them. JSON text is read by
  nlohmann/json, which is not part of the repository: what the handlers call of it is the record
  \<open>json_lib\<close>, an argument of the model, where \<open>None\<close> is an exception. The body of an answer is the
  value the handler builds, before it is printed. The memory estimate is an argument.

  A handler runs without interruption here; each call of the cache takes the mutex on its own, so
  the two calls of \<open>handle_put\<close> have their own times.
\<close>

section \<open>Model\<close>

record node_config =
  nc_node_id :: string
  nc_host :: string
  nc_port :: int
  nc_zone :: string
  nc_cache_capacity :: nat
  nc_default_ttl_s :: "32 word"
  nc_cluster_manager_url :: string
  nc_heartbeat_interval_s :: "32 word"
  nc_purge_interval_s :: "32 word"

record cache_server =
  sv_config :: node_config
  sv_cache :: lru_cache
  sv_start_time :: ns
  sv_request_count :: "64 word"

definition CacheServer :: "ns \<Rightarrow> node_config \<Rightarrow> cpp_error + cache_server" where
  "CacheServer now config =
     (case LRUCache (nc_cache_capacity config) (nc_default_ttl_s config) of
        Inl e \<Rightarrow> Inl e
      | Inr c \<Rightarrow> Inr \<lparr>sv_config = config, sv_cache = c, sv_start_time = now, sv_request_count = 0\<rparr>)"

text \<open>The calls of the JSON library: \<open>json::parse(text)\<close>, \<open>j.contains(k)\<close>,
  \<open>j[k].get<std::string>()\<close>, \<open>j.value(k, dflt)\<close> for an \<open>int\<close>, and the elements of \<open>j[k]\<close>.\<close>

record 'j json_lib =
  jl_parse :: "string \<Rightarrow> 'j option"
  jl_contains :: "'j \<Rightarrow> string \<Rightarrow> bool"
  jl_string :: "'j \<Rightarrow> string \<Rightarrow> string option"
  jl_value_int :: "'j \<Rightarrow> string \<Rightarrow> int \<Rightarrow> int option"
  jl_elements :: "'j \<Rightarrow> string \<Rightarrow> 'j list option"

datatype node_body =
  Value_Body string string string string \<comment> \<open>key, value, \<open>node_id\<close>, zone\<close>
| Error_Body string "string option"
| Stored_Body string string string \<comment> \<open>status, key, \<open>node_id\<close>\<close>
| Deleted_Body string
| Keys_Body string "string list"
| Snapshot_Body string "snapshot_row list"
| Loaded_Body nat
| Purged_Body nat
| Health_Body string string int int nat nat rat nat int \<comment> \<open>\<open>node_id\<close>, zone, port, uptime, size, capacity, ratio, memory, timestamp\<close>
| Metrics_Body string string cache_metrics rat nat nat nat "64 word"

text \<open>What a handler ends with: an answer, or an exception that leaves it for the HTTP library.\<close>

datatype node_answer = Answer int node_body | Escaped

definition with_cache :: "cache_server \<Rightarrow> lru_cache \<Rightarrow> cache_server" where
  "with_cache sv c = sv\<lparr>sv_cache := c\<rparr>"

definition handle_get :: "ns \<Rightarrow> string \<Rightarrow> cache_server \<Rightarrow> (node_answer \<times> cache_server) option" where
  "handle_get now key sv = do {
     (val, c) \<leftarrow> lru_get now key (sv_cache sv);
     Some (case val of
             Some v \<Rightarrow> Answer 200 (Value_Body key v (nc_node_id (sv_config sv)) (nc_zone (sv_config sv)))
           | None \<Rightarrow> Answer 404 (Error_Body ''key not found'' (Some key)),
           with_cache sv c)
   }"

text \<open>\<open>int\<close> to \<open>uint32_t\<close> wraps around.\<close>

definition handle_put ::
  "'j json_lib \<Rightarrow> allocator \<Rightarrow> ns \<Rightarrow> ns \<Rightarrow> string \<Rightarrow> string \<Rightarrow> cache_server \<Rightarrow> (node_answer \<times> cache_server) option" where
  "handle_put lib alloc now1 now2 key body sv =
     (case jl_parse lib body of
        None \<Rightarrow> Some (Answer 400 (Error_Body ''invalid JSON body'' None), sv)
      | Some req \<Rightarrow>
          if \<not> jl_contains lib req ''value''
          then Some (Answer 400 (Error_Body (''missing '' @ [CHR 0x27] @ ''value'' @ [CHR 0x27] @ '' field'') None), sv)
          else (case (jl_string lib req ''value'', jl_value_int lib req ''ttl'' 0) of
              (Some val, Some ttl) \<Rightarrow> do {
                existed \<leftarrow> lru_contains now1 key (sv_cache sv);
                c \<leftarrow> lru_put alloc now2 key val (word_of_int ttl) (sv_cache sv);
                Some (Answer (if existed then 200 else 201)
                        (Stored_Body (if existed then ''updated'' else ''created'') key (nc_node_id (sv_config sv))),
                      with_cache sv c)
              }
            | _ \<Rightarrow> Some (Escaped, sv)))"

definition handle_delete :: "string \<Rightarrow> cache_server \<Rightarrow> (node_answer \<times> cache_server) option" where
  "handle_delete key sv = do {
     (removed, c) \<leftarrow> lru_remove key (sv_cache sv);
     Some (if removed then Answer 200 (Deleted_Body key) else Answer 404 (Error_Body ''key not found'' (Some key)),
           with_cache sv c)
   }"

definition handle_health :: "ns \<Rightarrow> nat \<Rightarrow> cache_server \<Rightarrow> node_answer" where
  "handle_health now memory sv =
     (let cfg = sv_config sv; c = sv_cache sv
      in Answer 200 (Health_Body (nc_node_id cfg) (nc_zone cfg) (nc_port cfg) ((now - sv_start_time sv) div 1000000000)
           (lru_size c) (lc_capacity c) (hit_ratio (lc_metrics c)) memory (now div 1000000)))"

definition handle_metrics :: "nat \<Rightarrow> cache_server \<Rightarrow> node_answer" where
  "handle_metrics memory sv =
     (let cfg = sv_config sv; c = sv_cache sv
      in Answer 200 (Metrics_Body (nc_node_id cfg) (nc_zone cfg) (lc_metrics c) (hit_ratio (lc_metrics c))
           (lru_size c) (lc_capacity c) memory (sv_request_count sv)))"

definition handle_keys :: "(string \<Rightarrow> ns) \<Rightarrow> cache_server \<Rightarrow> node_answer option" where
  "handle_keys clock sv = do {
     ks \<leftarrow> lru_keys clock (sv_cache sv);
     Some (Answer 200 (Keys_Body (nc_node_id (sv_config sv)) ks))
   }"

definition handle_snapshot :: "ns \<Rightarrow> (string \<Rightarrow> ns) \<Rightarrow> cache_server \<Rightarrow> node_answer option" where
  "handle_snapshot now clock sv = do {
     rows \<leftarrow> lru_snapshot now clock (sv_cache sv);
     Some (Answer 200 (Snapshot_Body (nc_node_id (sv_config sv)) rows))
   }"

text \<open>The loop that reads the entries; one that is malformed throws and nothing is loaded.\<close>

fun read_entries :: "'j json_lib \<Rightarrow> 'j list \<Rightarrow> snapshot_row list option" where
  "read_entries lib [] = Some []"
| "read_entries lib (e # es) = do {
     k \<leftarrow> jl_string lib e ''key'';
     v \<leftarrow> jl_string lib e ''value'';
     ttl \<leftarrow> jl_value_int lib e ''ttl'' 0;
     rows \<leftarrow> read_entries lib es;
     Some ((k, v, word_of_int ttl) # rows)
   }"

definition handle_bulk_load ::
  "'j json_lib \<Rightarrow> allocator \<Rightarrow> (nat \<Rightarrow> ns) \<Rightarrow> string \<Rightarrow> cache_server \<Rightarrow> (node_answer \<times> cache_server) option" where
  "handle_bulk_load lib alloc clock body sv =
     (case jl_parse lib body of
        None \<Rightarrow> Some (Answer 400 (Error_Body ''invalid JSON'' None), sv)
      | Some req \<Rightarrow>
          (case Option.bind (jl_elements lib req ''entries'') (read_entries lib) of
             None \<Rightarrow> Some (Escaped, sv)
           | Some entries \<Rightarrow> do {
               c \<leftarrow> lru_bulk_load alloc clock entries (sv_cache sv);
               Some (Answer 200 (Loaded_Body (length entries)), with_cache sv c)
             }))"

definition handle_purge :: "(string \<Rightarrow> ns) \<Rightarrow> cache_server \<Rightarrow> (node_answer \<times> cache_server) option" where
  "handle_purge clock sv = do {
     (removed, c) \<leftarrow> lru_purge_expired clock (sv_cache sv);
     Some (Answer 200 (Purged_Body removed), with_cache sv c)
   }"

section \<open>Routes\<close>

text \<open>The path pattern \<open>/cache/(.+)\<close>: the dot matches no line end.\<close>

definition route_key :: "string \<Rightarrow> string option" where
  "route_key path = (if take 7 path = ''/cache/'' \<and> drop 7 path \<noteq> ''''
       \<and> list_all (\<lambda>ch. ch \<noteq> CHR 0x0A \<and> ch \<noteq> CHR 0x0D) (drop 7 path)
     then Some (drop 7 path) else None)"

record node_request =
  nr_method :: string
  nr_path :: string
  nr_body :: string

text \<open>The readings of the clock one request takes.\<close>

record node_times =
  nt_now :: ns
  nt_later :: ns
  nt_clock :: "string \<Rightarrow> ns"
  nt_load :: "nat \<Rightarrow> ns"
  nt_memory :: nat

definition count_request :: "cache_server \<Rightarrow> cache_server" where
  "count_request sv = sv\<lparr>sv_request_count := sv_request_count sv + 1\<rparr>"

definition reading :: "cache_server \<Rightarrow> node_answer option \<Rightarrow> (node_answer option \<times> cache_server) option" where
  "reading sv r = (case r of None \<Rightarrow> None | Some a \<Rightarrow> Some (Some a, sv))"

definition answering :: "(node_answer \<times> cache_server) option \<Rightarrow> (node_answer option \<times> cache_server) option" where
  "answering r = (case r of None \<Rightarrow> None | Some (a, sv) \<Rightarrow> Some (Some a, sv))"

text \<open>The routes \<open>start\<close> registers. A request no route matches is answered by the HTTP library,
  the answer \<open>None\<close>; so is a method other than GET, PUT, POST and DELETE here.\<close>

definition serve ::
  "'j json_lib \<Rightarrow> allocator \<Rightarrow> node_times \<Rightarrow> node_request \<Rightarrow> cache_server \<Rightarrow> (node_answer option \<times> cache_server) option" where
  "serve lib alloc t q sv =
     (case (nr_method q, route_key (nr_path q)) of
        (m, Some key) \<Rightarrow>
          if m = ''GET'' then answering (handle_get (nt_now t) key (count_request sv))
          else if m = ''PUT'' then answering (handle_put lib alloc (nt_now t) (nt_later t) key (nr_body q) (count_request sv))
          else if m = ''DELETE'' then answering (handle_delete key (count_request sv))
          else Some (None, sv)
      | (m, None) \<Rightarrow>
          if m = ''GET'' \<and> nr_path q = ''/health'' then reading sv (Some (handle_health (nt_now t) (nt_memory t) sv))
          else if m = ''GET'' \<and> nr_path q = ''/metrics'' then reading sv (Some (handle_metrics (nt_memory t) sv))
          else if m = ''GET'' \<and> nr_path q = ''/keys'' then reading sv (handle_keys (nt_clock t) sv)
          else if m = ''GET'' \<and> nr_path q = ''/snapshot'' then reading sv (handle_snapshot (nt_now t) (nt_clock t) sv)
          else if m = ''POST'' \<and> nr_path q = ''/bulk-load'' then answering (handle_bulk_load lib alloc (nt_load t) (nr_body q) sv)
          else if m = ''POST'' \<and> nr_path q = ''/purge-expired'' then answering (handle_purge (nt_clock t) sv)
          else Some (None, sv))"

text \<open>The body of the purge thread, once its sleep is over.\<close>

definition purge_tick :: "(string \<Rightarrow> ns) \<Rightarrow> cache_server \<Rightarrow> cache_server option" where
  "purge_tick clock sv = do { (removed, c) \<leftarrow> lru_purge_expired clock (sv_cache sv); Some (with_cache sv c) }"

section \<open>Reachable servers\<close>

inductive node_reachable :: "'j json_lib \<Rightarrow> allocator \<Rightarrow> node_config \<Rightarrow> cache_server \<Rightarrow> bool"
  for lib alloc cfg where
  start: "CacheServer now cfg = Inr sv \<Longrightarrow> node_reachable lib alloc cfg sv"
| request: "node_reachable lib alloc cfg sv \<Longrightarrow> serve lib alloc t q sv = Some (a, sv') \<Longrightarrow> node_reachable lib alloc cfg sv'"
| tick: "node_reachable lib alloc cfg sv \<Longrightarrow> purge_tick clock sv = Some sv' \<Longrightarrow> node_reachable lib alloc cfg sv'"

definition server_ok :: "node_config \<Rightarrow> cache_server \<Rightarrow> bool" where
  "server_ok cfg sv \<longleftrightarrow> sv_config sv = cfg \<and> (\<exists>s. implements (sv_cache sv) s
     \<and> sp_capacity s = nc_cache_capacity cfg \<and> sp_ttl s = nc_default_ttl_s cfg)"

text \<open>A step of the cache within a handler.\<close>

lemma server_okE:
  assumes "server_ok cfg sv"
  obtains s where "implements (sv_cache sv) s" and "sp_capacity s = nc_cache_capacity cfg"
    and "sp_ttl s = nc_default_ttl_s cfg" and "sv_config sv = cfg" and "lc_capacity (sv_cache sv) = nc_cache_capacity cfg"
  using assms implements_capacity by (auto simp: server_ok_def)

lemma server_ok_with_cache:
  "implements c s \<Longrightarrow> sp_capacity s = nc_cache_capacity cfg \<Longrightarrow> sp_ttl s = nc_default_ttl_s cfg \<Longrightarrow>
   sv_config sv = cfg \<Longrightarrow> server_ok cfg (with_cache sv c)"
  by (auto simp: server_ok_def with_cache_def)

lemma with_cache_simps [simp]:
  "sv_cache (with_cache sv c) = c" "sv_config (with_cache sv c) = sv_config sv"
  "sv_request_count (with_cache sv c) = sv_request_count sv"
  "sv_cache (count_request sv) = sv_cache sv" "sv_config (count_request sv) = sv_config sv"
  by (simp_all add: with_cache_def count_request_def)

lemma server_ok_count [simp]: "server_ok cfg (count_request sv) = server_ok cfg sv"
  by (simp add: server_ok_def)

lemma spec_load_step: "spec_load clock 0 rows s = snd (spec_step (Load clock rows) s)"
  by simp

lemma server_step:
  assumes "server_ok cfg sv" and "allocates (nc_cache_capacity cfg) alloc"
  obtains c s where "lru_step alloc op (sv_cache sv) = Some (fst (spec_step op s), c)"
    and "implements (sv_cache sv) s" and "sp_ttl s = nc_default_ttl_s cfg" and "server_ok cfg (with_cache sv c)"
    and "implements c (snd (spec_step op s))"
proof -
  from assms(1) obtain s where s: "implements (sv_cache sv) s" "sp_capacity s = nc_cache_capacity cfg"
    "sp_ttl s = nc_default_ttl_s cfg" "sv_config sv = cfg" "lc_capacity (sv_cache sv) = nc_cache_capacity cfg"
    by (rule server_okE)
  from lru_step_refines [OF s(1), of alloc op] assms(2) s(5) obtain c where
    c: "lru_step alloc op (sv_cache sv) = Some (fst (spec_step op s), c)" "implements c (snd (spec_step op s))" by auto
  moreover have "server_ok cfg (with_cache sv c)"
    by (rule server_ok_with_cache [OF c(2)]) (simp_all add: s spec_step_capacity spec_step_ttl)
  ultimately show thesis using that s by blast
qed

lemma answering_Some: "answering (Some (a, sv)) = Some (Some a, sv)"
  and reading_Some: "reading sv (Some a) = Some (Some a, sv)"
  by (simp_all add: answering_def reading_def)

lemma handle_get_effect:
  assumes "server_ok cfg sv" and "implements (sv_cache sv) s"
  shows "\<exists>c. handle_get now key sv = Some (case fst (spec_get now key s) of
        Some v \<Rightarrow> Answer 200 (Value_Body key v (nc_node_id cfg) (nc_zone cfg))
      | None \<Rightarrow> Answer 404 (Error_Body ''key not found'' (Some key)), with_cache sv c)
    \<and> implements c (snd (spec_get now key s))"
proof -
  from lru_get_refines [OF assms(2), of now key] obtain c where
    "lru_get now key (sv_cache sv) = Some (fst (spec_get now key s), c)" "implements c (snd (spec_get now key s))" by blast
  with assms(1) show ?thesis by (auto simp: handle_get_def server_ok_def)
qed

lemma handle_put_effect:
  assumes "server_ok cfg sv" and "implements (sv_cache sv) s" and "allocates (nc_cache_capacity cfg) alloc"
    and "jl_parse lib body = Some j" and "jl_contains lib j ''value''"
    and "jl_string lib j ''value'' = Some v" and "jl_value_int lib j ''ttl'' 0 = Some ttl"
  shows "\<exists>existed c. handle_put lib alloc now1 now2 key body sv = Some (Answer (if existed then 200 else 201)
        (Stored_Body (if existed then ''updated'' else ''created'') key (nc_node_id cfg)), with_cache sv c)
    \<and> lru_contains now1 key (sv_cache sv) = Some existed
    \<and> implements c (spec_put now2 key v (word_of_int ttl) s)"
proof -
  have "lc_capacity (sv_cache sv) = nc_cache_capacity cfg" using assms(1) by (rule server_okE)
  with lru_put_refines [OF assms(2), of alloc now2 key v "word_of_int ttl"] assms(3) obtain c where
    "lru_put alloc now2 key v (word_of_int ttl) (sv_cache sv) = Some c" "implements c (spec_put now2 key v (word_of_int ttl) s)"
    by auto
  moreover obtain existed where "lru_contains now1 key (sv_cache sv) = Some existed"
    using lru_contains_refines [OF assms(2), of now1 key] by blast
  ultimately show ?thesis using assms(1,4-7) by (auto simp: handle_put_def server_ok_def)
qed

section \<open>Every request is answered\<close>

lemma handle_get_ok: "server_ok cfg sv \<Longrightarrow> \<exists>a sv'. handle_get now key sv = Some (a, sv') \<and> server_ok cfg sv'"
proof -
  assume ok: "server_ok cfg sv"
  then obtain s where s: "implements (sv_cache sv) s" "sp_capacity s = nc_cache_capacity cfg" "sp_ttl s = nc_default_ttl_s cfg"
    "sv_config sv = cfg" by (rule server_okE)
  from handle_get_effect [OF ok s(1), of now key] obtain a c where a: "handle_get now key sv = Some (a, with_cache sv c)"
    and c: "implements c (snd (spec_get now key s))" by blast
  have "server_ok cfg (with_cache sv c)"
    by (rule server_ok_with_cache [OF c])
      (simp_all add: s spec_step_capacity [of "Get now key", simplified] spec_step_ttl [of "Get now key", simplified])
  with a show ?thesis by blast
qed

lemma handle_put_cases:
  obtains (good) j v ttl where "jl_parse lib body = Some j" "jl_contains lib j ''value''"
      "jl_string lib j ''value'' = Some v" "jl_value_int lib j ''ttl'' 0 = Some ttl"
    | (bad) a where "handle_put lib alloc now1 now2 key body sv = Some (a, sv)"
proof (cases "jl_parse lib body")
  case (Some j)
  show ?thesis
  proof (cases "jl_contains lib j ''value''")
    case True
    show ?thesis
      by (cases "jl_string lib j ''value''"; cases "jl_value_int lib j ''ttl'' 0")
        (use Some True good bad in \<open>simp_all add: handle_put_def\<close>)
  qed (use Some bad in \<open>simp add: handle_put_def\<close>)
qed (use bad in \<open>simp add: handle_put_def\<close>)

lemma handle_put_ok:
  assumes ok: "server_ok cfg sv" and alloc: "allocates (nc_cache_capacity cfg) alloc"
  shows "\<exists>a sv'. handle_put lib alloc now1 now2 key body sv = Some (a, sv') \<and> server_ok cfg sv'"
proof -
  obtain s where s: "implements (sv_cache sv) s" "sp_capacity s = nc_cache_capacity cfg" "sp_ttl s = nc_default_ttl_s cfg"
    "sv_config sv = cfg" using ok by (rule server_okE)
  show ?thesis
  proof (cases rule: handle_put_cases [where lib = lib and body = body and alloc = alloc and key = key and sv = sv
        and ?now1.0 = now1 and ?now2.0 = now2])
    case (good j v ttl)
    from handle_put_effect [OF ok s(1) alloc good, of now1 now2 key] obtain a c where
      a: "handle_put lib alloc now1 now2 key body sv = Some (a, with_cache sv c)"
      and c: "implements c (spec_put now2 key v (word_of_int ttl) s)" by blast
    have "server_ok cfg (with_cache sv c)" by (rule server_ok_with_cache [OF c]) (simp_all add: s)
    with a show ?thesis by blast
  qed (use ok in blast)
qed

lemma handle_delete_ok:
  assumes "server_ok cfg sv" and "allocates (nc_cache_capacity cfg) alloc"
  shows "\<exists>a sv'. handle_delete key sv = Some (a, sv') \<and> server_ok cfg sv'"
  by (rule server_step [OF assms, of "Remove key"]) (auto simp: handle_delete_def bind_eq_Some_conv)

lemma handle_purge_ok:
  assumes "server_ok cfg sv" and "allocates (nc_cache_capacity cfg) alloc"
  shows "\<exists>a sv'. handle_purge clock sv = Some (a, sv') \<and> server_ok cfg sv'"
    and "\<exists>sv'. purge_tick clock sv = Some sv' \<and> server_ok cfg sv'"
  by (rule server_step [OF assms, of "Purge clock"];
      auto simp: handle_purge_def purge_tick_def bind_eq_Some_conv)+

lemma handle_bulk_load_ok:
  assumes "server_ok cfg sv" and "allocates (nc_cache_capacity cfg) alloc"
  shows "\<exists>a sv'. handle_bulk_load lib alloc clock body sv = Some (a, sv') \<and> server_ok cfg sv'"
proof (cases "Option.bind (jl_parse lib body) (\<lambda>j. Option.bind (jl_elements lib j ''entries'') (read_entries lib))")
  case None
  with assms(1) show ?thesis by (auto simp: handle_bulk_load_def split: option.splits)
next
  case (Some rows)
  show ?thesis
    by (rule server_step [OF assms, of "Load clock rows"])
      (use Some in \<open>auto simp: handle_bulk_load_def bind_eq_Some_conv\<close>)
qed

lemma handle_keys_ok: "server_ok cfg sv \<Longrightarrow> \<exists>a. handle_keys clock sv = Some a"
  by (elim server_okE; drule lru_keys_refines [where clock = clock]) (auto simp: handle_keys_def)

lemma handle_snapshot_ok: "server_ok cfg sv \<Longrightarrow> \<exists>a. handle_snapshot now clock sv = Some a"
  using lru_snapshot_refines [of "sv_cache sv" _ now clock] by (auto simp: server_ok_def handle_snapshot_def)

lemmas handlers_ok = handle_get_ok handle_put_ok handle_delete_ok handle_purge_ok handle_bulk_load_ok

lemma answering_ok:
  "\<exists>a sv'. r = Some (a, sv') \<and> server_ok cfg sv' \<Longrightarrow> \<exists>a sv'. answering r = Some (a, sv') \<and> server_ok cfg sv'"
  by (auto simp: answering_def)

lemma reading_ok:
  "\<exists>a. r = Some a \<Longrightarrow> server_ok cfg sv \<Longrightarrow> \<exists>a sv'. reading sv r = Some (a, sv') \<and> server_ok cfg sv'"
  by (auto simp: reading_def)

lemma serve_ok:
  assumes ok: "server_ok cfg sv" and alloc: "allocates (nc_cache_capacity cfg) alloc"
  shows "\<exists>a sv'. serve lib alloc t q sv = Some (a, sv') \<and> server_ok cfg sv'"
proof (cases "route_key (nr_path q)")
  case (Some key)
  note cases = answering_ok [OF handle_get_ok] answering_ok [OF handle_put_ok] answering_ok [OF handle_delete_ok]
  show ?thesis using ok alloc Some by (simp add: serve_def cases)
next
  case None
  note cases = answering_ok [OF handle_bulk_load_ok] answering_ok [OF handle_purge_ok(1)]
    reading_ok [OF handle_keys_ok] reading_ok [OF handle_snapshot_ok] reading_Some
  show ?thesis using ok alloc None by (simp add: serve_def cases)
qed

lemma CacheServer_ok: "CacheServer now cfg = Inr sv \<Longrightarrow> server_ok cfg sv"
  using LRUCache_refines [of "nc_cache_capacity cfg" "nc_default_ttl_s cfg"]
  by (auto simp: CacheServer_def server_ok_def new_spec_def split: sum.splits)

lemma node_reachable_ok:
  "node_reachable lib alloc cfg sv \<Longrightarrow> allocates (nc_cache_capacity cfg) alloc \<Longrightarrow> server_ok cfg sv"
proof (induction rule: node_reachable.induct)
  case (request sv t q a sv')
  with serve_ok [of cfg sv alloc lib t q] show ?case by auto
next
  case (tick sv clock sv')
  with handle_purge_ok(2) [of cfg sv alloc clock] show ?case by auto
qed (rule CacheServer_ok)

section \<open>What a node promises\<close>

abbreviation cache_request :: "string \<Rightarrow> string \<Rightarrow> string \<Rightarrow> node_request" where
  "cache_request m key body \<equiv> \<lparr>nr_method = m, nr_path = ''/cache/'' @ key, nr_body = body\<rparr>"

definition key_path_ok :: "string \<Rightarrow> bool" where
  "key_path_ok key \<longleftrightarrow> key \<noteq> '''' \<and> list_all (\<lambda>ch. ch \<noteq> CHR 0x0A \<and> ch \<noteq> CHR 0x0D) key"

lemma route_cache [simp]: "key_path_ok key \<Longrightarrow> route_key (''/cache/'' @ key) = Some key"
  by (simp add: key_path_ok_def route_key_def)

lemma route_cache_chars [simp]: "key_path_ok key \<Longrightarrow> route_key (CHR ''/'' # CHR ''c'' # CHR ''a'' # CHR ''c'' # CHR ''h'' # CHR ''e'' # CHR ''/'' # key) = Some key"
  using route_cache [of key] by simp

lemma put_then_get:
  assumes ok: "server_ok cfg sv" and alloc: "allocates (nc_cache_capacity cfg) alloc" and "key_path_ok key"
    and body: "jl_parse lib body = Some j" "jl_contains lib j ''value''"
      "jl_string lib j ''value'' = Some v" "jl_value_int lib j ''ttl'' 0 = Some ttl"
    and fresh: "\<not> is_expired (nt_now t2) (entry_of (nt_later t1) (nc_default_ttl_s cfg) key v (word_of_int ttl))"
  shows "\<exists>existed sv1 sv2. lru_contains (nt_now t1) key (sv_cache sv) = Some existed
    \<and> serve lib alloc t1 (cache_request ''PUT'' key body) sv = Some (Some (Answer (if existed then 200 else 201)
        (Stored_Body (if existed then ''updated'' else ''created'') key (nc_node_id cfg))), sv1)
    \<and> serve lib alloc t2 (cache_request ''GET'' key body') sv1
        = Some (Some (Answer 200 (Value_Body key v (nc_node_id cfg) (nc_zone cfg))), sv2)"
proof -
  obtain s where s: "implements (sv_cache sv) s" "sp_capacity s = nc_cache_capacity cfg" "sp_ttl s = nc_default_ttl_s cfg"
    "sv_config sv = cfg" using ok by (rule server_okE)
  from handle_put_effect [of cfg "count_request sv" s alloc lib body j v ttl "nt_now t1" "nt_later t1" key] ok s(1) alloc body
  obtain existed c where put: "handle_put lib alloc (nt_now t1) (nt_later t1) key body (count_request sv)
      = Some (Answer (if existed then 200 else 201)
          (Stored_Body (if existed then ''updated'' else ''created'') key (nc_node_id cfg)), with_cache (count_request sv) c)"
    "lru_contains (nt_now t1) key (sv_cache sv) = Some existed"
    and c: "implements c (spec_put (nt_later t1) key v (word_of_int ttl) s)" by auto
  let ?s = "spec_put (nt_later t1) key v (word_of_int ttl) s" and ?sv = "with_cache (count_request sv) c"
  have ok1: "server_ok cfg (count_request ?sv)" using server_ok_with_cache [OF c, of cfg "count_request sv"] s by simp
  have "find_entry key (sp_entries ?s) = Some (entry_of (nt_later t1) (sp_ttl s) key v (word_of_int ttl))"
    by (simp add: spec_put_def Let_def entry_of_def)
  then have "fst (spec_get (nt_now t2) key ?s) = Some v"
    using fresh s(3) by (simp add: spec_get_def Let_def entry_of_def)
  with handle_get_effect [OF ok1, of ?s "nt_now t2" key] c obtain sv2 where
    "handle_get (nt_now t2) key (count_request ?sv) = Some (Answer 200 (Value_Body key v (nc_node_id cfg) (nc_zone cfg)), sv2)"
    by auto
  with put \<open>key_path_ok key\<close> show ?thesis by (auto simp: serve_def answering_def)
qed

text \<open>A JSON library for the examples: it reads one text, with a value and a life.\<close>

definition sample_lib :: "int \<Rightarrow> (string \<times> int) json_lib" where
  "sample_lib ttl = \<lparr>jl_parse = (\<lambda>text. if text = ''ok'' then Some (''v'', ttl) else None), jl_contains = (\<lambda>j k. k = ''value''),
     jl_string = (\<lambda>j k. Some (fst j)), jl_value_int = (\<lambda>j k d. Some (snd j)), jl_elements = (\<lambda>j k. None)\<rparr>"

definition sample_config :: node_config where
  "sample_config = \<lparr>nc_node_id = ''node-1'', nc_host = ''0.0.0.0'', nc_port = 8001, nc_zone = ''z'', nc_cache_capacity = 2,
     nc_default_ttl_s = 0, nc_cluster_manager_url = ''http://gateway:8000'', nc_heartbeat_interval_s = 5, nc_purge_interval_s = 30\<rparr>"

definition at_time :: "ns \<Rightarrow> node_times" where
  "at_time t = \<lparr>nt_now = t, nt_later = t, nt_clock = (\<lambda>_. t), nt_load = (\<lambda>_. t), nt_memory = 0\<rparr>"

lemma sample_server: "\<exists>sv. node_reachable (sample_lib ttl) (first_fit 2) sample_config sv"
  by (rule exI, rule node_reachable.start) (simp add: CacheServer_def LRUCache_def sample_config_def)

lemma sample_allocator: "allocates (nc_cache_capacity sample_config) (first_fit 2)"
  by (simp add: sample_config_def allocates_first_fit)



text \<open>A stored value is served. In any reachable state a PUT with a value is answered 201, or 200
  when the key was held, and a GET that follows is answered 200 with the key, the value, the node and
  its zone until the entry expires.\<close>

theorem node_put_then_get:
  assumes "node_reachable lib alloc cfg sv" and "allocates (nc_cache_capacity cfg) alloc" and "key_path_ok key"
    and "jl_parse lib body = Some j" and "jl_contains lib j ''value''"
    and "jl_string lib j ''value'' = Some v" and "jl_value_int lib j ''ttl'' 0 = Some ttl"
    and "\<not> is_expired (nt_now t2) (entry_of (nt_later t1) (nc_default_ttl_s cfg) key v (word_of_int ttl))"
  shows "\<exists>existed sv1 sv2. lru_contains (nt_now t1) key (sv_cache sv) = Some existed
    \<and> serve lib alloc t1 (cache_request ''PUT'' key body) sv = Some (Some (Answer (if existed then 200 else 201)
        (Stored_Body (if existed then ''updated'' else ''created'') key (nc_node_id cfg))), sv1)
    \<and> serve lib alloc t2 (cache_request ''GET'' key body') sv1
        = Some (Some (Answer 200 (Value_Body key v (nc_node_id cfg) (nc_zone cfg))), sv2)"
  by (rule put_then_get [OF node_reachable_ok [OF assms(1,2)] assms(2-8)])

theorem node_put_then_get_witness:
  "\<exists>sv sv1 sv2. node_reachable (sample_lib 5) (first_fit 2) sample_config sv
    \<and> serve (sample_lib 5) (first_fit 2) (at_time 3) (cache_request ''PUT'' ''k'' ''ok'') sv
        = Some (Some (Answer 201 (Stored_Body ''created'' ''k'' ''node-1'')), sv1)
    \<and> serve (sample_lib 5) (first_fit 2) (at_time 4) (cache_request ''GET'' ''k'' '''') sv1
        = Some (Some (Answer 200 (Value_Body ''k'' ''v'' ''node-1'' ''z'')), sv2)"
proof -
  obtain sv where sv: "CacheServer 0 sample_config = Inr sv"
    by (simp add: CacheServer_def LRUCache_def sample_config_def)
  have r: "node_reachable (sample_lib 5) (first_fit 2) sample_config sv" by (rule node_reachable.start [OF sv])
  have new: "lru_contains (nt_now (at_time 3)) ''k'' (sv_cache sv) = Some False"
    using sv by (auto simp: CacheServer_def LRUCache_def sample_config_def lru_contains_def)
  have "\<not> is_expired (nt_now (at_time 4)) (entry_of (nt_later (at_time 3)) (nc_default_ttl_s sample_config) ''k'' ''v'' (word_of_int 5))"
    by (simp add: at_time_def is_expired_def entry_of_def expiry_of_def make_expiry_def)
  from node_put_then_get [OF r sample_allocator _ _ _ _ _ this, of "''ok''" "(''v'', 5)" "''''"] new r
  show ?thesis by (simp add: key_path_ok_def sample_lib_def) (auto simp: sample_config_def)
qed

text \<open>A PUT that is not understood changes nothing in the cache: text that is not JSON and a body
  without a value are answered 400, and a value or life of the wrong type ends in an exception.\<close>

theorem malformed_put_changes_nothing:
  assumes "key_path_ok key"
    and "\<not> (\<exists>j v ttl. jl_parse lib body = Some j \<and> jl_contains lib j ''value''
           \<and> jl_string lib j ''value'' = Some v \<and> jl_value_int lib j ''ttl'' 0 = Some ttl)"
  shows "\<exists>a. serve lib alloc t (cache_request ''PUT'' key body) sv = Some (Some a, count_request sv)
    \<and> (if jl_parse lib body = None \<or> \<not> jl_contains lib (the (jl_parse lib body)) ''value''
        then \<exists>e. a = Answer 400 e else a = Escaped)"
proof (cases "jl_parse lib body")
  case (Some j)
  with assms show ?thesis
    by (cases "jl_contains lib j ''value''"; cases "jl_string lib j ''value''"; cases "jl_value_int lib j ''ttl'' 0")
      (simp_all add: serve_def handle_put_def answering_def)
qed (use assms(1) in \<open>simp add: serve_def handle_put_def answering_def\<close>)

theorem malformed_put_changes_nothing_witness:
  "\<exists>a sv. CacheServer 0 sample_config = Inr sv
    \<and> serve (sample_lib 5) (first_fit 2) (at_time 3) (cache_request ''PUT'' ''k'' ''{'') sv = Some (Some a, count_request sv)"
proof -
  obtain sv where "CacheServer 0 sample_config = Inr sv"
    by (simp add: CacheServer_def LRUCache_def sample_config_def)
  moreover have "key_path_ok ''k''" by (simp add: key_path_ok_def)
  from malformed_put_changes_nothing [OF this, of "sample_lib 5" "''{''" "first_fit 2" "at_time 3" sv] obtain a where
    "serve (sample_lib 5) (first_fit 2) (at_time 3) (cache_request ''PUT'' ''k'' ''{'') sv = Some (Some a, count_request sv)"
    by (auto simp: sample_lib_def)
  ultimately show ?thesis by blast
qed

text \<open>A negative life is almost for ever. It wraps around to at least \<open>2^31\<close> seconds, so a
  value stored with a negative life is served for 68 years.\<close>

theorem negative_ttl_wraps:
  assumes "node_reachable lib alloc cfg sv" and "allocates (nc_cache_capacity cfg) alloc" and "key_path_ok key"
    and "jl_parse lib body = Some j" and "jl_contains lib j ''value''"
    and "jl_string lib j ''value'' = Some v" and "jl_value_int lib j ''ttl'' 0 = Some ttl"
    and "- (2 ^ 31) \<le> ttl" and "ttl < 0" and "nt_now t2 < nt_later t1 + 1000000000 * 2 ^ 31"
  shows "\<exists>a sv1 sv2. serve lib alloc t1 (cache_request ''PUT'' key body) sv = Some (a, sv1)
    \<and> serve lib alloc t2 (cache_request ''GET'' key body') sv1
        = Some (Some (Answer 200 (Value_Body key v (nc_node_id cfg) (nc_zone cfg))), sv2)"
proof -
  have "ttl mod 2 ^ 32 = (ttl + 2 ^ 32) mod 2 ^ 32" by simp
  also have "\<dots> = ttl + 2 ^ 32" using assms(8,9) by (intro mod_pos_pos_trivial) simp_all
  finally have u: "uint (word_of_int ttl :: 32 word) = ttl + 2 ^ 32" by (simp add: uint_word_of_int)
  then have "(word_of_int ttl :: 32 word) > 0" using assms(8) by (simp add: word_less_def)
  then have "\<not> is_expired (nt_now t2) (entry_of (nt_later t1) (nc_default_ttl_s cfg) key v (word_of_int ttl))"
    using assms(8,10) u by (simp add: is_expired_def entry_of_def expiry_of_def make_expiry_def)
  from put_then_get [OF node_reachable_ok [OF assms(1,2)] assms(2-7) this] show ?thesis by blast
qed

theorem negative_ttl_wraps_witness:
  "\<exists>sv a sv1 sv2. node_reachable (sample_lib (- 1)) (first_fit 2) sample_config sv
    \<and> serve (sample_lib (- 1)) (first_fit 2) (at_time 0) (cache_request ''PUT'' ''k'' ''ok'') sv = Some (a, sv1)
    \<and> serve (sample_lib (- 1)) (first_fit 2) (at_time 2000000000000000000) (cache_request ''GET'' ''k'' '''') sv1
        = Some (Some (Answer 200 (Value_Body ''k'' ''v'' ''node-1'' ''z'')), sv2)"
proof -
  obtain sv where r: "node_reachable (sample_lib (- 1)) (first_fit 2) sample_config sv" using sample_server by blast
  have "nt_now (at_time 2000000000000000000) < nt_later (at_time 0) + 1000000000 * 2 ^ 31" by (simp add: at_time_def)
  from negative_ttl_wraps [OF r sample_allocator _ _ _ _ _ _ _ this, of "''k''" "''ok''" "(''v'', - 1)" "''v''" "- 1" "''''"] r
  show ?thesis by (simp add: key_path_ok_def sample_lib_def) (auto simp: sample_config_def)
qed

end
