(* ===== verification/System.thy ===== *)
theory System
  imports Gateway Cache_Server
begin

text \<open>
  The gateway together with the cache nodes it calls: a request of a client runs through
  \<open>gateway/app/api/cache.py\<close>, over HTTP to the node at the address of the request, through
  \<open>cache-node/src/cache_server.cpp\<close> and back. What the HTTP client makes of the JSON body it sends
  is the argument \<open>dumps\<close>; what it makes of a request that the node's HTTP library answers itself
  is the argument \<open>fallback\<close>. A client request runs here without another one in between; the
  interleavings of the gateway's own segments are the subject of the theory of the gateway.
\<close>

section \<open>Model\<close>

type_synonym network = "endpoint \<Rightarrow> cache_server option"
type_synonym body_encoder = "(string \<times> int) option \<Rightarrow> string"

definition to_node :: "body_encoder \<Rightarrow> request \<Rightarrow> node_request" where
  "to_node dumps q = \<lparr>nr_method = req_method q, nr_path = req_path q, nr_body = dumps (req_body q)\<rparr>"

definition from_node :: "node_body http_outcome \<Rightarrow> node_answer option \<Rightarrow> node_body http_outcome" where
  "from_node fallback a = (case a of Some (Answer status body) \<Rightarrow> Response status (Some body) | _ \<Rightarrow> fallback)"

definition endpoint_of_request :: "request \<Rightarrow> endpoint" where
  "endpoint_of_request q = (req_host q, req_port q)"

text \<open>The call of a node. Nothing listens where the network has no server.\<close>

definition call_over_http ::
  "'j json_lib \<Rightarrow> allocator \<Rightarrow> body_encoder \<Rightarrow> node_body http_outcome \<Rightarrow> node_times \<Rightarrow> request \<Rightarrow> network
    \<Rightarrow> (node_body http_outcome \<times> network) option" where
  "call_over_http lib alloc dumps fallback t q net =
     (case net (endpoint_of_request q) of
        None \<Rightarrow> Some (Raised ConnectError, net)
      | Some sv \<Rightarrow> (case serve lib alloc t (to_node dumps q) sv of
            None \<Rightarrow> None
          | Some (a, sv') \<Rightarrow> Some (from_node fallback a, net(endpoint_of_request q \<mapsto> sv'))))"

text \<open>What a client is answered. FastAPI reads the body a handler returns as the response model of
  the route, its fields and no others, and gives up on a body that lacks one.\<close>

datatype 'a client_result = Answered 'a | Refused raised | Invalid_Response

definition respond :: "(node_body \<Rightarrow> 'a option) \<Rightarrow> raised + node_body \<Rightarrow> 'a client_result" where
  "respond model r = (case r of
     Inl e \<Rightarrow> Refused e
   | Inr b \<Rightarrow> (case model b of None \<Rightarrow> Invalid_Response | Some a \<Rightarrow> Answered a))"

fun get_model :: "node_body \<Rightarrow> cache_get_response option" where
  "get_model (Value_Body k v n z) = Some \<lparr>gr_key = k, gr_value = v, gr_node_id = n, gr_zone = z\<rparr>"
| "get_model _ = None"

fun put_model :: "node_body \<Rightarrow> cache_put_response option" where
  "put_model (Stored_Body st k n) = Some \<lparr>pr_status = st, pr_key = k, pr_node_id = n\<rparr>"
| "put_model _ = None"

fun delete_model :: "node_body \<Rightarrow> cache_delete_response option" where
  "delete_model (Deleted_Body k) = Some \<lparr>dr_status = ''deleted'', dr_key = k\<rparr>"
| "delete_model _ = None"

definition client_put ::
  "'j json_lib \<Rightarrow> allocator \<Rightarrow> body_encoder \<Rightarrow> node_body http_outcome \<Rightarrow> node_times \<Rightarrow> time \<Rightarrow> time \<Rightarrow> time
    \<Rightarrow> string \<Rightarrow> string option \<Rightarrow> cache_put_request \<Rightarrow> gateway \<Rightarrow> network
    \<Rightarrow> (cache_put_response client_result \<times> gateway \<times> network) option" where
  "client_put lib alloc dumps fallback t start finish pin key zone put g net =
     (case put_key_start start key put (Some g) of
        (Inl e, g1) \<Rightarrow> Some (Refused e, the g1, net)
      | (Inr q, g1) \<Rightarrow> (case call_over_http lib alloc dumps fallback t q net of
            None \<Rightarrow> None
          | Some (outcome, net1) \<Rightarrow>
              (case put_key_finish finish pin key zone q outcome (the g1) of (r, g2) \<Rightarrow> Some (respond put_model r, g2, net1))))"

definition client_get ::
  "'j json_lib \<Rightarrow> allocator \<Rightarrow> body_encoder \<Rightarrow> node_body http_outcome \<Rightarrow> node_times \<Rightarrow> (string \<Rightarrow> time) \<Rightarrow> time
    \<Rightarrow> string \<Rightarrow> string option \<Rightarrow> gateway \<Rightarrow> network \<Rightarrow> (cache_get_response client_result \<times> gateway \<times> network) option" where
  "client_get lib alloc dumps fallback t clock finish key zone g net =
     (case get_key_start clock key zone (Some g) of
        (Inl e, g1) \<Rightarrow> Some (Refused e, the g1, net)
      | (Inr q, g1) \<Rightarrow> (case call_over_http lib alloc dumps fallback t q net of
            None \<Rightarrow> None
          | Some (outcome, net1) \<Rightarrow>
              (case get_key_finish finish q outcome (the g1) of (r, g2) \<Rightarrow> Some (respond get_model r, g2, net1))))"

text \<open>A deletion, in the same way.\<close>

definition client_delete ::
  "'j json_lib \<Rightarrow> allocator \<Rightarrow> body_encoder \<Rightarrow> node_body http_outcome \<Rightarrow> node_times \<Rightarrow> time \<Rightarrow> time
    \<Rightarrow> string \<Rightarrow> gateway \<Rightarrow> network \<Rightarrow> (cache_delete_response client_result \<times> gateway \<times> network) option" where
  "client_delete lib alloc dumps fallback t start finish key g net =
     (case delete_key_start start key (Some g) of
        (Inl e, g1) \<Rightarrow> Some (Refused e, the g1, net)
      | (Inr q, g1) \<Rightarrow> (case call_over_http lib alloc dumps fallback t q net of
            None \<Rightarrow> None
          | Some (outcome, net1) \<Rightarrow>
              (case delete_key_finish finish q outcome (the g1) of (r, g2) \<Rightarrow> Some (respond delete_model r, g2, net1))))"

text \<open>The network as its nodes were configured, each with memory for its capacity.\<close>

definition network_ok :: "(endpoint \<Rightarrow> node_config) \<Rightarrow> allocator \<Rightarrow> network \<Rightarrow> bool" where
  "network_ok cfg alloc net \<longleftrightarrow>
     (\<forall>ep sv. net ep = Some sv \<longrightarrow> server_ok (cfg ep) sv \<and> allocates (nc_cache_capacity (cfg ep)) alloc)"

text \<open>The node's JSON library reads the body the gateway sends.\<close>

definition reads_body :: "'j json_lib \<Rightarrow> body_encoder \<Rightarrow> string \<Rightarrow> int \<Rightarrow> bool" where
  "reads_body lib dumps v ttl \<longleftrightarrow> (\<exists>j. jl_parse lib (dumps (Some (v, ttl))) = Some j \<and> jl_contains lib j ''value''
     \<and> jl_string lib j ''value'' = Some v \<and> jl_value_int lib j ''ttl'' 0 = Some ttl)"

section \<open>What a call does to the network\<close>

lemma respond_simps [simp]:
  "respond model (Inl e) = Refused e"
  "respond model (Inr b) = (case model b of None \<Rightarrow> Invalid_Response | Some a \<Rightarrow> Answered a)"
  by (simp_all add: respond_def)

lemma client_put_answered:
  assumes "client_put lib alloc dumps fallback t start finish pin key zone put g net = Some (Answered r, g1, net1)"
    and "put_key_start start key put (Some g) = (Inr q, Some g0)"
  shows "\<exists>outcome b. call_over_http lib alloc dumps fallback t q net = Some (outcome, net1)
    \<and> put_key_finish finish pin key zone q outcome g0 = (Inr b, g1)"
proof -
  from assms obtain outcome net' x where call: "call_over_http lib alloc dumps fallback t q net = Some (outcome, net')"
    and fin: "put_key_finish finish pin key zone q outcome g0 = (x, g1)" and "net' = net1" "respond put_model x = Answered r"
    by (auto simp: client_put_def split: option.splits prod.splits)
  then show ?thesis by (cases x) auto
qed

lemma network_ok_update:
  "network_ok cfg alloc net \<Longrightarrow> net ep = Some sv \<Longrightarrow> server_ok (cfg ep) sv' \<Longrightarrow> network_ok cfg alloc (net(ep \<mapsto> sv'))"
  by (auto simp: network_ok_def)

lemma call_over_http_ok:
  assumes "network_ok cfg alloc net"
  shows "\<exists>outcome net'. call_over_http lib alloc dumps fallback t q net = Some (outcome, net') \<and> network_ok cfg alloc net'"
proof (cases "net (endpoint_of_request q)")
  case (Some sv)
  with assms have ok: "server_ok (cfg (endpoint_of_request q)) sv"
    and a: "allocates (nc_cache_capacity (cfg (endpoint_of_request q))) alloc" unfolding network_ok_def by blast+
  from serve_ok [OF ok a, of lib t "to_node dumps q"] obtain b sv' where
    "serve lib alloc t (to_node dumps q) sv = Some (b, sv')" "server_ok (cfg (endpoint_of_request q)) sv'" by blast
  with Some network_ok_update [OF assms Some] show ?thesis by (auto simp: call_over_http_def)
qed (use assms in \<open>simp add: call_over_http_def\<close>)

lemma client_put_ok:
  assumes "network_ok cfg alloc net"
  shows "\<exists>r g' net'. client_put lib alloc dumps fallback t start finish pin key zone put g net = Some (r, g', net')
    \<and> network_ok cfg alloc net'"
proof (cases "put_key_start start key put (Some g)")
  case (Pair r g1)
  show ?thesis
  proof (cases r)
    case (Inr q)
    from call_over_http_ok [OF assms, of lib dumps fallback t q] obtain outcome net' where
      "call_over_http lib alloc dumps fallback t q net = Some (outcome, net')" "network_ok cfg alloc net'" by blast
    with Pair Inr show ?thesis by (auto simp: client_put_def split: prod.splits)
  qed (use Pair assms in \<open>simp add: client_put_def\<close>)
qed

lemma client_get_ok:
  assumes "network_ok cfg alloc net"
  shows "\<exists>r g' net'. client_get lib alloc dumps fallback t clock finish key zone g net = Some (r, g', net')
    \<and> network_ok cfg alloc net'"
proof (cases "get_key_start clock key zone (Some g)")
  case (Pair r g1)
  show ?thesis
  proof (cases r)
    case (Inr q)
    from call_over_http_ok [OF assms, of lib dumps fallback t q] obtain outcome net' where
      "call_over_http lib alloc dumps fallback t q net = Some (outcome, net')" "network_ok cfg alloc net'" by blast
    with Pair Inr show ?thesis by (auto simp: client_get_def split: prod.splits)
  qed (use Pair assms in \<open>simp add: client_get_def\<close>)
qed

text \<open>The request a handler builds.\<close>

lemma get_start_shape:
  "get_key_start clock key zone (Some g) = (Inr q, g1) \<Longrightarrow>
   req_method q = ''GET'' \<and> req_path q = cache_path key \<and> (\<exists>g'. g1 = Some g')"
  by (auto simp: get_key_start_def call_start_def guard_call_def Let_def split: sum.splits prod.splits option.splits if_splits)

lemma put_start_shape:
  "put_key_start now key put (Some g) = (Inr q, g1) \<Longrightarrow>
   req_method q = ''PUT'' \<and> req_path q = cache_path key
     \<and> req_body q = Some (put_value put, case put_ttl put of None \<Rightarrow> 0 | Some t \<Rightarrow> t) \<and> (\<exists>g'. g1 = Some g')"
  by (auto simp: put_key_start_def primary_start_def call_start_def guard_call_def Let_def
      split: sum.splits prod.splits option.splits if_splits)

section \<open>Reading after writing\<close>

text \<open>The characters a URL carries unchanged.\<close>

definition url_chars :: string where
  "url_chars = ''ABCDEFGHIJKLMNOPQRSTUVWXYZabcdefghijklmnopqrstuvwxyz0123456789-._~''"

definition url_plain :: "string \<Rightarrow> bool" where
  "url_plain key \<longleftrightarrow> key \<noteq> '''' \<and> list_all (\<lambda>ch. ch \<in> set url_chars) key"

lemma url_chars_no_line_end: "CHR 0x0A \<notin> set url_chars" "CHR 0x0D \<notin> set url_chars"
  by (simp_all add: url_chars_def)

lemma url_plain_path: "url_plain key \<Longrightarrow> key_path_ok key"
  using url_chars_no_line_end by (auto simp: url_plain_def key_path_ok_def list_all_iff)

lemma get_absent:
  assumes "server_ok cfg sv" and "key_path_ok key" and "lru_contains (nt_now t) key (sv_cache sv) = Some False"
  shows "\<exists>sv'. serve lib alloc t (cache_request ''GET'' key body) sv
    = Some (Some (Answer 404 (Error_Body ''key not found'' (Some key))), sv')"
proof -
  obtain s where s: "implements (sv_cache sv) s" using assms(1) by (rule server_okE)
  have "fst (spec_get (nt_now t) key s) = None"
    using lru_contains_refines [OF s, of "nt_now t" key] assms(3) by (auto simp: spec_get_def Let_def split: option.splits)
  with handle_get_effect [of cfg "count_request sv" s "nt_now t" key] assms(1,2) s show ?thesis
    by (auto simp: serve_def answering_def)
qed

lemma to_node_cache:
  "req_path q = cache_path key \<Longrightarrow> to_node dumps q = cache_request (req_method q) key (dumps (req_body q))"
  by (simp add: to_node_def cache_path_def)

lemma put_acknowledged:
  assumes net: "network_ok cfg alloc net" and key: "key_path_ok key"
    and start: "put_key_start start key put (Some g) = (Inr q, g0)"
    and body: "reads_body lib dumps (put_value put) ttl" "ttl = (case put_ttl put of None \<Rightarrow> 0 | Some t \<Rightarrow> t)"
    and put: "client_put lib alloc dumps fallback t1 start finish pin key zone put g net = Some (Answered r, g1, net1)"
    and fresh: "\<not> is_expired (nt_now t2) (entry_of (nt_later t1) (nc_default_ttl_s (cfg (endpoint_of_request q))) key
      (put_value put) (word_of_int ttl))"
  shows "\<exists>sv1 sv2. net1 = net(endpoint_of_request q \<mapsto> sv1) \<and> serve lib alloc t2 (cache_request ''GET'' key body') sv1
    = Some (Some (Answer 200 (Value_Body key (put_value put) (nc_node_id (cfg (endpoint_of_request q)))
        (nc_zone (cfg (endpoint_of_request q))))), sv2)"
proof -
  let ?ep = "endpoint_of_request q"
  from put_start_shape [OF start] obtain g0' where q: "req_method q = ''PUT''" "req_path q = cache_path key"
    "req_body q = Some (put_value put, ttl)" "g0 = Some g0'" using body(2) by auto
  from client_put_answered [OF put start [unfolded q(4)]] obtain outcome b where
    call: "call_over_http lib alloc dumps fallback t1 q net = Some (outcome, net1)"
    and fin: "put_key_finish finish pin key zone q outcome g0' = (Inr b, g1)" by blast
  have "net ?ep \<noteq> None"
  proof
    assume "net ?ep = None"
    with call have "outcome = Raised ConnectError" by (simp add: call_over_http_def)
    with fin show False by (auto simp: put_key_finish_def call_finish_def Let_def)
  qed
  then obtain sv where sv: "net ?ep = Some sv" by blast
  then have ok: "server_ok (cfg ?ep) sv" and a: "allocates (nc_cache_capacity (cfg ?ep)) alloc"
    using net unfolding network_ok_def by blast+
  from body(1) obtain j where j: "jl_parse lib (dumps (req_body q)) = Some j" "jl_contains lib j ''value''"
    "jl_string lib j ''value'' = Some (put_value put)" "jl_value_int lib j ''ttl'' 0 = Some ttl"
    using q(3) by (auto simp: reads_body_def)
  from put_then_get [OF ok a key j fresh, of body'] obtain b sv1 sv2 where
    "serve lib alloc t1 (cache_request ''PUT'' key (dumps (req_body q))) sv = Some (b, sv1)"
    and get: "serve lib alloc t2 (cache_request ''GET'' key body') sv1
      = Some (Some (Answer 200 (Value_Body key (put_value put) (nc_node_id (cfg ?ep)) (nc_zone (cfg ?ep)))), sv2)" by blast
  with call sv to_node_cache [OF q(2), of dumps] q(1) have "net1 = net(?ep \<mapsto> sv1)"
    by (simp add: call_over_http_def)
  with get show ?thesis by blast
qed

lemma put_finished:
  assumes "put_key_finish finish pin key zone q outcome g = (Inr r, g1)"
  shows "gw_breaker g1 = record_success finish (req_node q) (gw_breaker g) \<and> gw_cluster g1 = gw_cluster g
    \<and> latency_map (gw_zone g1) = latency_map (gw_zone g)"
  using assms by (cases outcome)
    (auto simp: put_key_finish_def call_finish_def pin_write_def Let_def split: if_splits option.splits)

lemma available_after_success: "fst (is_available t n (record_success t' n cb))"
  by (auto simp: breaker_defs dict_maps NodeCircuit_def split: option.splits)

text \<open>The gateway measures no latency, so a read goes to the first replica the breaker admits.\<close>

lemma step_latency:
  "gateway_step w a w' \<Longrightarrow> latency_map (gw_zone (wd_gateway w')) = latency_map (gw_zone (wd_gateway w))"
  by (induction rule: gateway_step.induct)
    (auto simp: set_cluster_def check_timeouts_def failure_detection_iteration_def launch_def split_beta
      get_key_start_def put_key_start_def delete_key_start_def primary_start_def Let_def
      get_key_finish_def put_key_finish_def delete_key_finish_def pin_write_def
      split: handler.split sum.split option.split)

lemma run_latency:
  "gateway_run w as w' \<Longrightarrow> latency_map (gw_zone (wd_gateway w')) = latency_map (gw_zone (wd_gateway w))"
  by (induction rule: gateway_run.induct) (simp_all add: step_latency)

lemma reachable_latency: "reachable s as w \<Longrightarrow> latency_map (gw_zone (wd_gateway w)) = []"
  using startup_gateway run_latency by (fastforce simp: reachable_def ZoneRouter_def)

lemma pick_unmeasured: "latency_map zr = [] \<Longrightarrow> ns \<noteq> [] \<Longrightarrow> pick_by_latency zr ns = Some (hd ns)"
proof -
  assume "latency_map zr = []" "ns \<noteq> []"
  moreover from this have "sort_key (latency_of zr) ns = ns"
    by (intro sort_key_id_if_sorted) (simp add: latency_of_def dict_get_def sorted_iff_nth_mono)
  ultimately show ?thesis by (simp add: pick_by_latency_def)
qed

lemma put_start_known:
  assumes "put_key_start start key put (Some g) = (Inr q, Some g0)"
  shows "get_node_for_key (gw_cluster g) key = Inr (Some (req_node q)) \<and> addressed (gw_cluster g) q
    \<and> gw_cluster g0 = gw_cluster g \<and> gw_zone g0 = gw_zone g"
  using primary_start_request [OF assms [unfolded put_key_start_def]] by auto

text \<open>A read right after a write that succeeded goes where the write went.\<close>

lemma read_follows_write:
  assumes ok: "ring_ok (gw_cluster g)" and rf: "0 < replication_factor (gw_cluster g)"
    and zone: "latency_map (gw_zone g) = []"
    and start: "put_key_start start key put (Some g) = (Inr q, Some g0)"
    and fin: "put_key_finish finish pin key zone q outcome g0 = (Inr r, g1)"
  shows "\<exists>q' g2. get_key_start clock key zone' (Some g1) = (Inr q', Some g2)
    \<and> endpoint_of_request q' = endpoint_of_request q"
proof -
  note known = put_start_known [OF start] and g1 = put_finished [OF fin]
  have cm: "gw_cluster g1 = gw_cluster g" and lat: "latency_map (gw_zone g1) = []" using known g1 zone by auto
  have ok1: "ring_ok (gw_cluster g1)" using ok cm by simp
  from route_replicas [OF ok1, of key] obtain rs where rs: "get_replicas_for_key (gw_cluster g1) key = Inr rs"
    by auto
  from route_primary [OF ok1 _ rs(1)] rf cm known have hd: "rs \<noteq> [] \<and> hd rs = req_node q" by (auto split: if_splits)
  let ?avail = "filter (\<lambda>n. fst (is_available (clock n) n (gw_breaker g1))) rs"
  have avail: "?avail \<noteq> []" "hd ?avail = req_node q"
    using hd available_after_success g1 by (cases rs; auto)+
  then have pick: "pick_by_latency (gw_zone g1) ?avail = Some (req_node q)" using pick_unmeasured [OF lat] by simp
  have "node_of (gw_cluster g1) (req_node q) \<noteq> None" using known cm by (auto simp: addressed_def)
  from call_start_known [OF this, of "''GET''" "cache_path key" None] obtain q' where
    q': "guard_call (call_start (gw_cluster g1) (req_node q) ''GET'' (cache_path key) None) = Inr q'"
    "req_node q' = req_node q" "addressed (gw_cluster g1) q'" by auto
  have "endpoint_of_request q' = endpoint_of_request q"
    using q'(2,3) known cm by (auto simp: addressed_def endpoint_of_request_def)
  with get_key_start_replicas [OF ok1 rs(1), of clock zone'] hd avail pick q'(1) show ?thesis
    by (simp add: Let_def)
qed

lemma client_get_served:
  assumes "get_key_start clock key zone (Some g) = (Inr q, Some g1)" and "net (endpoint_of_request q) = Some sv"
    and "serve lib alloc t (cache_request ''GET'' key (dumps (req_body q))) sv = Some (Some (Answer status b), sv')"
  shows "\<exists>g2 net2. client_get lib alloc dumps fallback t clock finish key zone g net = Some (
    if status = 404 then Refused (Http (HTTPException 404 ''Key not found''))
    else if status \<noteq> 200 then Refused (Http (HTTPException status ''Cache node error''))
    else respond get_model (Inr b), g2, net2)"
  using assms get_start_shape [OF assms(1)] to_node_cache [of q key dumps]
  by (auto simp: client_get_def call_over_http_def from_node_def get_key_finish_def call_finish_def)

text \<open>C2 Clients read their writes. In any reachable state of the gateway, when a PUT was acknowledged
  and a GET of the key follows, the client gets the value it wrote, the node and its zone, unless the
  entry expired: the read goes to the node that took the write and the node serves it.\<close>

theorem read_your_writes:
  assumes "reachable s as w" and "0 < set_replication_factor s" and "network_ok cfg alloc net" and "url_plain key"
    and "put_key_start start key put (Some (wd_gateway w)) = (Inr q, g0)"
    and "reads_body lib dumps (put_value put) ttl" and "ttl = (case put_ttl put of None \<Rightarrow> 0 | Some t \<Rightarrow> t)"
    and "client_put lib alloc dumps fallback t1 start finish pin key zone put (wd_gateway w) net = Some (Answered r, g1, net1)"
    and "\<not> is_expired (nt_now t2) (entry_of (nt_later t1) (nc_default_ttl_s (cfg (endpoint_of_request q))) key
      (put_value put) (word_of_int ttl))"
  shows "\<exists>g2 net2. client_get lib alloc dumps fallback t2 clock finish' key zone' g1 net1 = Some (Answered
      \<lparr>gr_key = key, gr_value = put_value put, gr_node_id = nc_node_id (cfg (endpoint_of_request q)),
       gr_zone = nc_zone (cfg (endpoint_of_request q))\<rparr>, g2, net2)"
proof -
  have key: "key_path_ok key" by (rule url_plain_path [OF assms(4)])
  have ring: "ring_ok (cluster_of w)" using reachable_ok [OF assms(1)] by (simp add: cluster_ok_def)
  have rf: "0 < replication_factor (cluster_of w)" using reachable_cluster [OF assms(1)] assms(2) cluster_run_config by metis
  from put_start_shape [OF assms(5)] obtain g0' where g0: "g0 = Some g0'" by blast
  from client_put_answered [OF assms(8) assms(5) [unfolded g0]] obtain outcome b where
    "call_over_http lib alloc dumps fallback t1 q net = Some (outcome, net1)"
    and "put_key_finish finish pin key zone q outcome g0' = (Inr b, g1)" by blast
  from read_follows_write [OF ring rf reachable_latency [OF assms(1)] assms(5) [unfolded g0] this(2), of clock zone'] obtain q' g2'
    where q': "get_key_start clock key zone' (Some g1) = (Inr q', Some g2')" "endpoint_of_request q' = endpoint_of_request q"
    by blast
  from put_acknowledged [OF assms(3) key assms(5-9), of "dumps (req_body q')"] obtain sv1 sv2 where
    "net1 = net(endpoint_of_request q \<mapsto> sv1)"
    "serve lib alloc t2 (cache_request ''GET'' key (dumps (req_body q'))) sv1 = Some (Some (Answer 200 (Value_Body key
      (put_value put) (nc_node_id (cfg (endpoint_of_request q))) (nc_zone (cfg (endpoint_of_request q))))), sv2)" by blast
  with client_get_served [OF q'(1), of net1 sv1 lib alloc t2 dumps] q'(2) show ?thesis by simp
qed

text \<open>A read that fails over misses. When a GET is sent to a node that does not hold the key, as a
  replica to which no write was ever copied, the client is answered 404 whatever the other nodes
  hold.\<close>

theorem failover_read_misses:
  assumes "network_ok cfg alloc net" and "url_plain key"
    and "get_key_start clock key zone (Some g) = (Inr q, Some g1)"
    and "net (endpoint_of_request q) = Some sv" and "lru_contains (nt_now t) key (sv_cache sv) = Some False"
  shows "\<exists>g2 net2. client_get lib alloc dumps fallback t clock finish key zone g net
    = Some (Refused (Http (HTTPException 404 ''Key not found'')), g2, net2)"
proof -
  have "server_ok (cfg (endpoint_of_request q)) sv" using assms(1,4) unfolding network_ok_def by blast
  from get_absent [OF this url_plain_path [OF assms(2)] assms(5), of lib alloc "dumps (req_body q)"] obtain sv' where
    "serve lib alloc t (cache_request ''GET'' key (dumps (req_body q))) sv
      = Some (Some (Answer 404 (Error_Body ''key not found'' (Some key))), sv')" by blast
  from client_get_served [where dumps = dumps and net = net, OF assms(3,4) this] show ?thesis by simp
qed

section \<open>Witnesses\<close>

lemma put_accepted:
  assumes net: "network_ok cfg alloc net" and key: "key_path_ok key"
    and start: "put_key_start start key put (Some g) = (Inr q, g0)"
    and body: "reads_body lib dumps (put_value put) ttl" "ttl = (case put_ttl put of None \<Rightarrow> 0 | Some t \<Rightarrow> t)"
    and sv: "net (endpoint_of_request q) = Some sv"
  shows "\<exists>r g1 net1. client_put lib alloc dumps fallback t start finish pin key zone put g net = Some (Answered r, g1, net1)"
proof -
  from put_start_shape [OF start] obtain g0' where q: "req_method q = ''PUT''" "req_path q = cache_path key"
    "req_body q = Some (put_value put, ttl)" "g0 = Some g0'" using body(2) by auto
  have ok: "server_ok (cfg (endpoint_of_request q)) (count_request sv)"
    and a: "allocates (nc_cache_capacity (cfg (endpoint_of_request q))) alloc"
    using net sv unfolding network_ok_def server_ok_count by blast+
  from body(1) obtain j where j: "jl_parse lib (dumps (req_body q)) = Some j" "jl_contains lib j ''value''"
    "jl_string lib j ''value'' = Some (put_value put)" "jl_value_int lib j ''ttl'' 0 = Some ttl"
    using q(3) by (auto simp: reads_body_def)
  obtain s where "implements (sv_cache (count_request sv)) s" using ok by (rule server_okE)
  from handle_put_effect [OF ok this a j] obtain existed word n sv1 where
    "handle_put lib alloc (nt_now t) (nt_later t) key (dumps (req_body q)) (count_request sv)
      = Some (Answer (if existed then 200 else 201) (Stored_Body word key n), sv1)" by blast
  with key to_node_cache [OF q(2), of dumps] q(1,4) sv start show ?thesis
    by (auto simp: client_put_def call_over_http_def serve_def answering_def from_node_def put_key_finish_def
        call_finish_def Let_def split: prod.splits)
qed

lemma demo_put_start: "\<exists>q g'. put_key_start 1 ''k'' put (Some demo_gateway) = (Inr q, Some g')
    \<and> endpoint_of_request q = (''host'', 8001)"
proof -
  let ?body = "Some (put_value put, case put_ttl put of None \<Rightarrow> 0 | Some t \<Rightarrow> t)"
  have "get_node_for_key (cluster_run 15 3 [demo_join ''a'']) ''k'' = Inr (Some ''a'')"
    unfolding get_node_for_key_def demo_ring_a by (simp add: ring160.owner_single)
  then have owner: "get_node_for_key (gw_cluster demo_gateway) ''k'' = Inr (Some ''a'')" by (simp only: gateway.simps)
  have node: "node_of (gw_cluster demo_gateway) ''a'' = Some (NodeMetadata 0 ''a'' ''host'' 8001 ''zone'')"
    by (simp add: cluster_eval)
  from call_start_known [of "gw_cluster demo_gateway" "''a''" "''PUT''" "cache_path ''k''" ?body] node obtain q where
    q: "guard_call (call_start (gw_cluster demo_gateway) ''a'' ''PUT'' (cache_path ''k'') ?body) = Inr q"
    "req_node q = ''a''" "addressed (gw_cluster demo_gateway) q" by (simp del: gateway.simps) blast
  have "fst (is_available 1 ''a'' (gw_breaker demo_gateway))"
    by (simp add: CircuitBreaker_def is_available_def get_circuit_def NodeCircuit_def Let_def)
  with owner q(1) have "\<exists>g'. put_key_start 1 ''k'' put (Some demo_gateway) = (Inr q, Some g')"
    by (simp add: put_key_start_def primary_start_def falsy_def Let_def split_beta del: gateway.simps)
  moreover have "endpoint_of_request q = (''host'', 8001)"
    using q(2,3) node by (simp add: addressed_def endpoint_of_request_def NodeMetadata_def del: gateway.simps)
  ultimately show ?thesis by blast
qed

abbreviation demo_put :: cache_put_request where
  "demo_put \<equiv> \<lparr>put_value = ''v'', put_ttl = None\<rparr>"

lemma demo_network:
  assumes "CacheServer 0 sample_config = Inr sv"
  shows "network_ok (\<lambda>_. sample_config) (first_fit 2) [(''host'', 8001) \<mapsto> sv]"
  using CacheServer_ok [OF assms] sample_allocator by (simp add: network_ok_def)

lemma demo_reads: "reads_body (sample_lib 0) (\<lambda>_. ''ok'') ''v'' 0"
  by (simp add: reads_body_def sample_lib_def)

lemma demo_fresh: "\<not> is_expired t (entry_of t' (nc_default_ttl_s sample_config) ''k'' ''v'' (word_of_int 0))"
  by (simp add: is_expired_def entry_of_def expiry_of_def sample_config_def)

lemma demo_key: "url_plain ''k''"
  by (simp add: url_plain_def url_chars_def)

theorem read_your_writes_witness:
  "\<exists>w net r g1 net1 g2 net2. reachable demo_settings [demo_register] w
    \<and> client_put (sample_lib 0) (first_fit 2) (\<lambda>_. ''ok'') (Raised OtherError) (at_time 1) 1 1 1 ''k'' None demo_put
        (wd_gateway w) net = Some (Answered r, g1, net1)
    \<and> client_get (sample_lib 0) (first_fit 2) (\<lambda>_. ''ok'') (Raised OtherError) (at_time 2) (\<lambda>_. 2) 2 ''k'' None g1 net1
        = Some (Answered \<lparr>gr_key = ''k'', gr_value = ''v'', gr_node_id = ''node-1'', gr_zone = ''z''\<rparr>, g2, net2)"
proof -
  obtain w where w: "reachable demo_settings [demo_register] w" "wd_gateway w = demo_gateway" using demo_registered by blast
  obtain sv where sv: "CacheServer 0 sample_config = Inr sv"
    by (simp add: CacheServer_def LRUCache_def sample_config_def)
  let ?net = "[(''host'', 8001) \<mapsto> sv]"
  obtain q g' where q: "put_key_start 1 ''k'' demo_put (Some (wd_gateway w)) = (Inr q, Some g')"
    "endpoint_of_request q = (''host'', 8001)" using demo_put_start unfolding w(2) by blast
  have reads: "reads_body (sample_lib 0) (\<lambda>_. ''ok'') (put_value demo_put) 0"
    and ttl: "0 = (case put_ttl demo_put of None \<Rightarrow> 0 | Some t \<Rightarrow> t)" using demo_reads by simp_all
  obtain r g1 net1 where put: "client_put (sample_lib 0) (first_fit 2) (\<lambda>_. ''ok'') (Raised OtherError) (at_time 1) 1 1 1
      ''k'' None demo_put (wd_gateway w) ?net = Some (Answered r, g1, net1)"
    using put_accepted [OF demo_network [OF sv] url_plain_path [OF demo_key] q(1) reads ttl, of sv] q(2) by fastforce
  have rf: "0 < set_replication_factor demo_settings" by (simp add: default_settings_def)
  have "\<not> is_expired (nt_now (at_time 2)) (entry_of (nt_later (at_time 1)) (nc_default_ttl_s sample_config) ''k''
      (put_value demo_put) (word_of_int 0))" using demo_fresh by simp
  from read_your_writes [OF w(1) rf demo_network [OF sv] demo_key q(1) reads ttl put this, of "\<lambda>_. 2" 2 None] w(1) put
  show ?thesis by (simp add: sample_config_def) blast
qed

theorem failover_read_misses_witness:
  "\<exists>sv g2 net2. client_get (sample_lib 0) (first_fit 2) (\<lambda>_. ''ok'') (Raised OtherError) (at_time 2) (\<lambda>_. 1) 2 ''k'' None
    demo_gateway [(''host'', 8001) \<mapsto> sv] = Some (Refused (Http (HTTPException 404 ''Key not found'')), g2, net2)"
proof -
  obtain sv where sv: "CacheServer 0 sample_config = Inr sv"
    by (simp add: CacheServer_def LRUCache_def sample_config_def)
  have empty: "lru_contains (nt_now (at_time 2)) ''k'' (sv_cache sv) = Some False"
    using sv by (auto simp: CacheServer_def LRUCache_def sample_config_def lru_contains_def)
  obtain q g' where q: "get_key_start (\<lambda>n. 1) ''k'' None (Some demo_gateway) = (Inr q, Some g')" using demo_get by blast
  have "addressed (gw_cluster demo_gateway) q \<and> req_node q = ''a''"
    using get_key_start_request [OF _ q] cluster_run_ring [of 15 3 "[demo_join ''a'']"] demo_replicas [of "''k''"]
    by (auto simp del: foldl.simps foldl_Cons)
  moreover have "node_of (gw_cluster demo_gateway) ''a'' = Some (NodeMetadata 0 ''a'' ''host'' 8001 ''zone'')"
    by (simp add: cluster_eval)
  ultimately have "endpoint_of_request q = (''host'', 8001)"
    by (auto simp: addressed_def endpoint_of_request_def NodeMetadata_def simp del: foldl.simps foldl_Cons)
  with failover_read_misses [OF demo_network [OF sv] demo_key q _ empty] show ?thesis by fastforce
qed

end
