(* ===== verification/Node_Map.thy ===== *)
theory Node_Map
  imports Cache_Server
begin

text \<open>
  A cache node as a map: as long as it is not full and nothing expires, the answers of its handlers
  are those of a map from keys to values. First the operations of the abstract LRU cache on such
  contents, then the handlers.
\<close>

section \<open>Contents that do not expire\<close>

definition maps_to :: "lru_spec \<Rightarrow> (string \<rightharpoonup> string) \<Rightarrow> bool" where
  "maps_to s f \<longleftrightarrow> spec_ok s \<and> (\<forall>e\<in>set (sp_entries s). ce_expires_at e = None)
     \<and> (\<forall>k. map_option ce_value (find_entry k (sp_entries s)) = f k)"

lemma maps_to_at: "maps_to s f \<Longrightarrow> f k = map_option ce_value (find_entry k (sp_entries s))"
  by (simp add: maps_to_def)

lemma maps_to_live: "maps_to s f \<Longrightarrow> e \<in> set (sp_entries s) \<Longrightarrow> \<not> is_expired now e"
  by (simp add: maps_to_def is_expired_def)

lemma maps_to_found: "maps_to s f \<Longrightarrow> find_entry k (sp_entries s) = Some e \<Longrightarrow> e \<in> set (sp_entries s) \<and> \<not> is_expired now e"
  by (auto dest: find_entry_split simp: maps_to_live)

lemma maps_to_dom:
  assumes "maps_to s f"
  shows "dom f = ce_key ` set (sp_entries s)"
proof -
  have "k \<in> dom f \<longleftrightarrow> k \<in> ce_key ` set (sp_entries s)" for k
    using find_entry_None [of k "sp_entries s"] by (simp add: domIff maps_to_at [OF assms])
  then show ?thesis by blast
qed

lemma maps_to_size:
  assumes "maps_to s f"
  shows "length (sp_entries s) = card (dom f) \<and> finite (dom f)"
proof -
  have "distinct (map ce_key (sp_entries s))" using assms by (simp add: maps_to_def spec_ok_def)
  from distinct_card [OF this] show ?thesis by (simp add: maps_to_dom [OF assms])
qed

lemma maps_to_get:
  assumes "maps_to s f"
  shows "fst (spec_get now k s) = f k" and "maps_to (snd (spec_get now k s)) f"
proof -
  have ok: "spec_ok (snd (spec_get now k s))" using assms by (simp add: maps_to_def spec_ok_get)
  have "fst (spec_get now k s) = f k \<and> maps_to (snd (spec_get now k s)) f"
  proof (cases "find_entry k (sp_entries s)")
    case (Some e)
    then have e: "e \<in> set (sp_entries s)" "\<not> is_expired now e" using maps_to_found [OF assms] by blast+
    have key: "ce_key e = k" using find_entry_split [OF Some] by blast
    then have g: "spec_get now k s = (Some (ce_value e), s\<lparr>sp_entries := e # drop_key k (sp_entries s),
        sp_metrics := (sp_metrics s)\<lparr>hits := hits (sp_metrics s) + 1\<rparr>\<rparr>)" using Some e by (simp add: spec_get_def Let_def)
    have "f k = Some (ce_value e)" by (simp add: maps_to_at [OF assms] Some)
    with assms ok e key show ?thesis
      unfolding g by (simp add: maps_to_def find_entry_drop_key) (simp add: drop_key_def)
  qed (use assms ok maps_to_at [OF assms, of k] in \<open>auto simp: maps_to_def spec_get_def Let_def\<close>)
  then show "fst (spec_get now k s) = f k" and "maps_to (snd (spec_get now k s)) f" by auto
qed

lemma maps_to_put:
  assumes "maps_to s f" and "sp_ttl s = 0" and "f k \<noteq> None \<or> card (dom f) < sp_capacity s"
  shows "maps_to (spec_put now k v 0 s) (f(k \<mapsto> v))"
proof -
  let ?e = "\<lparr>ce_key = k, ce_value = v, ce_expires_at = None\<rparr>"
  have expiry: "expiry_of now (sp_ttl s) 0 = None" using assms(2) by (simp add: expiry_of_def)
  have "length (sp_entries s) < sp_capacity s" if "find_entry k (sp_entries s) = None"
    using that assms(3) maps_to_size [OF assms(1)] maps_to_at [OF assms(1), of k] by simp
  then have es: "sp_entries (spec_put now k v 0 s) = ?e # drop_key k (sp_entries s)"
    by (cases "find_entry k (sp_entries s)") (auto simp: spec_put_def Let_def expiry drop_key_id find_entry_None)
  have "spec_ok (spec_put now k v 0 s)" using assms(1) by (simp add: maps_to_def spec_ok_put)
  with assms(1) es show ?thesis by (auto simp: maps_to_def find_entry_drop_key) (simp add: drop_key_def)
qed

lemma maps_to_remove:
  assumes "maps_to s f"
  shows "fst (spec_remove k s) = (f k \<noteq> None)" and "maps_to (snd (spec_remove k s)) (f(k := None))"
proof -
  show "fst (spec_remove k s) = (f k \<noteq> None)" by (simp add: spec_remove_def maps_to_at [OF assms])
  have "sp_entries (snd (spec_remove k s)) = drop_key k (sp_entries s)"
    by (auto simp: spec_remove_def drop_key_id find_entry_None)
  moreover have "spec_ok (snd (spec_remove k s))" using assms by (simp add: maps_to_def spec_ok_remove)
  ultimately show "maps_to (snd (spec_remove k s)) (f(k := None))"
    using assms by (auto simp: maps_to_def find_entry_drop_key) (simp add: drop_key_def)
qed

lemma maps_to_all_live:
  assumes "maps_to s f"
  shows "filter (live_entry clock) (sp_entries s) = sp_entries s"
    and "filter (\<lambda>e. \<not> live_entry clock e) (sp_entries s) = []"
  using maps_to_live [OF assms] by (auto simp: live_entry_def filter_id_conv filter_empty_conv)

lemma maps_to_purge: "maps_to s f \<Longrightarrow> snd (spec_purge clock s) = s"
  by (simp add: spec_purge_def Let_def maps_to_all_live)

lemma maps_to_snapshot:
  assumes "maps_to s f"
  shows "distinct (map fst (spec_snapshot now clock s)) \<and> fst ` set (spec_snapshot now clock s) = dom f
    \<and> (\<forall>(k, v, ttl)\<in>set (spec_snapshot now clock s). f k = Some v \<and> ttl = 0)"
proof -
  have rows: "spec_snapshot now clock s = map (row_of now) (sp_entries s)"
    by (simp add: spec_snapshot_def maps_to_all_live [OF assms])
  have d: "distinct (map ce_key (sp_entries s))" using assms by (simp add: maps_to_def spec_ok_def)
  have "f (ce_key e) = Some (ce_value e) \<and> remaining_ttl now e = 0" if "e \<in> set (sp_entries s)" for e
    using that assms find_entry_Some [OF d, of "ce_key e" e]
    by (auto simp: maps_to_at [OF assms] remaining_ttl_def maps_to_def)
  with d show ?thesis by (auto simp: rows row_of_def comp_def maps_to_dom [OF assms] image_image)
qed

text \<open>The map after the rows of a snapshot are loaded in order.\<close>

fun put_rows :: "snapshot_row list \<Rightarrow> (string \<rightharpoonup> string) \<Rightarrow> string \<rightharpoonup> string" where
  "put_rows [] f = f"
| "put_rows ((k, v, ttl) # rows) f = put_rows rows (f(k \<mapsto> v))"

lemma put_rows_from: "\<forall>(k, v, ttl)\<in>set rows. m k = Some v \<Longrightarrow> put_rows rows f k = (if k \<in> fst ` set rows then m k else f k)"
  by (induction rows f rule: put_rows.induct) auto

lemma maps_to_load:
  assumes "maps_to s f" and "sp_ttl s = 0" and "\<forall>(k, v, ttl)\<in>set rows. ttl = 0"
    and "card (dom f \<union> fst ` set rows) \<le> sp_capacity s"
  shows "maps_to (spec_load clock i rows s) (put_rows rows f)"
  using assms
proof (induction rows f arbitrary: i s rule: put_rows.induct)
  case (2 k v ttl rows f)
  have fin: "finite (dom f)" using maps_to_size [OF 2(2)] by blast
  have "card (dom f) < sp_capacity s" if "f k = None"
  proof -
    have "card (dom f) < card (insert k (dom f))" using that fin by (simp add: domIff)
    also have "\<dots> \<le> card (dom f \<union> fst ` set ((k, v, ttl) # rows))" using fin by (intro card_mono) auto
    finally show ?thesis using 2(5) by simp
  qed
  then have "maps_to (spec_put (clock i) k v 0 s) (f(k \<mapsto> v))" by (intro maps_to_put 2(2,3)) auto
  from 2(1) [OF this, of "Suc i"] 2(3-5) show ?case by (simp del: fun_upd_apply)
qed simp

section \<open>The handlers\<close>

definition mirrors :: "node_config \<Rightarrow> cache_server \<Rightarrow> (string \<rightharpoonup> string) \<Rightarrow> bool" where
  "mirrors cfg sv f \<longleftrightarrow> server_ok cfg sv \<and> (\<exists>s. implements (sv_cache sv) s \<and> sp_ttl s = nc_default_ttl_s cfg
     \<and> sp_capacity s = nc_cache_capacity cfg \<and> maps_to s f)"

lemma mirrors_ok: "mirrors cfg sv f \<Longrightarrow> server_ok cfg sv"
  by (simp add: mirrors_def)

lemma mirrorsE:
  assumes "mirrors cfg sv f"
  obtains s where "implements (sv_cache sv) s" and "sp_ttl s = nc_default_ttl_s cfg"
    and "sp_capacity s = nc_cache_capacity cfg" and "maps_to s f" and "sv_config sv = cfg"
  using assms by (auto simp: mirrors_def server_ok_def)

lemma mirrorsI:
  assumes "implements c s" and "sp_ttl s = nc_default_ttl_s cfg" and "sp_capacity s = nc_cache_capacity cfg"
    and "maps_to s f" and "sv_config sv = cfg"
  shows "mirrors cfg (with_cache sv c) f"
  using assms server_ok_with_cache [OF assms(1,3,2,5)] by (auto simp: mirrors_def)

lemma mirrors_count [simp]: "mirrors cfg (count_request sv) f = mirrors cfg sv f"
  by (simp add: mirrors_def)

text \<open>A node that was just started is the empty map.\<close>

lemma mirrors_start:
  assumes "CacheServer now cfg = Inr sv"
  shows "mirrors cfg sv Map.empty"
proof -
  let ?s = "new_spec (nc_cache_capacity cfg) (nc_default_ttl_s cfg)"
  from assms have "LRUCache (nc_cache_capacity cfg) (nc_default_ttl_s cfg) = Inr (sv_cache sv)"
    by (auto simp: CacheServer_def split: sum.splits)
  then have i: "implements (sv_cache sv) ?s" by (rule LRUCache_refines)
  moreover from i have "maps_to ?s Map.empty" by (simp add: maps_to_def new_spec_def implements_def)
  ultimately show ?thesis using CacheServer_ok [OF assms] unfolding mirrors_def by (auto simp: new_spec_def)
qed

lemma mirrors_get:
  assumes m: "mirrors cfg sv f" and key: "key_path_ok key"
  shows "\<exists>sv'. serve lib alloc t (cache_request ''GET'' key body) sv = Some (Some (case f key of
      Some v \<Rightarrow> Answer 200 (Value_Body key v (nc_node_id cfg) (nc_zone cfg))
    | None \<Rightarrow> Answer 404 (Error_Body ''key not found'' (Some key))), sv') \<and> mirrors cfg sv' f"
proof -
  from m obtain s where s: "implements (sv_cache sv) s" "sp_ttl s = nc_default_ttl_s cfg"
    "sp_capacity s = nc_cache_capacity cfg" "maps_to s f" "sv_config sv = cfg" by (rule mirrorsE)
  let ?g = "spec_get (nt_now t) key s"
  from handle_get_effect [of cfg "count_request sv" s "nt_now t" key] mirrors_ok [OF m] s(1) maps_to_get(1) [OF s(4)]
  obtain c where get: "handle_get (nt_now t) key (count_request sv) = Some (case f key of
        Some v \<Rightarrow> Answer 200 (Value_Body key v (nc_node_id cfg) (nc_zone cfg))
      | None \<Rightarrow> Answer 404 (Error_Body ''key not found'' (Some key)), with_cache (count_request sv) c)"
    and c: "implements c (snd ?g)" by auto
  have "mirrors cfg (with_cache (count_request sv) c) f"
    by (rule mirrorsI [OF c _ _ maps_to_get(2) [OF s(4)]])
      (use s(2,3,5) spec_step_capacity [of "Get (nt_now t) key" s] spec_step_ttl [of "Get (nt_now t) key" s] in
        \<open>simp_all add: case_prod_beta\<close>)
  with get key show ?thesis by (auto simp: serve_def answering_def)
qed

lemma mirrors_put:
  assumes m: "mirrors cfg sv f" and key: "key_path_ok key" and ttl: "nc_default_ttl_s cfg = 0"
    and a: "allocates (nc_cache_capacity cfg) alloc" and room: "f key \<noteq> None \<or> card (dom f) < nc_cache_capacity cfg"
    and body: "jl_parse lib body = Some j" "jl_contains lib j ''value''"
      "jl_string lib j ''value'' = Some v" "jl_value_int lib j ''ttl'' 0 = Some 0"
  shows "\<exists>sv'. serve lib alloc t (cache_request ''PUT'' key body) sv = Some (Some (Answer (if f key \<noteq> None then 200 else 201)
      (Stored_Body (if f key \<noteq> None then ''updated'' else ''created'') key (nc_node_id cfg))), sv')
    \<and> mirrors cfg sv' (f(key \<mapsto> v))"
proof -
  from m obtain s where s: "implements (sv_cache sv) s" "sp_ttl s = nc_default_ttl_s cfg"
    "sp_capacity s = nc_cache_capacity cfg" "maps_to s f" "sv_config sv = cfg" by (rule mirrorsE)
  have "lru_contains (nt_now t) key (sv_cache sv) = Some (f key \<noteq> None)"
    using lru_contains_refines [OF s(1), of "nt_now t" key] maps_to_found [OF s(4), of key]
    by (cases "find_entry key (sp_entries s)") (auto simp: maps_to_at [OF s(4)])
  moreover from handle_put_effect [of cfg "count_request sv" s alloc lib body j v 0 "nt_now t" "nt_later t" key]
    mirrors_ok [OF m] s(1) a body
  obtain existed c where put: "handle_put lib alloc (nt_now t) (nt_later t) key body (count_request sv)
      = Some (Answer (if existed then 200 else 201)
          (Stored_Body (if existed then ''updated'' else ''created'') key (nc_node_id cfg)), with_cache (count_request sv) c)"
    "lru_contains (nt_now t) key (sv_cache sv) = Some existed" and c: "implements c (spec_put (nt_later t) key v 0 s)" by auto
  ultimately have existed: "existed = (f key \<noteq> None)" by simp
  have "maps_to (spec_put (nt_later t) key v 0 s) (f(key \<mapsto> v))" using s(2-4) ttl room by (intro maps_to_put) auto
  with s(2,3,5) have "mirrors cfg (with_cache (count_request sv) c) (f(key \<mapsto> v))" by (intro mirrorsI [OF c]) simp_all
  with put(1) existed key show ?thesis by (auto simp: serve_def answering_def)
qed

lemma mirrors_delete:
  assumes m: "mirrors cfg sv f" and key: "key_path_ok key"
  shows "\<exists>sv'. serve lib alloc t (cache_request ''DELETE'' key body) sv = Some (Some (if f key \<noteq> None
      then Answer 200 (Deleted_Body key) else Answer 404 (Error_Body ''key not found'' (Some key))), sv')
    \<and> mirrors cfg sv' (f(key := None))"
proof -
  from m obtain s where s: "implements (sv_cache sv) s" "sp_ttl s = nc_default_ttl_s cfg"
    "sp_capacity s = nc_cache_capacity cfg" "maps_to s f" "sv_config sv = cfg" by (rule mirrorsE)
  from lru_remove_refines [OF s(1), of key] obtain c where
    c: "lru_remove key (sv_cache sv) = Some (fst (spec_remove key s), c)" "implements c (snd (spec_remove key s))" by blast
  have "mirrors cfg (with_cache (count_request sv) c) (f(key := None))"
    by (rule mirrorsI [OF c(2) _ _ maps_to_remove(2) [OF s(4)]]) (simp_all add: s spec_remove_def)
  moreover have "handle_delete key (count_request sv) = Some (if f key \<noteq> None
      then Answer 200 (Deleted_Body key) else Answer 404 (Error_Body ''key not found'' (Some key)),
      with_cache (count_request sv) c)"
    using c(1) maps_to_remove(1) [OF s(4), of key] by (simp add: handle_delete_def)
  ultimately show ?thesis using key by (auto simp: serve_def answering_def)
qed

text \<open>The purge thread finds nothing.\<close>

lemma mirrors_purge:
  assumes m: "mirrors cfg sv f"
  shows "\<exists>sv'. purge_tick clock sv = Some sv' \<and> mirrors cfg sv' f"
proof -
  from m obtain s where s: "implements (sv_cache sv) s" "sp_ttl s = nc_default_ttl_s cfg"
    "sp_capacity s = nc_cache_capacity cfg" "maps_to s f" "sv_config sv = cfg" by (rule mirrorsE)
  from lru_purge_refines [OF s(1), of clock] maps_to_purge [OF s(4), of clock] obtain n c where
    "lru_purge_expired clock (sv_cache sv) = Some (n, c)" "implements c s" by auto
  with mirrorsI [OF _ s(2-5)] show ?thesis by (auto simp: purge_tick_def)
qed

text \<open>What the other nodes and the gateway read and load.\<close>

definition node_call :: "string \<Rightarrow> string \<Rightarrow> string \<Rightarrow> node_request" where
  "node_call method path body = \<lparr>nr_method = method, nr_path = path, nr_body = body\<rparr>"

lemma mirrors_keys:
  assumes m: "mirrors cfg sv f"
  shows "\<exists>ks. serve lib alloc t (node_call ''GET'' ''/keys'' body) sv = Some (Some (Answer 200 (Keys_Body (nc_node_id cfg) ks)), sv)
    \<and> distinct ks \<and> set ks = dom f"
proof -
  from m obtain s where s: "implements (sv_cache sv) s" "maps_to s f" "sv_config sv = cfg" by (rule mirrorsE)
  from lru_keys_refines [OF s(1), of "nt_clock t"] maps_to_all_live(1) [OF s(2)] obtain ks where
    "lru_keys (nt_clock t) (sv_cache sv) = Some ks" "distinct ks" "set ks = dom f"
    by (auto simp: maps_to_dom [OF s(2)])
  with s(3) show ?thesis by (simp add: serve_def node_call_def route_key_def reading_def handle_keys_def)
qed

lemma mirrors_snapshot:
  assumes m: "mirrors cfg sv f"
  shows "\<exists>rows. serve lib alloc t (node_call ''GET'' ''/snapshot'' body) sv
      = Some (Some (Answer 200 (Snapshot_Body (nc_node_id cfg) rows)), sv)
    \<and> distinct (map fst rows) \<and> fst ` set rows = dom f \<and> (\<forall>(k, v, ttl)\<in>set rows. f k = Some v \<and> ttl = 0)"
proof -
  from m obtain s where s: "implements (sv_cache sv) s" "maps_to s f" "sv_config sv = cfg" by (rule mirrorsE)
  have "serve lib alloc t (node_call ''GET'' ''/snapshot'' body) sv
      = Some (Some (Answer 200 (Snapshot_Body (nc_node_id cfg) (spec_snapshot (nt_now t) (nt_clock t) s))), sv)"
    using s(3) lru_snapshot_refines [OF s(1), of "nt_now t" "nt_clock t"]
    by (simp add: serve_def node_call_def route_key_def reading_def handle_snapshot_def)
  with maps_to_snapshot [OF s(2), of "nt_now t" "nt_clock t"] show ?thesis by blast
qed

lemma mirrors_bulk_load:
  assumes m: "mirrors cfg sv f" and ttl: "nc_default_ttl_s cfg = 0" and a: "allocates (nc_cache_capacity cfg) alloc"
    and room: "card (dom f \<union> fst ` set rows) \<le> nc_cache_capacity cfg" and unexpiring: "\<forall>(k, v, ttl)\<in>set rows. ttl = 0"
    and body: "jl_parse lib body = Some j" "Option.bind (jl_elements lib j ''entries'') (read_entries lib) = Some rows"
  shows "\<exists>sv'. serve lib alloc t (node_call ''POST'' ''/bulk-load'' body) sv
      = Some (Some (Answer 200 (Loaded_Body (length rows))), sv') \<and> mirrors cfg sv' (put_rows rows f)"
proof -
  from m obtain s where s: "implements (sv_cache sv) s" "sp_ttl s = nc_default_ttl_s cfg"
    "sp_capacity s = nc_cache_capacity cfg" "maps_to s f" "sv_config sv = cfg" by (rule mirrorsE)
  have "lc_capacity (sv_cache sv) = nc_cache_capacity cfg" using implements_capacity [OF s(1)] s(3) by simp
  with bulk_loop_refines [OF s(1), of alloc "nt_load t" 0 rows] a obtain c where
    c: "lru_bulk_load alloc (nt_load t) rows (sv_cache sv) = Some c" "implements c (spec_load (nt_load t) 0 rows s)"
    by (auto simp: lru_bulk_load_def)
  have "maps_to (spec_load (nt_load t) 0 rows s) (put_rows rows f)"
    using maps_to_load [OF s(4), of rows "nt_load t" 0] s(2,3) ttl room unexpiring by simp
  with c(2) s(2,3,5) have "mirrors cfg (with_cache sv c) (put_rows rows f)" by (intro mirrorsI) simp_all
  with c(1) body show ?thesis by (auto simp: serve_def node_call_def route_key_def answering_def handle_bulk_load_def)
qed

end
