(* ===== verification/Cluster_Map.thy ===== *)
theory Cluster_Map
  imports System Node_Map
begin

text \<open>
  The cluster as one map. While no node fails, nothing expires and the keys fit, the gateway and the
  nodes together answer the requests of their clients as a single map from keys to values would:
  the abstract machine is that map, the concrete one the composition of \<open>System\<close>, and the relation
  between them says that every node holds the part of the map the ring gives it.
\<close>

section \<open>The map and the machine\<close>

text \<open>What a client asks, with the readings of the clocks it is served at, and what the nodes do on
  their own: a heartbeat to the gateway and a round of the purge thread.\<close>

datatype system_op =
    Client_Get node_times "string \<Rightarrow> time" time string "string option"
  | Client_Put node_times time time time string "string option" cache_put_request
  | Client_Delete node_times time time string
  | Node_Heartbeat time string time string heartbeat_payload
  | Node_Purge endpoint "string \<Rightarrow> ns"

datatype system_reply =
    Get_Reply "cache_get_response client_result"
  | Put_Reply "cache_put_response client_result"
  | Delete_Reply "cache_delete_response client_result"
  | Heartbeat_Reply "http_exception + heartbeat_answer"
  | Purge_Done

abbreviation key_not_found :: "'a client_result" where
  "key_not_found \<equiv> Refused (Http (HTTPException 404 ''Key not found''))"

text \<open>One request against a map whose key \<open>k\<close> is kept by the node \<open>home k\<close>.\<close>

fun map_step :: "(string \<Rightarrow> node_config) \<Rightarrow> system_op \<Rightarrow> (string \<rightharpoonup> string) \<Rightarrow> system_reply \<times> (string \<rightharpoonup> string)" where
  "map_step home (Client_Get _ _ _ key _) m =
     (Get_Reply (case m key of
        Some v \<Rightarrow> Answered \<lparr>gr_key = key, gr_value = v, gr_node_id = nc_node_id (home key), gr_zone = nc_zone (home key)\<rparr>
      | None \<Rightarrow> key_not_found), m)"
| "map_step home (Client_Put _ _ _ _ key _ put) m =
     (Put_Reply (Answered \<lparr>pr_status = (if m key \<noteq> None then ''updated'' else ''created''), pr_key = key,
        pr_node_id = nc_node_id (home key)\<rparr>), m(key \<mapsto> put_value put))"
| "map_step home (Client_Delete _ _ _ key) m =
     (Delete_Reply (if m key \<noteq> None then Answered \<lparr>dr_status = ''deleted'', dr_key = key\<rparr> else key_not_found),
      m(key := None))"
| "map_step home (Node_Heartbeat _ _ _ _ p) m =
     (Heartbeat_Reply (Inr \<lparr>answer_status = ''received'', answer_node_id = hb_node_id p\<rparr>), m)"
| "map_step home (Node_Purge ep clock) m = (Purge_Done, m)"

text \<open>The request as the gateway and the network serve it.\<close>

fun system_step ::
  "'j json_lib \<Rightarrow> allocator \<Rightarrow> body_encoder \<Rightarrow> node_body http_outcome \<Rightarrow> system_op \<Rightarrow> gateway \<times> network
    \<Rightarrow> (system_reply \<times> gateway \<times> network) option" where
  "system_step lib alloc dumps fallback (Client_Get t clock finish key zone) (g, net) =
     map_option (map_prod Get_Reply id) (client_get lib alloc dumps fallback t clock finish key zone g net)"
| "system_step lib alloc dumps fallback (Client_Put t start finish pin key zone put) (g, net) =
     map_option (map_prod Put_Reply id) (client_put lib alloc dumps fallback t start finish pin key zone put g net)"
| "system_step lib alloc dumps fallback (Client_Delete t start finish key) (g, net) =
     map_option (map_prod Delete_Reply id) (client_delete lib alloc dumps fallback t start finish key g net)"
| "system_step lib alloc dumps fallback (Node_Heartbeat t1 s1 t2 s2 p) (g, net) =
     (case heartbeat t1 s1 t2 s2 p (Some (gw_cluster g)) of
        (r, cm) \<Rightarrow> Some (Heartbeat_Reply r, g\<lparr>gw_cluster := the cm\<rparr>, net))"
| "system_step lib alloc dumps fallback (Node_Purge ep clock) (g, net) =
     (case net ep of
        None \<Rightarrow> Some (Purge_Done, g, net)
      | Some sv \<Rightarrow> map_option (\<lambda>sv'. (Purge_Done, g, net(ep \<mapsto> sv'))) (purge_tick clock sv))"

text \<open>A step the map describes: the key is one a URL carries, a write sets no expiry, and what it
  adds still fits in any one node; a heartbeat comes from a node the gateway has at that address.\<close>

fun map_legal :: "(string \<rightharpoonup> endpoint) \<Rightarrow> nat \<Rightarrow> system_op \<Rightarrow> (string \<rightharpoonup> string) \<Rightarrow> bool" where
  "map_legal members room (Client_Get _ _ _ key _) m \<longleftrightarrow> url_plain key"
| "map_legal members room (Client_Put _ _ _ _ key _ put) m \<longleftrightarrow>
     url_plain key \<and> put_ttl put \<in> {None, Some 0} \<and> card (insert key (dom m)) \<le> room"
| "map_legal members room (Client_Delete _ _ _ key) m \<longleftrightarrow> url_plain key"
| "map_legal members room (Node_Heartbeat _ _ _ _ p) m \<longleftrightarrow> members (hb_node_id p) = Some (hb_host p, hb_port p)"
| "map_legal members room (Node_Purge _ _) m \<longleftrightarrow> True"

section \<open>The relation\<close>

text \<open>The address of a node, and the address the gateway sends the writes of a key to.\<close>

definition member_address :: "cluster_manager \<Rightarrow> string \<Rightarrow> endpoint option" where
  "member_address cm n = map_option (\<lambda>x. (nm_host x, nm_port x)) (node_of cm n)"

definition owner_address :: "cluster_manager \<Rightarrow> string \<Rightarrow> endpoint option" where
  "owner_address cm key = (case get_node_for_key cm key of Inr (Some n) \<Rightarrow> member_address cm n | _ \<Rightarrow> None)"

definition live_address :: "cluster_manager \<Rightarrow> string \<Rightarrow> endpoint option" where
  "live_address cm n = (if status_of cm n = Some ALIVE then member_address cm n else None)"

text \<open>A cluster that routes, each node under a name, and one that routes as it did.\<close>

definition cluster_up :: "cluster_manager \<Rightarrow> bool" where
  "cluster_up cm \<longleftrightarrow> ring_ok cm \<and> 0 < replication_factor cm \<and> cm_ring cm \<noteq> None \<and> node_of cm '''' = None"

definition routes_as :: "cluster_manager \<Rightarrow> cluster_manager \<Rightarrow> bool" where
  "routes_as cm cm' \<longleftrightarrow> cluster_up cm' \<and> cm_ring cm' = cm_ring cm \<and> member_address cm' = member_address cm
     \<and> status_of cm' = status_of cm"

text \<open>A gateway whose circuits to the nodes it routes to are closed; nodes with room and without a default
  expiry.\<close>

definition closed_on :: "(string \<Rightarrow> bool) \<Rightarrow> circuit_breaker \<Rightarrow> bool" where
  "closed_on P cb \<longleftrightarrow> (\<forall>n. P n \<longrightarrow> breaker_state_of cb n = CLOSED)"

definition gateway_up :: "cluster_manager \<Rightarrow> gateway \<Rightarrow> bool" where
  "gateway_up cm g \<longleftrightarrow> routes_as cm (gw_cluster g) \<and> latency_map (gw_zone g) = [] \<and> closed_on (routable cm) (gw_breaker g)"

definition roomy :: "allocator \<Rightarrow> nat \<Rightarrow> node_config \<Rightarrow> bool" where
  "roomy alloc room cfg \<longleftrightarrow> nc_default_ttl_s cfg = 0 \<and> room \<le> nc_cache_capacity cfg \<and> allocates (nc_cache_capacity cfg) alloc"

text \<open>The part of the map at an address, and every node holding its part.\<close>

definition part_at :: "cluster_manager \<Rightarrow> endpoint \<Rightarrow> (string \<rightharpoonup> string) \<Rightarrow> string \<rightharpoonup> string" where
  "part_at cm ep m k = (if owner_address cm k = Some ep then m k else None)"

definition holds_parts :: "cluster_manager \<Rightarrow> (endpoint \<Rightarrow> node_config) \<Rightarrow> network \<Rightarrow> (string \<rightharpoonup> string) \<Rightarrow> bool" where
  "holds_parts cm cfg net m \<longleftrightarrow> finite (dom m)
     \<and> (\<forall>key ep. owner_address cm key = Some ep \<longrightarrow> net ep \<noteq> None)
     \<and> (\<forall>ep sv. net ep = Some sv \<longrightarrow> mirrors (cfg ep) sv (part_at cm ep m))"

definition represents ::
  "'j json_lib \<Rightarrow> allocator \<Rightarrow> body_encoder \<Rightarrow> cluster_manager \<Rightarrow> (endpoint \<Rightarrow> node_config) \<Rightarrow> nat
    \<Rightarrow> gateway \<times> network \<Rightarrow> (string \<rightharpoonup> string) \<Rightarrow> bool" where
  "represents lib alloc dumps cm cfg room gn m \<longleftrightarrow> (\<forall>v. reads_body lib dumps v 0)
     \<and> (\<forall>key ep. owner_address cm key = Some ep \<longrightarrow> roomy alloc room (cfg ep))
     \<and> gateway_up cm (fst gn) \<and> holds_parts cm cfg (snd gn) m"

abbreviation home :: "cluster_manager \<Rightarrow> (endpoint \<Rightarrow> node_config) \<Rightarrow> string \<Rightarrow> node_config" where
  "home cm cfg key \<equiv> cfg (the (owner_address cm key))"

section \<open>The gateway while no node fails\<close>

lemma closed_probe: "closed_on P cb \<Longrightarrow> P n \<Longrightarrow> fst (is_available t n cb)"
  by (auto simp: closed_on_def breaker_defs breaker_state_of_def dict_maps NodeCircuit_def split: option.splits if_splits)

lemma closed_after_probe: "closed_on P cb \<Longrightarrow> closed_on P (snd (is_available t n cb))"
  by (auto simp: closed_on_def breaker_defs breaker_state_of_def dict_maps NodeCircuit_def split: option.splits if_splits)

lemma closed_success: "closed_on P cb \<Longrightarrow> closed_on P (record_success t n cb)"
  by (auto simp: closed_on_def breaker_defs breaker_state_of_def dict_maps NodeCircuit_def split: option.splits if_splits)

lemma closed_replicas: "closed_on P cb \<Longrightarrow> closed_on P (snd (available_replicas clock ns cb))"
  by (induction ns arbitrary: cb) (simp_all add: split_beta closed_after_probe)

lemma gateway_up_breaker: "gateway_up cm g \<Longrightarrow> closed_on (routable cm) cb \<Longrightarrow> gateway_up cm (g\<lparr>gw_breaker := cb\<rparr>)"
  by (simp add: gateway_up_def)

lemma owner_known:
  assumes "cluster_up cm"
  obtains n where "get_node_for_key cm key = Inr (Some n)" and "n \<noteq> ''''" and "routable cm n"
    and "owner_address cm key = member_address cm n"
proof -
  from assms route_owner [of cm key] obtain n where n: "get_node_for_key cm key = Inr (Some n)" "routable cm n"
    by (auto simp: cluster_up_def)
  moreover from n(2) have "node_of cm n \<noteq> None" by (rule routable_known)
  moreover from this have "n \<noteq> ''''" using assms by (auto simp: cluster_up_def)
  ultimately show thesis by (intro that) (simp_all add: owner_address_def)
qed

lemma routes_as_owner: "routes_as cm cm' \<Longrightarrow> owner_address cm' = owner_address cm"
  by (intro ext) (simp add: routes_as_def owner_address_def get_node_for_key_def split: option.split sum.split)

lemma routes_as_routable: "routes_as cm cm' \<Longrightarrow> routable cm' = routable cm"
  by (intro ext) (simp add: routes_as_def routable_def)

lemma addressed_member: "addressed cm q \<Longrightarrow> member_address cm (req_node q) = Some (endpoint_of_request q)"
  by (auto simp: addressed_def member_address_def endpoint_of_request_def)

text \<open>The request of a handler that found the owner.\<close>

lemma owner_request:
  assumes "gateway_up cm g" and "verb \<in> {''GET'', ''PUT'', ''DELETE''}"
  obtains n q where "get_node_for_key (gw_cluster g) key = Inr (Some n)" and "n \<noteq> ''''" and "routable cm n"
    and "guard_call (call_start (gw_cluster g) n verb (cache_path key) body) = Inr q"
    and "owner_address cm key = Some (endpoint_of_request q)" and "req_method q = verb" and "req_path q = cache_path key"
    and "req_body q = (if verb = ''PUT'' then body else None)"
proof -
  let ?cm = "gw_cluster g"
  have routes: "routes_as cm ?cm" using assms(1) by (simp add: gateway_up_def)
  then have "cluster_up ?cm" by (simp add: routes_as_def)
  then obtain n where n: "get_node_for_key ?cm key = Inr (Some n)" "n \<noteq> ''''" "routable ?cm n"
    "owner_address ?cm key = member_address ?cm n" by (rule owner_known)
  from call_start_known [OF routable_known [OF n(3)], of verb "cache_path key" body] assms(2) obtain q where
    q: "guard_call (call_start ?cm n verb (cache_path key) body) = Inr q" "req_node q = n" "addressed ?cm q"
    "req_method q = verb" "req_path q = cache_path key" "req_body q = (if verb = ''PUT'' then body else None)" by auto
  from n(4) addressed_member [OF q(3)] q(2) routes_as_owner [OF routes]
  have "owner_address cm key = Some (endpoint_of_request q)" by simp
  moreover have "routable cm n" using n(3) routes_as_routable [OF routes] by simp
  ultimately show thesis by (intro that [OF n(1,2) _ q(1) _ q(4-6)])
qed

lemma primary_start_up:
  assumes "gateway_up cm g" and "verb \<in> {''PUT'', ''DELETE''}"
  shows "\<exists>q g'. primary_start now key verb body (Some g) = (Inr q, Some g') \<and> gateway_up cm g'
    \<and> owner_address cm key = Some (endpoint_of_request q) \<and> req_method q = verb \<and> req_path q = cache_path key
    \<and> req_body q = (if verb = ''PUT'' then body else None)"
proof -
  obtain n q where n: "get_node_for_key (gw_cluster g) key = Inr (Some n)" "n \<noteq> ''''" "routable cm n"
    and q: "guard_call (call_start (gw_cluster g) n verb (cache_path key) body) = Inr q"
    "owner_address cm key = Some (endpoint_of_request q)" "req_method q = verb" "req_path q = cache_path key"
    "req_body q = (if verb = ''PUT'' then body else None)"
    by (rule owner_request [OF assms(1), of verb key body]) (use assms(2) in auto)
  have closed: "closed_on (routable cm) (gw_breaker g)" using assms(1) by (simp add: gateway_up_def)
  from n q show ?thesis
    using closed_probe [OF closed n(3), of now] gateway_up_breaker [OF assms(1) closed_after_probe [OF closed]]
    by (auto simp: primary_start_def falsy_def Let_def split_beta)
qed

lemma get_start_up:
  assumes "gateway_up cm g"
  shows "\<exists>q g'. get_key_start clock key zone (Some g) = (Inr q, Some g') \<and> gateway_up cm g'
    \<and> owner_address cm key = Some (endpoint_of_request q) \<and> req_method q = ''GET'' \<and> req_path q = cache_path key"
proof -
  let ?cm = "gw_cluster g"
  have lat: "latency_map (gw_zone g) = []" and closed: "closed_on (routable cm) (gw_breaker g)"
    and routes: "routes_as cm ?cm" using assms unfolding gateway_up_def by blast+
  then have ok: "ring_ok ?cm" and rf: "0 < replication_factor ?cm" by (simp_all add: routes_as_def cluster_up_def)
  obtain n q where n: "get_node_for_key ?cm key = Inr (Some n)"
    and q: "guard_call (call_start ?cm n ''GET'' (cache_path key) None) = Inr q"
    "owner_address cm key = Some (endpoint_of_request q)" "req_method q = ''GET''" "req_path q = cache_path key"
    by (rule owner_request [OF assms, of "''GET''" key None]) auto
  from route_replicas [OF ok, of key] obtain rs where rs: "get_replicas_for_key ?cm key = Inr rs"
    "\<forall>n\<in>set rs. routable ?cm n" by auto
  with route_primary [OF ok rf rs(1)] n have hd: "rs \<noteq> []" "hd rs = n" by (auto split: if_splits)
  have avail: "filter (\<lambda>n. fst (is_available (clock n) n (gw_breaker g))) rs = rs"
    using closed_probe [OF closed] rs(2) routes_as_routable [OF routes] by simp
  show ?thesis
    using get_key_start_replicas [OF ok rs(1), of clock zone] hd avail q pick_unmeasured [OF lat hd(1)]
      gateway_up_breaker [OF assms closed_replicas [OF closed]]
    by (simp add: Let_def)
qed

lemma gateway_up_answered:
  assumes "gateway_up cm g" and "status < 500"
  shows "gateway_up cm (snd (get_key_finish finish q (Response status body) g))"
    and "gateway_up cm (snd (put_key_finish finish pin key zone q (Response status body) g))"
    and "gateway_up cm (snd (delete_key_finish finish q (Response status body) g))"
  using assms closed_success [of "routable cm" "gw_breaker g" finish "req_node q"]
  by (auto simp: gateway_up_def get_key_finish_def put_key_finish_def delete_key_finish_def call_finish_def
      pin_write_def Let_def split: option.splits)

text \<open>A heartbeat of a live node changes no route.\<close>

lemma beat_routes:
  assumes up: "cluster_up cm" and alive: "status_of cm n = Some ALIVE"
  shows "routes_as cm (process_heartbeat now stamp n m cm)"
proof -
  let ?cm = "process_heartbeat now stamp n m cm"
  from alive obtain x where x: "node_of cm n = Some x" "nm_status x = ALIVE" by (auto simp: status_of_def)
  then obtain y where y: "?cm = store_node n y cm" "nm_status y = ALIVE" "nm_host y = nm_host x" "nm_port y = nm_port x"
    by (simp add: process_heartbeat_def Let_def)
  moreover have "ring_ok (store_node n y cm)"
    by (rule ring_ok_store [of _ _ ALIVE]) (use up alive y(2) in \<open>simp_all add: cluster_up_def\<close>)
  ultimately show ?thesis
    using up x by (auto simp: routes_as_def cluster_up_def member_address_def status_of_def fun_eq_iff dict_maps)
qed

lemma routes_as_trans: "routes_as cm cm' \<Longrightarrow> routes_as cm' cm'' \<Longrightarrow> routes_as cm cm''"
  by (simp add: routes_as_def)

section \<open>The network while a node takes a request\<close>

lemma part_update: "owner_address cm key = Some ep \<Longrightarrow> (part_at cm ep m)(key := x) = part_at cm ep (m(key := x))"
  by (auto simp: part_at_def)

lemma part_other: "owner_address cm key = Some ep \<Longrightarrow> ep' \<noteq> ep \<Longrightarrow> part_at cm ep' (m(key := x)) = part_at cm ep' m"
  by (auto simp: part_at_def)

lemma part_owned: "owner_address cm key = Some ep \<Longrightarrow> part_at cm ep m key = m key"
  by (simp add: part_at_def)

lemma part_room: "finite (dom m) \<Longrightarrow> card (dom (part_at cm ep m)) \<le> card (dom m)"
  by (rule card_mono) (auto simp: part_at_def split: if_splits)

lemma holds_parts_at:
  assumes "holds_parts cm cfg net m" and "owner_address cm key = Some ep"
  obtains sv where "net ep = Some sv" and "mirrors (cfg ep) sv (part_at cm ep m)"
  using assms unfolding holds_parts_def by blast

lemma holds_parts_update:
  assumes "holds_parts cm cfg net m" and "owner_address cm key = Some ep"
    and "mirrors (cfg ep) sv ((part_at cm ep m)(key := x))"
  shows "holds_parts cm cfg (net(ep \<mapsto> sv)) (m(key := x))"
  using assms unfolding holds_parts_def part_update [OF assms(2)]
  by (cases x) (auto simp: part_other [OF assms(2)])

lemma holds_parts_same:
  "holds_parts cm cfg net m \<Longrightarrow> mirrors (cfg ep) sv (part_at cm ep m) \<Longrightarrow> holds_parts cm cfg (net(ep \<mapsto> sv)) m"
  by (auto simp: holds_parts_def)

lemma call_answered:
  assumes "net (endpoint_of_request q) = Some sv" and "req_path q = cache_path key"
    and "serve lib alloc t (cache_request (req_method q) key (dumps (req_body q))) sv = Some (Some (Answer status b), sv')"
  shows "call_over_http lib alloc dumps fallback t q net
    = Some (Response status (Some b), net(endpoint_of_request q \<mapsto> sv'))"
  using assms by (simp add: call_over_http_def to_node_cache from_node_def)

section \<open>One request\<close>

text \<open>What a client is answered when the node its key is routed to is the map \<open>f\<close>.\<close>

lemma client_get_at:
  assumes gw: "gateway_up cm g" and owner: "owner_address cm key = Some ep" and sv: "net ep = Some sv"
    and m: "mirrors cfg sv f" and key: "url_plain key"
  shows "\<exists>g' sv'. client_get lib alloc dumps fallback t clock finish key zone g net = Some (case f key of
      Some v \<Rightarrow> Answered \<lparr>gr_key = key, gr_value = v, gr_node_id = nc_node_id cfg, gr_zone = nc_zone cfg\<rparr>
    | None \<Rightarrow> key_not_found, g', net(ep \<mapsto> sv')) \<and> gateway_up cm g' \<and> mirrors cfg sv' f"
proof -
  from get_start_up [OF gw, of clock key zone] owner obtain q g' where
    q: "get_key_start clock key zone (Some g) = (Inr q, Some g')" "gateway_up cm g'"
    "ep = endpoint_of_request q" "req_method q = ''GET''" "req_path q = cache_path key" by auto
  from mirrors_get [OF m url_plain_path [OF key], of lib alloc t "dumps (req_body q)"] obtain status b sv' where
    ans: "serve lib alloc t (cache_request ''GET'' key (dumps (req_body q))) sv = Some (Some (Answer status b), sv')"
    "mirrors cfg sv' f"
    and val: "(status, b) = (case f key of Some v \<Rightarrow> (200, Value_Body key v (nc_node_id cfg) (nc_zone cfg))
      | None \<Rightarrow> (404, Error_Body ''key not found'' (Some key)))"
    by (auto split: option.splits)
  have call: "call_over_http lib alloc dumps fallback t q net = Some (Response status (Some b), net(ep \<mapsto> sv'))"
    unfolding q(3) by (rule call_answered) (use sv q(3-5) ans(1) in simp_all)
  let ?f = "get_key_finish finish q (Response status (Some b)) g'"
  have "status < 500" using val by (auto split: option.splits)
  then have "gateway_up cm (snd ?f)" by (rule gateway_up_answered(1) [OF q(2)])
  moreover have "client_get lib alloc dumps fallback t clock finish key zone g net
    = Some (respond get_model (fst ?f), snd ?f, net(ep \<mapsto> sv'))"
    using q(1) call by (simp add: client_get_def split_beta)
  moreover have "respond get_model (fst ?f) = (case f key of
      Some v \<Rightarrow> Answered \<lparr>gr_key = key, gr_value = v, gr_node_id = nc_node_id cfg, gr_zone = nc_zone cfg\<rparr>
    | None \<Rightarrow> key_not_found)"
    using val by (auto simp: get_key_finish_def call_finish_def split: option.splits)
  ultimately show ?thesis using ans(2) by auto
qed

lemma client_put_at:
  assumes gw: "gateway_up cm g" and owner: "owner_address cm key = Some ep" and sv: "net ep = Some sv"
    and m: "mirrors cfg sv f" and key: "url_plain key" and ttl: "put_ttl put \<in> {None, Some 0}"
    and body: "reads_body lib dumps (put_value put) 0" and roomy: "roomy alloc room cfg"
    and fits: "f key \<noteq> None \<or> card (dom f) < room"
  shows "\<exists>g' sv'. client_put lib alloc dumps fallback t start finish pin key zone put g net
      = Some (Answered \<lparr>pr_status = (if f key \<noteq> None then ''updated'' else ''created''), pr_key = key,
          pr_node_id = nc_node_id cfg\<rparr>, g', net(ep \<mapsto> sv'))
    \<and> gateway_up cm g' \<and> mirrors cfg sv' (f(key \<mapsto> put_value put))"
proof -
  let ?body = "Some (put_value put, 0)"
  have ttl': "(case put_ttl put of None \<Rightarrow> 0 | Some t \<Rightarrow> t) = 0" using ttl by auto
  from primary_start_up [OF gw, of "''PUT''" start key ?body] owner obtain q g' where
    q: "put_key_start start key put (Some g) = (Inr q, Some g')" "gateway_up cm g'"
    "ep = endpoint_of_request q" "req_method q = ''PUT''" "req_path q = cache_path key"
    "req_body q = ?body" by (auto simp: put_key_start_def ttl')
  from body obtain j where j: "jl_parse lib (dumps (req_body q)) = Some j" "jl_contains lib j ''value''"
    "jl_string lib j ''value'' = Some (put_value put)" "jl_value_int lib j ''ttl'' 0 = Some 0"
    using q(6) by (auto simp: reads_body_def)
  have "f key \<noteq> None \<or> card (dom f) < nc_cache_capacity cfg" using fits roomy by (auto simp: roomy_def)
  from mirrors_put [OF m url_plain_path [OF key] _ _ this j, where t = t] roomy obtain sv' where
    ans: "serve lib alloc t (cache_request ''PUT'' key (dumps (req_body q))) sv
      = Some (Some (Answer (if f key \<noteq> None then 200 else 201)
          (Stored_Body (if f key \<noteq> None then ''updated'' else ''created'') key (nc_node_id cfg))), sv')"
    "mirrors cfg sv' (f(key \<mapsto> put_value put))"
    by (auto simp: roomy_def)
  let ?r = "Response (if f key \<noteq> None then 200 else 201)
    (Some (Stored_Body (if f key \<noteq> None then ''updated'' else ''created'') key (nc_node_id cfg)))"
  have call: "call_over_http lib alloc dumps fallback t q net = Some (?r, net(ep \<mapsto> sv'))"
    unfolding q(3) by (rule call_answered) (use sv q(3-5) ans(1) in simp_all)
  let ?f = "put_key_finish finish pin key zone q ?r g'"
  have "gateway_up cm (snd ?f)" by (rule gateway_up_answered(2) [OF q(2)]) simp
  moreover have "client_put lib alloc dumps fallback t start finish pin key zone put g net
    = Some (respond put_model (fst ?f), snd ?f, net(ep \<mapsto> sv'))"
    using q(1) call by (simp add: client_put_def split_beta)
  moreover have "respond put_model (fst ?f) = Answered \<lparr>pr_status = (if f key \<noteq> None then ''updated'' else ''created''),
      pr_key = key, pr_node_id = nc_node_id cfg\<rparr>"
    by (simp add: put_key_finish_def call_finish_def)
  ultimately show ?thesis using ans(2) by auto
qed

lemma client_delete_at:
  assumes gw: "gateway_up cm g" and owner: "owner_address cm key = Some ep" and sv: "net ep = Some sv"
    and m: "mirrors cfg sv f" and key: "url_plain key"
  shows "\<exists>g' sv'. client_delete lib alloc dumps fallback t start finish key g net
      = Some (if f key \<noteq> None then Answered \<lparr>dr_status = ''deleted'', dr_key = key\<rparr> else key_not_found, g', net(ep \<mapsto> sv'))
    \<and> gateway_up cm g' \<and> mirrors cfg sv' (f(key := None))"
proof -
  from primary_start_up [OF gw, of "''DELETE''" start key None] owner obtain q g' where
    q: "delete_key_start start key (Some g) = (Inr q, Some g')" "gateway_up cm g'"
    "ep = endpoint_of_request q" "req_method q = ''DELETE''" "req_path q = cache_path key"
    by (auto simp: delete_key_start_def)
  from mirrors_delete [OF m url_plain_path [OF key], of lib alloc t "dumps (req_body q)"] obtain status b sv' where
    ans: "serve lib alloc t (cache_request ''DELETE'' key (dumps (req_body q))) sv = Some (Some (Answer status b), sv')"
    "mirrors cfg sv' (f(key := None))"
    and val: "(status, b) = (if f key \<noteq> None then (200, Deleted_Body key) else (404, Error_Body ''key not found'' (Some key)))"
    by (auto split: if_splits)
  have call: "call_over_http lib alloc dumps fallback t q net = Some (Response status (Some b), net(ep \<mapsto> sv'))"
    unfolding q(3) by (rule call_answered) (use sv q(3-5) ans(1) in simp_all)
  let ?f = "delete_key_finish finish q (Response status (Some b)) g'"
  have "status < 500" using val by (auto split: if_splits)
  then have "gateway_up cm (snd ?f)" by (rule gateway_up_answered(3) [OF q(2)])
  moreover have "client_delete lib alloc dumps fallback t start finish key g net
    = Some (respond delete_model (fst ?f), snd ?f, net(ep \<mapsto> sv'))"
    using q(1) call by (simp add: client_delete_def split_beta)
  moreover have "respond delete_model (fst ?f)
    = (if f key \<noteq> None then Answered \<lparr>dr_status = ''deleted'', dr_key = key\<rparr> else key_not_found)"
    using val by (auto simp: delete_key_finish_def call_finish_def split: if_splits)
  ultimately show ?thesis using ans(2) by auto
qed

section \<open>One step of the whole\<close>

text \<open>The node a key is routed to, and what it holds of the map.\<close>

lemma represents_owner:
  assumes "represents lib alloc dumps cm cfg room (g, net) m"
  obtains ep sv where "owner_address cm key = Some ep" and "net ep = Some sv"
    and "mirrors (cfg ep) sv (part_at cm ep m)" and "part_at cm ep m key = m key" and "roomy alloc room (cfg ep)"
proof -
  from assms have gw: "gateway_up cm g" and parts: "holds_parts cm cfg net m" by (simp_all add: represents_def)
  obtain q where ep: "owner_address cm key = Some (endpoint_of_request q)"
    using get_start_up [OF gw, of "\<lambda>_. 0" key None] by blast
  from holds_parts_at [OF parts ep] obtain sv where
    "net (endpoint_of_request q) = Some sv" "mirrors (cfg (endpoint_of_request q)) sv (part_at cm (endpoint_of_request q) m)" .
  moreover have "roomy alloc room (cfg (endpoint_of_request q))" using assms ep unfolding represents_def by blast
  ultimately show thesis by (intro that [OF ep _ _ part_owned [OF ep]])
qed

lemma get_step:
  assumes rep: "represents lib alloc dumps cm cfg room (g, net) m" and key: "url_plain key"
  shows "\<exists>gn'. system_step lib alloc dumps fallback (Client_Get t clock finish key zone) (g, net)
      = Some (fst (map_step (home cm cfg) (Client_Get t clock finish key zone) m), gn')
    \<and> represents lib alloc dumps cm cfg room gn' m"
proof -
  from rep have gw: "gateway_up cm g" and parts: "holds_parts cm cfg net m" by (simp_all add: represents_def)
  from represents_owner [OF rep] obtain ep sv where o: "owner_address cm key = Some ep" "net ep = Some sv"
    "mirrors (cfg ep) sv (part_at cm ep m)" "part_at cm ep m key = m key" .
  from client_get_at [where net = net, OF gw o(1-3) key, of lib alloc dumps fallback t clock finish zone] obtain g' sv' where
    "client_get lib alloc dumps fallback t clock finish key zone g net = Some (case m key of
        Some v \<Rightarrow> Answered \<lparr>gr_key = key, gr_value = v, gr_node_id = nc_node_id (cfg ep), gr_zone = nc_zone (cfg ep)\<rparr>
      | None \<Rightarrow> key_not_found, g', net(ep \<mapsto> sv'))" "gateway_up cm g'" "mirrors (cfg ep) sv' (part_at cm ep m)"
    unfolding o(4) by blast
  with rep o(1) holds_parts_same [OF parts] show ?thesis
    by (cases "m key") (auto simp: represents_def)
qed

lemma put_step:
  assumes rep: "represents lib alloc dumps cm cfg room (g, net) m"
    and legal: "map_legal members room (Client_Put t start finish pin key zone put) m"
  shows "\<exists>gn'. system_step lib alloc dumps fallback (Client_Put t start finish pin key zone put) (g, net)
      = Some (fst (map_step (home cm cfg) (Client_Put t start finish pin key zone put) m), gn')
    \<and> represents lib alloc dumps cm cfg room gn' (m(key \<mapsto> put_value put))"
proof -
  from rep have gw: "gateway_up cm g" and parts: "holds_parts cm cfg net m"
    and body: "reads_body lib dumps (put_value put) 0" by (simp_all add: represents_def)
  from legal have key: "url_plain key" and ttl: "put_ttl put \<in> {None, Some 0}" by simp_all
  from represents_owner [OF rep] obtain ep sv where o: "owner_address cm key = Some ep" "net ep = Some sv"
    "mirrors (cfg ep) sv (part_at cm ep m)" "part_at cm ep m key = m key" "roomy alloc room (cfg ep)" .
  have fin: "finite (dom m)" using parts by (simp add: holds_parts_def)
  have "card (dom m) < room" if "m key = None" using legal fin that by (simp add: domIff)
  then have "part_at cm ep m key \<noteq> None \<or> card (dom (part_at cm ep m)) < room"
    unfolding o(4) using part_room [OF fin, of cm ep] by (cases "m key") (simp_all add: le_less_trans)
  from client_put_at [where net = net, OF gw o(1-3) key ttl body o(5) this, of fallback t start finish pin zone] obtain g' sv' where
    "client_put lib alloc dumps fallback t start finish pin key zone put g net
      = Some (Answered \<lparr>pr_status = (if m key \<noteq> None then ''updated'' else ''created''), pr_key = key,
          pr_node_id = nc_node_id (cfg ep)\<rparr>, g', net(ep \<mapsto> sv'))"
    "gateway_up cm g'" "mirrors (cfg ep) sv' ((part_at cm ep m)(key \<mapsto> put_value put))"
    unfolding o(4) by blast
  with rep o(1) holds_parts_update [OF parts o(1)] show ?thesis by (auto simp: represents_def)
qed

lemma delete_step:
  assumes rep: "represents lib alloc dumps cm cfg room (g, net) m" and key: "url_plain key"
  shows "\<exists>gn'. system_step lib alloc dumps fallback (Client_Delete t start finish key) (g, net)
      = Some (fst (map_step (home cm cfg) (Client_Delete t start finish key) m), gn')
    \<and> represents lib alloc dumps cm cfg room gn' (m(key := None))"
proof -
  from rep have gw: "gateway_up cm g" and parts: "holds_parts cm cfg net m" by (simp_all add: represents_def)
  from represents_owner [OF rep] obtain ep sv where o: "owner_address cm key = Some ep" "net ep = Some sv"
    "mirrors (cfg ep) sv (part_at cm ep m)" "part_at cm ep m key = m key" .
  from client_delete_at [where net = net, OF gw o(1-3) key, of lib alloc dumps fallback t start finish] obtain g' sv' where
    "client_delete lib alloc dumps fallback t start finish key g net = Some (if m key \<noteq> None
      then Answered \<lparr>dr_status = ''deleted'', dr_key = key\<rparr> else key_not_found, g', net(ep \<mapsto> sv'))"
    "gateway_up cm g'" "mirrors (cfg ep) sv' ((part_at cm ep m)(key := None))"
    unfolding o(4) by blast
  with rep o(1) holds_parts_update [OF parts o(1)] show ?thesis by (auto simp: represents_def)
qed

lemma gateway_beat:
  assumes gw: "gateway_up cm g" and legal: "live_address cm (hb_node_id p) = Some (hb_host p, hb_port p)"
  shows "\<exists>g'. system_step lib alloc dumps fallback (Node_Heartbeat t1 s1 t2 s2 p) (g, net)
      = Some (Heartbeat_Reply (Inr \<lparr>answer_status = ''received'', answer_node_id = hb_node_id p\<rparr>), g', net)
    \<and> gateway_up cm g'"
proof -
  let ?cm = "gw_cluster g"
  let ?cm' = "process_heartbeat t2 s2 (hb_node_id p) (payload_metrics p) ?cm"
  from gw have routes: "routes_as cm ?cm" by (simp add: gateway_up_def)
  then have up: "cluster_up ?cm" by (simp add: routes_as_def)
  from legal routes have alive: "status_of ?cm (hb_node_id p) = Some ALIVE"
    and "member_address ?cm (hb_node_id p) = Some (hb_host p, hb_port p)"
    by (simp_all add: live_address_def routes_as_def split: if_splits)
  then obtain x where x: "node_of ?cm (hb_node_id p) = Some x" "nm_host x = hb_host p" "nm_port x = hb_port p"
    unfolding member_address_def by blast
  then have beat: "heartbeat t1 s1 t2 s2 p (Some ?cm)
      = (Inr \<lparr>answer_status = ''received'', answer_node_id = hb_node_id p\<rparr>, Some ?cm')"
    by (simp add: heartbeat_def)
  have "routes_as cm ?cm'" by (rule routes_as_trans [OF routes beat_routes [OF up alive]])
  then have "gateway_up cm (g\<lparr>gw_cluster := ?cm'\<rparr>)" using gw by (simp add: gateway_up_def)
  with beat show ?thesis by simp
qed

lemma heartbeat_step:
  assumes rep: "represents lib alloc dumps cm cfg room (g, net) m"
    and legal: "live_address cm (hb_node_id p) = Some (hb_host p, hb_port p)"
  shows "\<exists>gn'. system_step lib alloc dumps fallback (Node_Heartbeat t1 s1 t2 s2 p) (g, net)
      = Some (fst (map_step (home cm cfg) (Node_Heartbeat t1 s1 t2 s2 p) m), gn')
    \<and> represents lib alloc dumps cm cfg room gn' m"
proof -
  from rep have "gateway_up cm g" by (simp add: represents_def)
  from gateway_beat [OF this legal, of lib alloc dumps fallback t1 s1 t2 s2 net] obtain g' where
    "system_step lib alloc dumps fallback (Node_Heartbeat t1 s1 t2 s2 p) (g, net)
      = Some (Heartbeat_Reply (Inr \<lparr>answer_status = ''received'', answer_node_id = hb_node_id p\<rparr>), g', net)"
    "gateway_up cm g'" by blast
  with rep show ?thesis by (simp add: represents_def)
qed

lemma purge_step:
  assumes rep: "represents lib alloc dumps cm cfg room (g, net) m"
  shows "\<exists>gn'. system_step lib alloc dumps fallback (Node_Purge ep clock) (g, net)
      = Some (fst (map_step (home cm cfg) (Node_Purge ep clock) m), gn')
    \<and> represents lib alloc dumps cm cfg room gn' m"
proof (cases "net ep")
  case (Some sv)
  from rep have parts: "holds_parts cm cfg net m" by (simp add: represents_def)
  with Some have "mirrors (cfg ep) sv (part_at cm ep m)" unfolding holds_parts_def by blast
  from mirrors_purge [OF this, of clock] obtain sv' where
    "purge_tick clock sv = Some sv'" "mirrors (cfg ep) sv' (part_at cm ep m)" by blast
  with Some rep holds_parts_same [OF parts] show ?thesis by (simp add: represents_def)
qed (use rep in simp)

text \<open>The steps make runs.\<close>

interpretation cluster: simulation "system_step lib alloc dumps fallback" "map_step (home cm cfg)"
  "represents lib alloc dumps cm cfg room" "map_legal (live_address cm) room"
proof
  fix gn m op
  assume rep: "represents lib alloc dumps cm cfg room gn m" and legal: "map_legal (live_address cm) room op m"
  obtain g net where gn: "gn = (g, net)" by fastforce
  show "\<exists>gn'. system_step lib alloc dumps fallback op gn = Some (fst (map_step (home cm cfg) op m), gn')
    \<and> represents lib alloc dumps cm cfg room gn' (snd (map_step (home cm cfg) op m))"
  proof (cases op)
    case (Client_Get t clock finish key zone)
    from get_step [OF rep [unfolded gn], of key] legal show ?thesis
      unfolding gn Client_Get map_legal.simps map_step.simps snd_conv by blast
  next
    case (Client_Put t start finish pin key zone put)
    from put_step [OF rep [unfolded gn]] legal show ?thesis
      unfolding gn Client_Put map_step.simps snd_conv by blast
  next
    case (Client_Delete t start finish key)
    from delete_step [OF rep [unfolded gn], of key] legal show ?thesis
      unfolding gn Client_Delete map_legal.simps map_step.simps snd_conv by blast
  next
    case (Node_Heartbeat t1 s1 t2 s2 p)
    from heartbeat_step [OF rep [unfolded gn], of p] legal show ?thesis
      unfolding gn Node_Heartbeat map_legal.simps map_step.simps snd_conv by blast
  next
    case (Node_Purge ep clock)
    from purge_step [OF rep [unfolded gn]] show ?thesis
      unfolding gn Node_Purge map_step.simps snd_conv by blast
  qed
qed

text \<open>A live cluster over nodes that were just started represents the empty map.\<close>

lemma owner_routable:
  assumes "ring_ok cm" and "owner_address cm key = Some ep"
  obtains n where "get_node_for_key cm key = Inr (Some n)" and "routable cm n" and "member_address cm n = Some ep"
  using assms(2) route_owner [OF assms(1), of key] by (auto simp: owner_address_def split: option.splits)

lemma represents_start:
  assumes up: "cluster_up (gw_cluster g)" and "latency_map (gw_zone g) = []"
    and "closed_on (routable (gw_cluster g)) (gw_breaker g)"
    and nodes: "\<And>n ep. routable (gw_cluster g) n \<Longrightarrow> member_address (gw_cluster g) n = Some ep \<Longrightarrow>
      net ep \<noteq> None \<and> roomy alloc room (cfg ep)"
    and new: "\<And>ep sv. net ep = Some sv \<Longrightarrow> \<exists>now. CacheServer now (cfg ep) = Inr sv"
    and "\<And>v. reads_body lib dumps v 0"
  shows "represents lib alloc dumps (gw_cluster g) cfg room (g, net) Map.empty"
proof -
  have owner: "net ep \<noteq> None \<and> roomy alloc room (cfg ep)" if "owner_address (gw_cluster g) key = Some ep" for key ep
  proof -
    have "ring_ok (gw_cluster g)" using up by (simp add: cluster_up_def)
    from owner_routable [OF this that] nodes show ?thesis by blast
  qed
  have "part_at (gw_cluster g) ep Map.empty = Map.empty" for ep by (simp add: part_at_def fun_eq_iff)
  then have "holds_parts (gw_cluster g) cfg net Map.empty"
    using owner new mirrors_start unfolding holds_parts_def by fastforce
  with owner assms show ?thesis by (simp add: represents_def gateway_up_def routes_as_def)
qed

section \<open>Properties\<close>

text \<open>C1 The cluster is one map. From any reachable state of the gateway that has a ring and in which the
  circuits of the ALIVE and SUSPECT nodes are closed, over cache nodes that were just started, every
  sequence of reads, writes and deletions, with the heartbeats of ALIVE nodes and the rounds of the
  purge threads anywhere in between, is answered as a single map from keys to values would answer it,
  and in the end every node holds exactly the part of that map the ring gives it; as long as no write
  sets an expiry and the keys fit.\<close>

theorem cluster_is_a_map:
  assumes "reachable s as w" and "0 < set_replication_factor s"
    and "cm_ring (cluster_of w) \<noteq> None" and "node_of (cluster_of w) '''' = None"
    and "closed_on (routable (cluster_of w)) (breaker_of w)"
    and "\<forall>n ep. routable (cluster_of w) n \<and> member_address (cluster_of w) n = Some ep \<longrightarrow>
      net ep \<noteq> None \<and> roomy alloc room (cfg ep)"
    and "\<forall>ep sv. net ep = Some sv \<longrightarrow> (\<exists>now. CacheServer now (cfg ep) = Inr sv)"
    and "\<forall>v. reads_body lib dumps v 0"
    and "legal_run (map_step (home (cluster_of w) cfg)) (map_legal (live_address (cluster_of w)) room) ops Map.empty"
  shows "\<exists>g net'. run_with (system_step lib alloc dumps fallback) ops (wd_gateway w, net)
      = Some (fst (run_spec (map_step (home (cluster_of w) cfg)) ops Map.empty), g, net')
    \<and> holds_parts (cluster_of w) cfg net' (snd (run_spec (map_step (home (cluster_of w) cfg)) ops Map.empty))"
proof -
  have ring: "ring_ok (cluster_of w)" using reachable_ok [OF assms(1)] by (simp add: cluster_ok_def)
  have rf: "0 < replication_factor (cluster_of w)" using reachable_cluster [OF assms(1)] assms(2) cluster_run_config by metis
  have "cluster_up (cluster_of w)" using ring rf assms(3,4) by (simp add: cluster_up_def)
  then have "represents lib alloc dumps (cluster_of w) cfg room (wd_gateway w, net) Map.empty"
    using assms(5-8) reachable_latency [OF assms(1)] by (intro represents_start) blast+
  from cluster.run [OF this assms(9), of fallback] show ?thesis by (auto simp: represents_def)
qed

section \<open>Witness\<close>

text \<open>A JSON library that reads the text itself as the value.\<close>

definition text_lib :: "string json_lib" where
  "text_lib = \<lparr>jl_parse = Some, jl_contains = (\<lambda>j k. k = ''value''), jl_string = (\<lambda>j k. Some j),
     jl_value_int = (\<lambda>j k d. Some 0), jl_elements = (\<lambda>j k. None)\<rparr>"

definition text_body :: body_encoder where
  "text_body b = (case b of None \<Rightarrow> '''' | Some (v, ttl) \<Rightarrow> v)"

lemma text_reads: "reads_body text_lib text_body v 0"
  by (simp add: reads_body_def text_lib_def text_body_def)

abbreviation demo_beat :: heartbeat_payload where
  "demo_beat \<equiv> \<lparr>hb_node_id = ''a'', hb_host = ''host'', hb_port = 8001, hb_zone = ''zone'', hb_status = ''ALIVE'',
     hb_cache_size = 0, hb_cache_capacity = 2, hb_hit_ratio = 0, hb_memory_bytes = 0, hb_uptime_s = 5, hb_timestamp = 2\<rparr>"

abbreviation demo_ops :: "system_op list" where
  "demo_ops \<equiv> [Client_Put (at_time 1) 1 1 1 ''k'' None \<lparr>put_value = ''v1'', put_ttl = None\<rparr>,
     Node_Heartbeat 2 ''t'' 2 ''t'' demo_beat, Node_Purge (''host'', 8001) (\<lambda>_. 3),
     Client_Get (at_time 4) (\<lambda>_. 4) 4 ''k'' None, Client_Delete (at_time 5) 5 5 ''k'',
     Client_Get (at_time 6) (\<lambda>_. 6) 6 ''k'' None]"

lemma demo_member:
  "node_of (gw_cluster demo_gateway) n = (if n = ''a'' then Some (NodeMetadata 0 ''a'' ''host'' 8001 ''zone'') else None)"
  by (simp add: cluster_eval)

lemma demo_member_address: "member_address (gw_cluster demo_gateway) ''a'' = Some (''host'', 8001)"
  "live_address (gw_cluster demo_gateway) ''a'' = Some (''host'', 8001)"
  unfolding live_address_def member_address_def status_of_def demo_member by (simp_all add: NodeMetadata_def)

theorem cluster_is_a_map_witness:
  "\<exists>w sv g net. reachable demo_settings [demo_register] w
    \<and> run_with (system_step text_lib (first_fit 2) text_body (Raised OtherError)) demo_ops
        (wd_gateway w, [(''host'', 8001) \<mapsto> sv])
      = Some ([Put_Reply (Answered \<lparr>pr_status = ''created'', pr_key = ''k'', pr_node_id = ''node-1''\<rparr>),
          Heartbeat_Reply (Inr \<lparr>answer_status = ''received'', answer_node_id = ''a''\<rparr>), Purge_Done,
          Get_Reply (Answered \<lparr>gr_key = ''k'', gr_value = ''v1'', gr_node_id = ''node-1'', gr_zone = ''z''\<rparr>),
          Delete_Reply (Answered \<lparr>dr_status = ''deleted'', dr_key = ''k''\<rparr>), Get_Reply key_not_found], g, net)"
proof -
  obtain w where w: "reachable demo_settings [demo_register] w" "wd_gateway w = demo_gateway" using demo_registered by blast
  obtain sv where sv: "CacheServer 0 sample_config = Inr sv"
    by (simp add: CacheServer_def LRUCache_def sample_config_def)
  let ?net = "[(''host'', 8001) \<mapsto> sv]"
  have rf: "0 < set_replication_factor demo_settings" by (simp add: default_settings_def)
  have node: "node_of (cluster_of w) n = (if n = ''a'' then Some (NodeMetadata 0 ''a'' ''host'' 8001 ''zone'') else None)" for n
    unfolding w(2) by (rule demo_member)
  have "status_of (cluster_of w) ''a'' = Some ALIVE" by (simp add: status_of_def node NodeMetadata_def)
  moreover have "ring_ok (cluster_of w)" using reachable_ok [OF w(1)] by (simp add: cluster_ok_def)
  ultimately have ring: "cm_ring (cluster_of w) \<noteq> None" using ring_ok_alive by blast
  have unnamed: "node_of (cluster_of w) '''' = None" by (simp add: node)
  have closed: "closed_on (routable (cluster_of w)) (breaker_of w)"
    unfolding w(2) by (simp add: closed_on_def CircuitBreaker_def breaker_state_of_def)
  have roomy: "roomy (first_fit 2) 1 sample_config" using sample_allocator by (simp add: roomy_def sample_config_def)
  have up: "\<forall>n ep. routable (cluster_of w) n \<and> member_address (cluster_of w) n = Some ep \<longrightarrow>
      ?net ep \<noteq> None \<and> roomy (first_fit 2) 1 sample_config"
    using roomy by (simp add: member_address_def node NodeMetadata_def)
  have new: "\<forall>ep sv'. ?net ep = Some sv' \<longrightarrow> (\<exists>now. CacheServer now sample_config = Inr sv')" using sv by (auto split: if_splits)
  have reads: "\<forall>v. reads_body text_lib text_body v 0" using text_reads by simp
  have addr: "live_address (cluster_of w) ''a'' = Some (''host'', 8001)" unfolding w(2) by (rule demo_member_address)
  have legal: "legal_run (map_step (home (cluster_of w) (\<lambda>_. sample_config))) (map_legal (live_address (cluster_of w)) 1)
      demo_ops Map.empty" using demo_key by (simp add: addr)
  have answers: "fst (run_spec (map_step (home (cluster_of w) (\<lambda>_. sample_config))) demo_ops Map.empty)
    = [Put_Reply (Answered \<lparr>pr_status = ''created'', pr_key = ''k'', pr_node_id = ''node-1''\<rparr>),
       Heartbeat_Reply (Inr \<lparr>answer_status = ''received'', answer_node_id = ''a''\<rparr>), Purge_Done,
       Get_Reply (Answered \<lparr>gr_key = ''k'', gr_value = ''v1'', gr_node_id = ''node-1'', gr_zone = ''z''\<rparr>),
       Delete_Reply (Answered \<lparr>dr_status = ''deleted'', dr_key = ''k''\<rparr>), Get_Reply key_not_found]"
    by (simp add: sample_config_def)
  from cluster_is_a_map [OF w(1) rf ring unnamed closed up new reads legal, of "Raised OtherError"] w(1)
  show ?thesis unfolding answers by blast
qed

end
