(* ===== verification/Node_Process.thy ===== *)
theory Node_Process
  imports System
begin

text \<open>
  The process of a cache node: \<open>cache-node/src/main.cpp\<close>, which reads the configuration from the
  environment, and of \<open>cache_server.cpp\<close> the heartbeat thread and the starting and stopping of the
  process with its threads. \<open>std::stoi\<close> belongs to the C++ standard
  library and is modelled as it is specified there.
\<close>

section \<open>Numbers in the environment\<close>

definition is_digit :: "char \<Rightarrow> bool" where
  "is_digit c \<longleftrightarrow> 48 \<le> (of_char c :: nat) \<and> (of_char c :: nat) \<le> 57"

definition is_space :: "char \<Rightarrow> bool" where
  "is_space c \<longleftrightarrow> (of_char c :: nat) \<in> {9, 10, 11, 12, 13, 32}"

text \<open>\<open>std::stoi\<close>: white space, a sign, digits, and anything after them; \<open>None\<close> where it throws, without
  a digit or outside the range of \<open>int\<close>.\<close>

definition stoi_digits :: "bool \<Rightarrow> string \<Rightarrow> int option" where
  "stoi_digits negative s =
     (let digits = takeWhile is_digit s; n = int (parse_nat digits); v = (if negative then - n else n)
      in if digits = [] \<or> v < - (2 ^ 31) \<or> 2 ^ 31 \<le> v then None else Some v)"

definition stoi :: "string \<Rightarrow> int option" where
  "stoi s = (case dropWhile is_space s of
       [] \<Rightarrow> None
     | c # cs \<Rightarrow> if c = CHR ''-'' then stoi_digits True cs
                else if c = CHR ''+'' then stoi_digits False cs
                else stoi_digits False (c # cs))"

type_synonym environment = "string \<Rightarrow> string option" \<comment> \<open>\<open>std::getenv\<close>\<close>

definition env_or :: "environment \<Rightarrow> string \<Rightarrow> string \<Rightarrow> string" where
  "env_or env name fallback = (case env name of None \<Rightarrow> fallback | Some val \<Rightarrow> val)"

definition env_int :: "environment \<Rightarrow> string \<Rightarrow> int \<Rightarrow> int" where
  "env_int env name fallback =
     (case env name of
        None \<Rightarrow> fallback
      | Some val \<Rightarrow> (case stoi val of None \<Rightarrow> fallback | Some n \<Rightarrow> n))"

section \<open>The entry point\<close>

text \<open>The casts to \<open>size_t\<close> and \<open>uint32_t\<close> wrap.\<close>

definition main_config :: "environment \<Rightarrow> node_config" where
  "main_config env =
     \<lparr>nc_node_id = env_or env ''NODE_ID'' ''node-1'',
      nc_host = env_or env ''NODE_HOST'' ''0.0.0.0'',
      nc_port = env_int env ''NODE_PORT'' 8001,
      nc_zone = env_or env ''NODE_ZONE'' ''default'',
      nc_cache_capacity = unat (word_of_int (env_int env ''CACHE_CAPACITY'' 1000) :: 64 word),
      nc_default_ttl_s = word_of_int (env_int env ''DEFAULT_TTL_S'' 0),
      nc_cluster_manager_url = env_or env ''CLUSTER_MANAGER'' ''http://gateway:8000'',
      nc_heartbeat_interval_s = word_of_int (env_int env ''HEARTBEAT_S'' 5),
      nc_purge_interval_s = word_of_int (env_int env ''PURGE_INTERVAL_S'' 30)\<rparr>"

text \<open>The process exits with a status, or serves until it is killed.\<close>

definition node_main :: "ns \<Rightarrow> environment \<Rightarrow> int + cache_server" where
  "node_main now env = (case CacheServer now (main_config env) of Inl e \<Rightarrow> Inl 1 | Inr sv \<Rightarrow> Inr sv)"

section \<open>The heartbeat thread\<close>

text \<open>One round of the loop, once its sleep is over: what it posts, and where.\<close>

definition node_heartbeat :: "ns \<Rightarrow> nat \<Rightarrow> cache_server \<Rightarrow> heartbeat_payload" where
  "node_heartbeat now memory sv =
     (let cfg = sv_config sv; c = sv_cache sv
      in \<lparr>hb_node_id = nc_node_id cfg, hb_host = nc_host cfg, hb_port = nc_port cfg, hb_zone = nc_zone cfg,
          hb_status = ''alive'', hb_cache_size = int (lru_size c), hb_cache_capacity = int (lc_capacity c),
          hb_hit_ratio = hit_ratio (lc_metrics c), hb_memory_bytes = int memory,
          hb_uptime_s = (now - sv_start_time sv) div 1000000000, hb_timestamp = now div 1000000\<rparr>)"

definition heartbeat_method :: string where
  "heartbeat_method = ''POST''"

definition heartbeat_path :: string where
  "heartbeat_path = ''/internal/heartbeat''"

section \<open>Reading numbers back\<close>

definition str_int :: "int \<Rightarrow> string" where
  "str_int n = (if n < 0 then CHR ''-'' # str_nat (nat (- n)) else str_nat (nat n))"

lemma str_nat_is_digit: "c \<in> set (str_nat n) \<Longrightarrow> is_digit c"
  using str_nat_digits [of c n] digit_char_range by (fastforce simp: is_digit_def)

lemma str_nat_nonempty: "str_nat n \<noteq> []"
  by (simp add: str_nat.simps [of n])

lemma stoi_digits_str:
  assumes "rest = [] \<or> \<not> is_digit (hd rest)"
  shows "stoi_digits negative (str_nat n @ rest) = (let v = if negative then - int n else int n
    in if v < - (2 ^ 31) \<or> 2 ^ 31 \<le> v then None else Some v)"
proof -
  have "takeWhile is_digit rest = []" using assms by (cases rest) auto
  then have "takeWhile is_digit (str_nat n @ rest) = str_nat n"
    using str_nat_is_digit by (simp add: takeWhile_append2)
  then show ?thesis by (simp add: stoi_digits_def Let_def parse_str_nat str_nat_nonempty)
qed

lemma digit_no_sign: "is_digit c \<Longrightarrow> c \<noteq> CHR ''-'' \<and> c \<noteq> CHR ''+'' \<and> \<not> is_space c"
  by (auto simp: is_digit_def is_space_def)

lemma stoi_str:
  assumes "list_all is_space pad" and "rest = [] \<or> \<not> is_digit (hd rest)"
  shows "stoi (pad @ str_int n @ rest) = (if - (2 ^ 31) \<le> n \<and> n < 2 ^ 31 then Some n else None)"
proof -
  obtain c cs where cs: "str_nat (nat n) = c # cs" using str_nat_nonempty by (meson neq_Nil_conv)
  then have c: "is_digit c" using str_nat_is_digit [of c "nat n"] by simp
  have pad: "dropWhile is_space (pad @ xs) = dropWhile is_space xs" for xs
    using assms(1) by (simp add: dropWhile_append2 list_all_iff)
  show ?thesis
  proof (cases "n < 0")
    case True
    have "\<not> is_space CHR ''-''" by (simp add: is_space_def)
    with True show ?thesis by (simp add: stoi_def pad str_int_def stoi_digits_str [OF assms(2)])
  next
    case False
    have "stoi (pad @ str_int n @ rest) = stoi_digits False (str_nat (nat n) @ rest)"
      using False digit_no_sign [OF c] by (simp add: stoi_def pad str_int_def cs)
    with False show ?thesis by (simp add: stoi_digits_str [OF assms(2)])
  qed
qed

lemma stoi_range: "stoi s = Some n \<Longrightarrow> - (2 ^ 31) \<le> n \<and> n < 2 ^ 31"
  by (auto simp: stoi_def stoi_digits_def Let_def split: list.splits if_splits)

lemma env_int_range:
  assumes "- (2 ^ 31) \<le> fallback" and "fallback < 2 ^ 31"
  shows "- (2 ^ 31) \<le> env_int env name fallback" and "env_int env name fallback < 2 ^ 31"
  using assms stoi_range by (auto simp: env_int_def split: option.splits)

lemma cast_size_t:
  fixes n :: int
  assumes "- (2 ^ 31) \<le> n" and "n < 2 ^ 31"
  shows "int (unat (word_of_int n :: 64 word)) = (if n < 0 then 2 ^ 64 + n else n)"
proof -
  have "int (unat (word_of_int n :: 64 word)) = n mod 2 ^ 64" by (simp add: uint_word_of_int)
  also have "\<dots> = (if n < 0 then 2 ^ 64 + n else n)"
  proof (cases "n < 0")
    case True
    have "n mod 2 ^ 64 = (n + 2 ^ 64) mod 2 ^ 64" by simp
    also have "\<dots> = n + 2 ^ 64" using True assms by (intro mod_pos_pos_trivial) simp_all
    finally show ?thesis using True by simp
  qed (use assms in simp)
  finally show ?thesis .
qed

section \<open>Starting and stopping\<close>

text \<open>The process from the constructor on: the flag \<open>running_\<close>, its two background threads, the listening
  socket, and a call of \<open>stop\<close> that waits for the threads. A background thread looks at the flag when
  it wakes up, ends if it is cleared, and otherwise does its round and sleeps again.\<close>

datatype loop_state = Unstarted | Asleep | Awake | Ended

record process =
  np_server :: cache_server
  np_running :: bool
  np_heart :: loop_state
  np_purge :: loop_state
  np_listening :: bool
  np_stopping :: bool

definition new_process :: "cache_server \<Rightarrow> process" where
  "new_process sv = \<lparr>np_server = sv, np_running = False, np_heart = Unstarted, np_purge = Unstarted, np_listening = False,
     np_stopping = False\<rparr>"

definition is_running :: "process \<Rightarrow> bool" where
  "is_running p = np_running p"

datatype process_event =
    Start_Called
  | Serves node_times node_request "node_answer option"
  | Heart_Wakes
  | Beats heartbeat_payload
  | Heart_Ends
  | Purge_Wakes
  | Purges "string \<Rightarrow> ns"
  | Purge_Ends
  | Stop_Called
  | Stop_Returns

text \<open>\<open>stop\<close> does nothing when the flag is cleared already; otherwise it clears it and joins the threads.
  Nothing closes the socket: the server is a local variable of \<open>start\<close>.\<close>

inductive process_step :: "'j json_lib \<Rightarrow> allocator \<Rightarrow> process \<Rightarrow> process_event \<Rightarrow> process \<Rightarrow> bool" for lib alloc where
  start: "np_heart p = Unstarted \<Longrightarrow> process_step lib alloc p Start_Called
    (p\<lparr>np_running := True, np_heart := Asleep, np_purge := Asleep, np_listening := True\<rparr>)"
| serves: "np_listening p \<Longrightarrow> serve lib alloc t q (np_server p) = Some (a, sv) \<Longrightarrow>
    process_step lib alloc p (Serves t q a) (p\<lparr>np_server := sv\<rparr>)"
| heart_wakes: "np_heart p = Asleep \<Longrightarrow> np_running p \<Longrightarrow> process_step lib alloc p Heart_Wakes (p\<lparr>np_heart := Awake\<rparr>)"
| beats: "np_heart p = Awake \<Longrightarrow>
    process_step lib alloc p (Beats (node_heartbeat now memory (np_server p))) (p\<lparr>np_heart := Asleep\<rparr>)"
| heart_ends: "np_heart p = Asleep \<Longrightarrow> \<not> np_running p \<Longrightarrow> process_step lib alloc p Heart_Ends (p\<lparr>np_heart := Ended\<rparr>)"
| purge_wakes: "np_purge p = Asleep \<Longrightarrow> np_running p \<Longrightarrow> process_step lib alloc p Purge_Wakes (p\<lparr>np_purge := Awake\<rparr>)"
| purges: "np_purge p = Awake \<Longrightarrow> purge_tick clock (np_server p) = Some sv \<Longrightarrow>
    process_step lib alloc p (Purges clock) (p\<lparr>np_server := sv, np_purge := Asleep\<rparr>)"
| purge_ends: "np_purge p = Asleep \<Longrightarrow> \<not> np_running p \<Longrightarrow> process_step lib alloc p Purge_Ends (p\<lparr>np_purge := Ended\<rparr>)"
| stop: "process_step lib alloc p Stop_Called (p\<lparr>np_running := False, np_stopping := np_stopping p \<or> np_running p\<rparr>)"
| stop_returns: "np_stopping p \<Longrightarrow> np_heart p \<in> {Unstarted, Ended} \<Longrightarrow> np_purge p \<in> {Unstarted, Ended} \<Longrightarrow>
    process_step lib alloc p Stop_Returns (p\<lparr>np_stopping := False\<rparr>)"

inductive process_run :: "'j json_lib \<Rightarrow> allocator \<Rightarrow> process \<Rightarrow> process_event list \<Rightarrow> process \<Rightarrow> bool" for lib alloc where
  nothing: "process_run lib alloc p [] p"
| more: "process_step lib alloc p e p' \<Longrightarrow> process_run lib alloc p' es p'' \<Longrightarrow> process_run lib alloc p (e # es) p''"

inductive_cases process_stepE [elim]: "process_step lib alloc p e p'"
inductive_cases process_run_ConsE: "process_run lib alloc p (e # es) p'"

lemma process_run_append:
  "process_run lib alloc p (es @ es') p'' \<Longrightarrow> \<exists>p'. process_run lib alloc p es p' \<and> process_run lib alloc p' es' p''"
proof (induction es arbitrary: p)
  case (Cons e es)
  then obtain p1 where "process_step lib alloc p e p1" "process_run lib alloc p1 (es @ es') p''"
    by (auto elim: process_run_ConsE)
  with Cons.IH [of p1] show ?case by (blast intro: process_run.more)
qed (auto intro: process_run.nothing)

text \<open>Started once, a process listens; stopped, it stays stopped.\<close>

definition started :: "process \<Rightarrow> bool" where
  "started p \<longleftrightarrow> np_listening p \<and> np_heart p \<noteq> Unstarted"

lemma step_started: "process_step lib alloc p e p' \<Longrightarrow> started p \<Longrightarrow> started p'"
  by (auto simp: started_def)

text \<open>The heartbeats a stopped process may still post: the one whose round has begun.\<close>

definition beats_left :: "process \<Rightarrow> nat" where
  "beats_left p = (if np_heart p = Awake then 1 else 0)"

abbreviation beats_of :: "process_event list \<Rightarrow> process_event list" where
  "beats_of \<equiv> filter (\<lambda>e. \<exists>h. e = Beats h)"

lemma step_stopped:
  "process_step lib alloc p e p' \<Longrightarrow> started p \<Longrightarrow> \<not> np_running p \<Longrightarrow>
   \<not> np_running p' \<and> length (beats_of [e]) + beats_left p' \<le> beats_left p"
  by (auto simp: started_def beats_left_def)

lemma step_reachable:
  "process_step lib alloc p e p' \<Longrightarrow> node_reachable lib alloc cfg (np_server p) \<Longrightarrow> node_reachable lib alloc cfg (np_server p')"
  by (erule process_stepE) (auto intro: node_reachable.request node_reachable.tick)

lemma run_started: "process_run lib alloc p es p' \<Longrightarrow> started p \<or> Start_Called \<in> set es \<Longrightarrow> started p'"
proof (induction rule: process_run.induct)
  case (more p e p' es p'')
  have "started p'" if "e = Start_Called" using more.hyps(1) that by (auto simp: started_def)
  with more step_started [OF more.hyps(1)] show ?case by auto
qed simp

lemma run_stopped:
  "process_run lib alloc p es p' \<Longrightarrow> started p \<Longrightarrow> \<not> np_running p \<Longrightarrow> length (beats_of es) \<le> beats_left p"
proof (induction rule: process_run.induct)
  case (more p e p' es p'')
  with step_stopped [OF more.hyps(1) more.prems] step_started [OF more.hyps(1)] show ?case by auto
qed simp

lemma run_stays_stopped: "process_run lib alloc p es p' \<Longrightarrow> started p \<Longrightarrow> \<not> np_running p \<Longrightarrow> \<not> np_running p'"
proof (induction rule: process_run.induct)
  case (more p e p' es p'')
  with step_stopped [OF more.hyps(1) more.prems] step_started [OF more.hyps(1)] show ?case by auto
qed simp

lemma run_reachable:
  "process_run lib alloc p es p' \<Longrightarrow> node_reachable lib alloc cfg (np_server p) \<Longrightarrow> node_reachable lib alloc cfg (np_server p')"
  by (induction rule: process_run.induct) (auto dest: step_reachable)

text \<open>What a node reports of its cache.\<close>

lemma node_heartbeat_bounds:
  assumes "server_ok cfg sv"
  shows "0 \<le> hb_cache_size (node_heartbeat now memory sv)"
    and "hb_cache_size (node_heartbeat now memory sv) \<le> hb_cache_capacity (node_heartbeat now memory sv)"
    and "hb_cache_capacity (node_heartbeat now memory sv) = int (nc_cache_capacity cfg)"
proof -
  obtain s where "implements (sv_cache sv) s" "sp_capacity s = nc_cache_capacity cfg" "lc_capacity (sv_cache sv) = nc_cache_capacity cfg"
    using assms by (rule server_okE)
  moreover from this have "lru_size (sv_cache sv) \<le> nc_cache_capacity cfg"
    using lru_size_refines [of "sv_cache sv" s] by (auto simp: implements_def spec_ok_def)
  ultimately show "0 \<le> hb_cache_size (node_heartbeat now memory sv)"
    and "hb_cache_size (node_heartbeat now memory sv) \<le> hb_cache_capacity (node_heartbeat now memory sv)"
    and "hb_cache_capacity (node_heartbeat now memory sv) = int (nc_cache_capacity cfg)"
    by (simp_all add: node_heartbeat_def Let_def)
qed

section \<open>Properties\<close>

text \<open>A number in the environment is read as it was written: \<open>env_int\<close> reads the decimal text of a
  number, with spaces before it and anything but a digit after it, back as that number when it is in the
  range of \<open>int\<close>, and is the default otherwise.\<close>

theorem env_int_roundtrip:
  assumes "env name = Some (pad @ str_int n @ rest)" and "list_all is_space pad" and "rest = [] \<or> \<not> is_digit (hd rest)"
  shows "env_int env name fallback = (if - (2 ^ 31) \<le> n \<and> n < 2 ^ 31 then n else fallback)"
  using stoi_str [OF assms(2,3), of n] by (simp add: env_int_def assms(1))

theorem env_int_roundtrip_witness: "env_int [''NODE_PORT'' \<mapsto> ''  '' @ str_int 8001 @ ''/tcp''] ''NODE_PORT'' 1 = 8001"
  using env_int_roundtrip [of "[''NODE_PORT'' \<mapsto> ''  '' @ str_int 8001 @ ''/tcp'']" "''NODE_PORT''" "''  ''" 8001 "''/tcp''" 1]
  by (simp add: is_space_def is_digit_def)

text \<open>When a node starts: the process exits with status 1 exactly when the capacity in its environment is
  0, and otherwise serves an empty cache; a negative capacity becomes one of more than 2 to the 63
  entries, so that the node never evicts.\<close>

theorem node_starts_unless_capacity_zero:
  "(case node_main now env of
      Inl status \<Rightarrow> status = 1 \<and> env_int env ''CACHE_CAPACITY'' 1000 = 0
    | Inr sv \<Rightarrow> env_int env ''CACHE_CAPACITY'' 1000 \<noteq> 0 \<and> node_reachable lib alloc (main_config env) sv \<and> lru_size (sv_cache sv) = 0
        \<and> int (lc_capacity (sv_cache sv)) = (if env_int env ''CACHE_CAPACITY'' 1000 < 0
            then 2 ^ 64 + env_int env ''CACHE_CAPACITY'' 1000 else env_int env ''CACHE_CAPACITY'' 1000)
        \<and> (0 < env_int env ''CACHE_CAPACITY'' 1000 \<or> 2 ^ 63 < lc_capacity (sv_cache sv)))"
proof -
  let ?n = "env_int env ''CACHE_CAPACITY'' 1000"
  have cap: "int (nc_cache_capacity (main_config env)) = (if ?n < 0 then 2 ^ 64 + ?n else ?n)"
    using cast_size_t [OF env_int_range, of 1000 env "''CACHE_CAPACITY''"] by (simp add: main_config_def)
  have range: "- (2 ^ 31) \<le> ?n" by (rule env_int_range) simp_all
  show ?thesis
  proof (cases "nc_cache_capacity (main_config env) = 0")
    case True
    with cap range have "?n = 0" by (simp split: if_splits)
    with True show ?thesis by (simp add: node_main_def CacheServer_def LRUCache_def)
  next
    case False
    then obtain sv where sv: "CacheServer now (main_config env) = Inr sv" by (auto simp: CacheServer_def LRUCache_def)
    then have c: "lc_capacity (sv_cache sv) = nc_cache_capacity (main_config env)" "lru_size (sv_cache sv) = 0"
      by (auto simp: CacheServer_def LRUCache_def lru_size_def split: if_splits)
    from cap False have "?n \<noteq> 0" by auto
    moreover from this have "0 < ?n \<or> 2 ^ 63 < lc_capacity (sv_cache sv)" using cap c(1) range by (cases "?n < 0") simp_all
    ultimately show ?thesis using cap c node_reachable.start [OF sv, of lib alloc] by (simp add: node_main_def sv)
  qed
qed

text \<open>A stopped node keeps serving. However the process of a node runs, once it was started and then
  told to stop it is not running any more and posts at most the heartbeat under way, so that the gateway comes
  to hold it dead; but it listens as before, and answers every request.\<close>

theorem stopped_node_keeps_serving:
  assumes "node_main now env = Inr sv" and "allocates (nc_cache_capacity (main_config env)) alloc"
    and "process_run lib alloc (new_process sv) (es @ Stop_Called # es') p" and "Start_Called \<in> set es"
  shows "length (filter (\<lambda>e. \<exists>h. e = Beats h) es') \<le> 1 \<and> \<not> is_running p \<and> np_listening p
    \<and> (\<exists>a sv'. process_step lib alloc p (Serves t q a) (p\<lparr>np_server := sv'\<rparr>))"
proof -
  from process_run_append [OF assms(3)] obtain p1 where p1: "process_run lib alloc (new_process sv) es p1"
    "process_run lib alloc p1 (Stop_Called # es') p" by blast
  then obtain p2 where p2: "process_step lib alloc p1 Stop_Called p2" "process_run lib alloc p2 es' p"
    by (auto elim: process_run_ConsE)
  have "started p1" by (rule run_started [OF p1(1)]) (simp add: assms(4))
  then have "started p2" by (rule step_started [OF p2(1)])
  moreover have "\<not> np_running p2" using p2(1) by auto
  moreover have "beats_left p2 \<le> 1" by (simp add: beats_left_def)
  ultimately have "started p" and "length (beats_of es') \<le> 1" and "\<not> is_running p"
    using run_started [OF p2(2)] run_stopped [OF p2(2)] run_stays_stopped [OF p2(2)] by (auto simp: is_running_def)
  moreover have "node_reachable lib alloc (main_config env) sv"
    using assms(1) by (auto simp: node_main_def split: sum.splits intro: node_reachable.start)
  then have "node_reachable lib alloc (main_config env) (np_server p)"
    using run_reachable [OF assms(3)] by (simp add: new_process_def)
  then have "server_ok (main_config env) (np_server p)" using assms(2) by (rule node_reachable_ok)
  from serve_ok [OF this assms(2)] obtain a sv' where "serve lib alloc t q (np_server p) = Some (a, sv')" by blast
  ultimately show ?thesis by (auto simp: started_def intro: process_step.serves)
qed

theorem stopped_node_keeps_serving_witness:
  "\<exists>sv p a sv'. node_main 0 [''CACHE_CAPACITY'' \<mapsto> ''2''] = Inr sv
    \<and> process_run (sample_lib 0) (first_fit 2) (new_process sv) [Start_Called, Stop_Called, Heart_Ends, Purge_Ends, Stop_Returns] p
    \<and> process_step (sample_lib 0) (first_fit 2) p (Serves (at_time 1) (cache_request ''GET'' ''k'' '''') a) (p\<lparr>np_server := sv'\<rparr>)"
proof -
  let ?env = "[''CACHE_CAPACITY'' \<mapsto> ''2'']"
  have "stoi ''2'' = Some 2" by (simp add: stoi_def stoi_digits_def is_space_def is_digit_def parse_nat_def digit_value_def)
  then have cap: "nc_cache_capacity (main_config ?env) = 2" by (simp add: main_config_def env_int_def)
  obtain sv where sv: "node_main 0 ?env = Inr sv" by (simp add: node_main_def CacheServer_def LRUCache_def cap)
  have alloc: "allocates (nc_cache_capacity (main_config ?env)) (first_fit 2)" unfolding cap by (rule allocates_first_fit)
  have "\<exists>p. process_run (sample_lib 0) (first_fit 2) (new_process sv) [Start_Called, Stop_Called, Heart_Ends, Purge_Ends, Stop_Returns] p"
    by (intro exI process_run.intros, rule process_step.start, simp add: new_process_def, rule process_step.stop,
        rule process_step.heart_ends, simp, simp, rule process_step.purge_ends, simp, simp, rule process_step.stop_returns,
        (simp add: new_process_def)+, rule process_run.nothing)
  then obtain p where run: "process_run (sample_lib 0) (first_fit 2) (new_process sv)
      ([Start_Called] @ Stop_Called # [Heart_Ends, Purge_Ends, Stop_Returns]) p" by auto
  from stopped_node_keeps_serving [OF sv alloc run, of "at_time 1" "cache_request ''GET'' ''k'' ''''"] sv run
  show ?thesis by auto
qed

end
