(* ===== verification/Announcements.thy ===== *)
theory Announcements
  imports Gateway_Serve Cluster_Map Node_Process
begin

text \<open>
  How the gateway comes to know its cache nodes: what becomes of the heartbeats a node posts, and what
  a heartbeat does once it is delivered.
\<close>

section \<open>Clusters nobody announced\<close>

text \<open>The actions that bring a node to the gateway.\<close>

fun announces :: "'j action \<Rightarrow> bool" where
  "announces (Post_Heartbeat t1 s1 t2 s2 p) \<longleftrightarrow> True"
| "announces (Post_Register now stamp d) \<longleftrightarrow> True"
| "announces _ \<longleftrightarrow> False"

lemma scan_empty: "cm_nodes cm = [] \<Longrightarrow> cm_ring cm = None \<Longrightarrow>
    cm_nodes (fst (check_heartbeat_timeouts now stamps cm)) = [] \<and> cm_ring (fst (check_heartbeat_timeouts now stamps cm)) = None"
  by (simp add: check_heartbeat_timeouts_def)

lemma step_unannounced:
  assumes "gateway_step w a w'" and "\<not> announces a" and "cm_nodes (cluster_of w) = []" and "cm_ring (cluster_of w) = None"
  shows "cm_nodes (cluster_of w') = [] \<and> cm_ring (cluster_of w') = None"
  using assms
proof (cases rule: gateway_step.cases)
  case (failure_loop now stamps clock)
  with assms(3,4) scan_empty show ?thesis by (simp add: failure_iteration_cluster)
next
  case (health_check now stamps)
  with assms(3,4) scan_empty show ?thesis by (simp add: check_timeouts_def)
next
  case (begin_get clock key zone)
  with assms(3,4) get_key_start_cluster show ?thesis by (simp add: launch_def split_beta)
next
  case (begin_put now key put zone)
  with assms(3,4) primary_start_cluster show ?thesis by (simp add: launch_def put_key_start_def split_beta)
next
  case (begin_delete now key)
  with assms(3,4) primary_start_cluster show ?thesis by (simp add: launch_def delete_key_start_def split_beta)
next
  case (finish i now pin_time outcome)
  with assms(3,4) show ?thesis by (simp add: resume_cluster del: resume.simps)
qed simp_all

lemma run_unannounced:
  "gateway_run w as w' \<Longrightarrow> \<forall>a\<in>set as. \<not> announces a \<Longrightarrow> cm_nodes (cluster_of w) = [] \<Longrightarrow> cm_ring (cluster_of w) = None
     \<Longrightarrow> cm_nodes (cluster_of w') = [] \<and> cm_ring (cluster_of w') = None"
  by (induction rule: gateway_run.induct) (use step_unannounced in \<open>force+\<close>)

lemma startup_empty: "startup_event s = Inr w \<Longrightarrow> cm_nodes (cluster_of w) = [] \<and> cm_ring (cluster_of w) = None"
  using startup_gateway [of s w] by (simp add: ClusterManager_def)

lemma empty_refuses:
  assumes "cm_ring (gw_cluster g) = None"
  shows "fst (get_key_start clock key zone (Some g)) = Inl (unavailable ''No nodes available'')"
    and "fst (primary_start now key method body (Some g)) = Inl (unavailable ''No nodes available'')"
  using assms by (simp_all add: get_key_start_def primary_start_def get_replicas_for_key_def get_node_for_key_def falsy_def)

section \<open>Registration\<close>

text \<open>The body a \<open>NodeRegistration\<close> is sent as is complete, so the registration is not refused.\<close>

definition registration_body :: "node_registration \<Rightarrow> registration" where
  "registration_body r =
     \<lparr>reg_node_id = Some (nreg_node_id r), reg_host = Some (nreg_host r), reg_port = Some (nreg_port r),
      reg_zone = Some (nreg_zone r), reg_cache_capacity = Some (nreg_cache_capacity r)\<rparr>"

lemma registration_body_accepted:
  "register_endpoint now stamp (registration_body r) (Some cm) =
     (let cm' = register_node now stamp (nreg_node_id r) (nreg_host r) (nreg_port r) (nreg_zone r) (nreg_cache_capacity r) cm
      in (Inr \<lparr>registered_status = ''registered'', registered_node_id = nreg_node_id r,
            registered_cluster_size = int (length (cm_nodes cm'))\<rparr>, Some cm'))"
  by (simp add: register_endpoint_def missing_fields_def registration_body_def)

section \<open>Properties\<close>

text \<open>C28 The heartbeats of the cache nodes are lost. The gateway has no route for what the heartbeat thread
  of a node posts; and in every state the gateway reaches without some other announcement of a node, the
  cluster is empty and every client request is refused with 503.\<close>

theorem unannounced_nodes_serve_nothing:
  assumes "reachable s as w" and "\<forall>a\<in>set as. \<not> announces a"
  shows "gateway_route heartbeat_method heartbeat_path = None \<and> cm_nodes (cluster_of w) = []
    \<and> fst (get_key_start clock key zone (Some (wd_gateway w))) = Inl (Http (HTTPException 503 ''No nodes available''))
    \<and> fst (put_key_start now key put (Some (wd_gateway w))) = Inl (Http (HTTPException 503 ''No nodes available''))
    \<and> fst (delete_key_start now key (Some (wd_gateway w))) = Inl (Http (HTTPException 503 ''No nodes available''))"
proof -
  from assms(1) obtain w0 where w0: "startup_event s = Inr w0" "gateway_run w0 as w" by (auto simp: reachable_def)
  have "cm_nodes (cluster_of w) = [] \<and> cm_ring (cluster_of w) = None"
    using startup_empty [OF w0(1)] by (intro run_unannounced [OF w0(2) assms(2)]) simp_all
  then have "cm_nodes (cluster_of w) = []" and ring: "cm_ring (cluster_of w) = None" by blast+
  moreover have "gateway_route heartbeat_method heartbeat_path = None"
    by (simp add: gateway_route_def heartbeat_route_def cluster_route_def cache_route_def main_route_def path_param_def
        heartbeat_method_def heartbeat_path_def)
  ultimately show ?thesis
    using empty_refuses [OF ring] by (simp add: put_key_start_def delete_key_start_def unavailable_def)
qed

theorem unannounced_nodes_serve_nothing_witness:
  "\<exists>w. reachable default_settings ([Failure_Loop 3 (\<lambda>n. ''t'') (\<lambda>n i. 3)] :: unit action list) w
    \<and> fst (get_key_start (\<lambda>n. 4) ''k'' None (Some (wd_gateway w))) = Inl (Http (HTTPException 503 ''No nodes available''))"
proof -
  obtain w0 where w0: "startup_event default_settings = Inr w0"
    by (simp add: startup_event_def BloomFilter_def default_settings_def Let_def)
  let ?w = "w0\<lparr>wd_gateway := failure_detection_iteration 3 (\<lambda>n. ''t'') (\<lambda>n i. 3) (wd_gateway w0)\<rparr>"
  have "gateway_run w0 ([Failure_Loop 3 (\<lambda>n. ''t'') (\<lambda>n i. 3)] :: unit action list) ?w"
    by (rule gateway_run.step [OF gateway_step.failure_loop gateway_run.stop])
  with w0 have w: "reachable default_settings ([Failure_Loop 3 (\<lambda>n. ''t'') (\<lambda>n i. 3)] :: unit action list) ?w"
    by (auto simp: reachable_def)
  from unannounced_nodes_serve_nothing [OF w] w show ?thesis by fastforce
qed



end
