(* ===== verification/Migration.thy ===== *)
theory Migration
  imports Cluster_Map Rebalancer
begin

text \<open>
  The rebalancer together with the cache nodes: the tasks of \<open>gateway/app/services/rebalancer.py\<close>
  run concurrently, each with a call of \<open>GET /snapshot\<close> at the old owner and one of \<open>POST
  /bulk-load\<close> at the new owner, and the calls interleave in any order. What the HTTP client makes of
  a list of entries is the argument \<open>pack\<close>; what it makes of a request the node's HTTP library
  answers itself are the arguments \<open>fb\<close>. No client calls in between.
\<close>

section \<open>Model\<close>

text \<open>A call of a node with what the gateway reads of the body.\<close>

definition call_node ::
  "'j json_lib \<Rightarrow> allocator \<Rightarrow> (node_body \<Rightarrow> 'b) \<Rightarrow> 'b http_outcome \<Rightarrow> node_times \<Rightarrow> node_request \<Rightarrow> endpoint \<Rightarrow> network
    \<Rightarrow> ('b http_outcome \<times> network) option" where
  "call_node lib alloc read fb t q ep net =
     (case net ep of
        None \<Rightarrow> Some (Raised ConnectError, net)
      | Some sv \<Rightarrow> (case serve lib alloc t q sv of
            None \<Rightarrow> None
          | Some (a, sv') \<Rightarrow> Some (case a of Some (Answer status b) \<Rightarrow> Response status (Some (read b)) | _ \<Rightarrow> fb, net(ep \<mapsto> sv'))))"

text \<open>\<open>data.get("keys")\<close> and \<open>snapshot.get("entries")\<close>.\<close>

fun body_keys :: "node_body \<Rightarrow> string list option" where
  "body_keys (Keys_Body _ ks) = Some ks"
| "body_keys _ = None"

definition entry_of_row :: "snapshot_row \<Rightarrow> snapshot_entry" where
  "entry_of_row row = (case row of (k, v, ttl) \<Rightarrow> \<lparr>entry_key = Some k, entry_value = v, entry_ttl = uint ttl\<rparr>)"

fun body_entries :: "node_body \<Rightarrow> snapshot_entry list option" where
  "body_entries (Snapshot_Body _ rows) = Some (map entry_of_row rows)"
| "body_entries _ = None"

text \<open>The first phase: \<open>GET /keys\<close> changes no node, so the answers do not depend on their order.\<close>

definition list_keys ::
  "'j json_lib \<Rightarrow> allocator \<Rightarrow> string list option http_outcome \<Rightarrow> node_times \<Rightarrow> network \<Rightarrow> string \<Rightarrow> endpoint \<Rightarrow> keys_answer" where
  "list_keys lib alloc fb t net node_id ep =
     (case call_node lib alloc body_keys fb t (node_call ''GET'' ''/keys'' '''') ep net of
        Some (r, _) \<Rightarrow> r
      | None \<Rightarrow> fb)"

text \<open>The second phase: the network, and what each task was answered so far.\<close>

record migration =
  mg_net :: network
  mg_snap :: "nat \<Rightarrow> snapshot_answer option"
  mg_load :: "nat \<Rightarrow> unit http_outcome option"

datatype migration_event =
    Take nat node_times \<comment> \<open>the task gets its snapshot\<close>
  | Give nat node_times \<comment> \<open>the task posts what it took\<close>

fun task_source :: "(string \<times> endpoint) list \<Rightarrow> task \<Rightarrow> endpoint" where
  "task_source eps (a, b, ks) = endpoint_of eps a (''localhost'', 8001)"

fun task_target :: "(string \<times> endpoint) list \<Rightarrow> task \<Rightarrow> endpoint" where
  "task_target eps (a, b, ks) = endpoint_of eps b (''localhost'', 8002)"

fun task_keys :: "task \<Rightarrow> string list" where
  "task_keys (a, b, ks) = ks"

text \<open>What a task posts does not depend on the answer to the post.\<close>

definition task_post :: "(string \<times> endpoint) list \<Rightarrow> snapshot_answer \<Rightarrow> task \<Rightarrow> (endpoint \<times> snapshot_entry list) option" where
  "task_post eps ans task = snd (migrate_keys (\<lambda>_. ans) (\<lambda>_ _. Raised OtherError) eps task)"

text \<open>An event of a task that is not ready for it, or is past it, changes nothing.\<close>

fun migration_step ::
  "'j json_lib \<Rightarrow> allocator \<Rightarrow> (snapshot_entry list \<Rightarrow> string) \<Rightarrow> snapshot_answer \<Rightarrow> unit http_outcome
    \<Rightarrow> (string \<times> endpoint) list \<Rightarrow> task list \<Rightarrow> migration_event \<Rightarrow> migration \<Rightarrow> migration option" where
  "migration_step lib alloc pack fb1 fb2 eps tasks (Take i t) mg =
     (if i < length tasks \<and> mg_snap mg i = None then
        (case call_node lib alloc body_entries fb1 t (node_call ''GET'' ''/snapshot'' '''') (task_source eps (tasks ! i)) (mg_net mg) of
           None \<Rightarrow> None
         | Some (r, net) \<Rightarrow> Some (mg\<lparr>mg_net := net, mg_snap := (mg_snap mg)(i \<mapsto> r)\<rparr>))
      else Some mg)"
| "migration_step lib alloc pack fb1 fb2 eps tasks (Give i t) mg =
     (case mg_snap mg i of
        None \<Rightarrow> Some mg
      | Some ans \<Rightarrow>
          if mg_load mg i \<noteq> None then Some mg
          else (case task_post eps ans (tasks ! i) of
              None \<Rightarrow> Some (mg\<lparr>mg_load := (mg_load mg)(i \<mapsto> Raised OtherError)\<rparr>)
            | Some (ep, es) \<Rightarrow>
                (case call_node lib alloc (\<lambda>_. ()) fb2 t (node_call ''POST'' ''/bulk-load'' (pack es)) ep (mg_net mg) of
                   None \<Rightarrow> None
                 | Some (r, net) \<Rightarrow> Some (mg\<lparr>mg_net := net, mg_load := (mg_load mg)(i \<mapsto> r)\<rparr>))))"

fun migration_run ::
  "'j json_lib \<Rightarrow> allocator \<Rightarrow> (snapshot_entry list \<Rightarrow> string) \<Rightarrow> snapshot_answer \<Rightarrow> unit http_outcome
    \<Rightarrow> (string \<times> endpoint) list \<Rightarrow> task list \<Rightarrow> migration_event list \<Rightarrow> migration \<Rightarrow> migration option" where
  "migration_run lib alloc pack fb1 fb2 eps tasks [] mg = Some mg"
| "migration_run lib alloc pack fb1 fb2 eps tasks (e # es) mg =
     Option.bind (migration_step lib alloc pack fb1 fb2 eps tasks e mg) (migration_run lib alloc pack fb1 fb2 eps tasks es)"

text \<open>The tasks of a rebalance, and whether all of them are over.\<close>

definition rebalance_tasks ::
  "(string set \<Rightarrow> string list) \<Rightarrow> (string \<Rightarrow> endpoint \<Rightarrow> keys_answer) \<Rightarrow> hash_ring \<Rightarrow> hash_ring
    \<Rightarrow> (string \<times> endpoint) list \<Rightarrow> task list" where
  "rebalance_tasks enum fetch old_ring new_ring eps =
     (case plan_loop old_ring new_ring (enum (get_all_keys fetch eps)) [] {} of
        (Inl e, _) \<Rightarrow> []
      | (Inr migrations, _) \<Rightarrow> migration_tasks migrations)"

definition all_over :: "task list \<Rightarrow> migration \<Rightarrow> bool" where
  "all_over tasks mg \<longleftrightarrow> (\<forall>i<length tasks. mg_load mg i \<noteq> None)"

abbreviation migration_start :: "network \<Rightarrow> migration" where
  "migration_start net \<equiv> \<lparr>mg_net = net, mg_snap = Map.empty, mg_load = Map.empty\<rparr>"

text \<open>A whole rebalance over the network: the listing, then the tasks with the events in the order of
  \<open>es\<close>, and what \<open>rebalance\<close> makes of the answers.\<close>

definition rebalance_nodes ::
  "'j json_lib \<Rightarrow> allocator \<Rightarrow> (snapshot_entry list \<Rightarrow> string) \<Rightarrow> string list option http_outcome \<Rightarrow> snapshot_answer
    \<Rightarrow> unit http_outcome \<Rightarrow> node_times \<Rightarrow> (string set \<Rightarrow> string list) \<Rightarrow> hash_ring \<Rightarrow> hash_ring \<Rightarrow> (string \<times> endpoint) list
    \<Rightarrow> migration_event list \<Rightarrow> network \<Rightarrow> rebalancer
    \<Rightarrow> ((rebalance_result py \<times> rebalancer \<times> (endpoint \<times> snapshot_entry list) list) \<times> network) option" where
  "rebalance_nodes lib alloc pack fb0 fb1 fb2 t enum old_ring new_ring eps es net r =
     (let fetch = list_keys lib alloc fb0 t net
      in case migration_run lib alloc pack fb1 fb2 eps (rebalance_tasks enum fetch old_ring new_ring eps) es (migration_start net) of
           None \<Rightarrow> None
         | Some mg \<Rightarrow> Some (rebalance enum fetch (\<lambda>i ep. the (mg_snap mg i)) (\<lambda>i ep es. the (mg_load mg i))
               old_ring new_ring eps r, mg_net mg))"

text \<open>A schedule in which every task takes and later gives.\<close>

definition complete_schedule :: "nat \<Rightarrow> migration_event list \<Rightarrow> bool" where
  "complete_schedule n es \<longleftrightarrow> (\<forall>i<n. \<exists>xs t ys t' zs. es = xs @ Take i t # ys @ Give i t' # zs)"

text \<open>The node's JSON library reads back the entries of the map that the gateway sends.\<close>

definition reads_back :: "'j json_lib \<Rightarrow> (snapshot_entry list \<Rightarrow> string) \<Rightarrow> (string \<rightharpoonup> string) \<Rightarrow> bool" where
  "reads_back lib pack m \<longleftrightarrow> (\<forall>es. (\<forall>e\<in>set es. \<exists>k v. m k = Some v \<and> e = \<lparr>entry_key = Some k, entry_value = v, entry_ttl = 0\<rparr>)
     \<longrightarrow> (\<exists>j js. jl_parse lib (pack es) = Some j \<and> jl_elements lib j ''entries'' = Some js
     \<and> list_all2 (\<lambda>e je. \<forall>k. entry_key e = Some k \<longrightarrow> jl_string lib je ''key'' = Some k
         \<and> jl_string lib je ''value'' = Some (entry_value e) \<and> jl_value_int lib je ''ttl'' 0 = Some (entry_ttl e)) es js))"

lemma reads_back_mono:
  assumes "reads_back lib pack m" and "\<And>k v. m' k = Some v \<Longrightarrow> m k = Some v"
  shows "reads_back lib pack m'"
  unfolding reads_back_def
proof (intro allI impI)
  fix es assume "\<forall>e\<in>set es. \<exists>k v. m' k = Some v \<and> e = \<lparr>entry_key = Some k, entry_value = v, entry_ttl = 0\<rparr>"
  with assms(2) have "\<forall>e\<in>set es. \<exists>k v. m k = Some v \<and> e = \<lparr>entry_key = Some k, entry_value = v, entry_ttl = 0\<rparr>" by blast
  with assms(1) show "\<exists>j js. jl_parse lib (pack es) = Some j \<and> jl_elements lib j ''entries'' = Some js
     \<and> list_all2 (\<lambda>e je. \<forall>k. entry_key e = Some k \<longrightarrow> jl_string lib je ''key'' = Some k
         \<and> jl_string lib je ''value'' = Some (entry_value e) \<and> jl_value_int lib je ''ttl'' 0 = Some (entry_ttl e)) es js"
    by (simp add: reads_back_def)
qed

lemma reads_back_restrict: "reads_back lib pack m \<Longrightarrow> reads_back lib pack (m |` K)"
  by (erule reads_back_mono) (simp add: restrict_map_def split: if_splits)

section \<open>What a task takes and posts\<close>

lemma entry_key_row [simp]: "entry_key (entry_of_row row) = Some (fst row)"
  by (cases row) (simp add: entry_of_row_def)

lemma read_entries_back:
  "list_all2 (\<lambda>e je. \<forall>k. entry_key e = Some k \<longrightarrow> jl_string lib je ''key'' = Some k
       \<and> jl_string lib je ''value'' = Some (entry_value e) \<and> jl_value_int lib je ''ttl'' 0 = Some (entry_ttl e))
     (map entry_of_row rows) js \<Longrightarrow> read_entries lib js = Some rows"
  by (induction rows arbitrary: js) (auto simp: list_all2_Cons1 entry_of_row_def)

lemma reads_back_rows:
  assumes "reads_back lib pack m" and "\<forall>(k, v, ttl)\<in>set rows. m k = Some v" and "\<forall>(k, v, ttl)\<in>set rows. ttl = 0"
  obtains j where "jl_parse lib (pack (map entry_of_row rows)) = Some j"
    and "Option.bind (jl_elements lib j ''entries'') (read_entries lib) = Some rows"
proof -
  have "\<forall>e\<in>set (map entry_of_row rows). \<exists>k v. m k = Some v \<and> e = \<lparr>entry_key = Some k, entry_value = v, entry_ttl = 0\<rparr>"
    using assms(2,3) by (fastforce simp: entry_of_row_def)
  with assms(1) obtain j js where "jl_parse lib (pack (map entry_of_row rows)) = Some j"
    "jl_elements lib j ''entries'' = Some js"
    "list_all2 (\<lambda>e je. \<forall>k. entry_key e = Some k \<longrightarrow> jl_string lib je ''key'' = Some k
       \<and> jl_string lib je ''value'' = Some (entry_value e) \<and> jl_value_int lib je ''ttl'' 0 = Some (entry_ttl e))
     (map entry_of_row rows) js" unfolding reads_back_def by meson
  with read_entries_back that show thesis by fastforce
qed

text \<open>Rows that hold all the keys a task is after, as the map \<open>m\<close> has them.\<close>

definition good_rows :: "(string \<rightharpoonup> string) \<Rightarrow> string list \<Rightarrow> snapshot_row list \<Rightarrow> bool" where
  "good_rows m ks rows \<longleftrightarrow> distinct (map fst rows) \<and> (\<forall>(k, v, ttl)\<in>set rows. k \<in> set ks \<longrightarrow> m k = Some v \<and> ttl = 0)
     \<and> ks \<noteq> [] \<and> set ks \<subseteq> fst ` set rows"

abbreviation wanted :: "string list \<Rightarrow> snapshot_row list \<Rightarrow> snapshot_row list" where
  "wanted ks \<equiv> filter (\<lambda>row. fst row \<in> set ks)"

lemma good_wanted:
  assumes "good_rows m ks rows"
  shows "fst ` set (wanted ks rows) = set ks" and "wanted ks rows \<noteq> []"
    and "\<forall>(k, v, ttl)\<in>set (wanted ks rows). m k = Some v" and "\<forall>(k, v, ttl)\<in>set (wanted ks rows). ttl = 0"
    and "length (wanted ks rows) = card (set ks)"
proof -
  show keys: "fst ` set (wanted ks rows) = set ks" using assms by (force simp: good_rows_def)
  then show "wanted ks rows \<noteq> []" using assms by (metis good_rows_def image_is_empty set_empty)
  show "\<forall>(k, v, ttl)\<in>set (wanted ks rows). m k = Some v" and "\<forall>(k, v, ttl)\<in>set (wanted ks rows). ttl = 0"
    using assms by (auto simp: good_rows_def)
  have "distinct (map fst (wanted ks rows))" using assms by (simp add: good_rows_def distinct_map_filter)
  from distinct_card [OF this] keys show "length (wanted ks rows) = card (set ks)" by simp
qed

lemma migrate_good:
  assumes "good_rows m (task_keys task) rows" and "snap (task_source eps task) = Response 200 (Some (Some (map entry_of_row rows)))"
  shows "migrate_keys snap load eps task =
    (case load (task_target eps task) (map entry_of_row (wanted (task_keys task) rows)) of
       Raised e \<Rightarrow> 0
     | Response status body \<Rightarrow> if status \<noteq> 200 then 0 else int (card (set (task_keys task))),
     Some (task_target eps task, map entry_of_row (wanted (task_keys task) rows)))"
proof -
  obtain a b ks where task: "task = (a, b, ks)" by (rule prod_cases3)
  have "select_entries (set ks) (map entry_of_row rows) = Inr (map entry_of_row (wanted ks rows))"
    by (simp add: select_entries_keyed filter_map comp_def)
  with good_wanted(2,5) [OF assms(1)] assms(2) show ?thesis
    by (simp add: task migrate_keys_def Let_def split: http_outcome.split)
qed

lemma task_post_good:
  "good_rows m (task_keys task) rows \<Longrightarrow> task_post eps (Response 200 (Some (Some (map entry_of_row rows)))) task
     = Some (task_target eps task, map entry_of_row (wanted (task_keys task) rows))"
  by (simp add: task_post_def migrate_good)

section \<open>Any interleaving\<close>

text \<open>The keys the tasks move. Clients may write other keys meanwhile.\<close>

definition moving :: "task list \<Rightarrow> string set" where
  "moving tasks = (\<Union>task\<in>set tasks. set (task_keys task))"

text \<open>A node in the course of a migration: of the keys that move it has those it owned, and of those it
  will own some; of the other keys it has its part by the new ring. \<open>old\<close> and \<open>new\<close> give the address
  of the owner of a key before and after.\<close>

definition partly_moved ::
  "(string \<Rightarrow> endpoint option) \<Rightarrow> (string \<Rightarrow> endpoint option) \<Rightarrow> string set \<Rightarrow> (string \<rightharpoonup> string) \<Rightarrow> endpoint
    \<Rightarrow> (string \<rightharpoonup> string) \<Rightarrow> bool" where
  "partly_moved old new K m ep f \<longleftrightarrow> (\<forall>k. if k \<in> K then (old k = Some ep \<longrightarrow> f k = m k)
       \<and> (f k \<noteq> None \<longrightarrow> f k = m k \<and> (old k = Some ep \<or> new k = Some ep))
     else f k = (if new k = Some ep then m k else None))"

text \<open>Tasks whose keys are in the map and have the owners the task goes between.\<close>

definition tasks_ok ::
  "(string \<Rightarrow> endpoint option) \<Rightarrow> (string \<Rightarrow> endpoint option) \<Rightarrow> (string \<rightharpoonup> string) \<Rightarrow> (string \<times> endpoint) list \<Rightarrow> network \<Rightarrow> task list \<Rightarrow> bool" where
  "tasks_ok old new m eps net tasks \<longleftrightarrow> (\<forall>task\<in>set tasks. task_keys task \<noteq> []
     \<and> net (task_source eps task) \<noteq> None \<and> net (task_target eps task) \<noteq> None
     \<and> (\<forall>k\<in>set (task_keys task). m k \<noteq> None \<and> old k = Some (task_source eps task) \<and> new k = Some (task_target eps task)))"

text \<open>A node holds what the tasks that are over brought to it.\<close>

definition has_received :: "(string \<rightharpoonup> string) \<Rightarrow> (string \<times> endpoint) list \<Rightarrow> task list \<Rightarrow> migration \<Rightarrow> endpoint \<Rightarrow> (string \<rightharpoonup> string) \<Rightarrow> bool" where
  "has_received m eps tasks mg ep f \<longleftrightarrow> (\<forall>i<length tasks. mg_load mg i \<noteq> None \<longrightarrow> task_target eps (tasks ! i) = ep
     \<longrightarrow> (\<forall>k\<in>set (task_keys (tasks ! i)). f k = m k))"

definition in_progress_ok ::
  "allocator \<Rightarrow> (endpoint \<Rightarrow> node_config) \<Rightarrow> nat \<Rightarrow> (string \<Rightarrow> endpoint option) \<Rightarrow> (string \<Rightarrow> endpoint option) \<Rightarrow> (string \<rightharpoonup> string)
    \<Rightarrow> (string \<times> endpoint) list \<Rightarrow> task list \<Rightarrow> migration \<Rightarrow> bool" where
  "in_progress_ok alloc cfg room old new m eps tasks mg \<longleftrightarrow> tasks_ok old new m eps (mg_net mg) tasks
     \<and> (\<forall>ep sv. mg_net mg ep = Some sv \<longrightarrow> roomy alloc room (cfg ep)
          \<and> (\<exists>f. mirrors (cfg ep) sv f \<and> partly_moved old new (moving tasks) m ep f \<and> has_received m eps tasks mg ep f))
     \<and> (\<forall>i ans. mg_snap mg i = Some ans \<longrightarrow> i < length tasks
          \<and> (\<exists>rows. ans = Response 200 (Some (Some (map entry_of_row rows))) \<and> good_rows m (task_keys (tasks ! i)) rows))
     \<and> (\<forall>i r. mg_load mg i = Some r \<longrightarrow> mg_snap mg i \<noteq> None \<and> r = Response 200 (Some ()))"

lemma partly_moved_sub: "partly_moved old new K m ep f \<Longrightarrow> f k \<noteq> None \<Longrightarrow> f k = m k"
  unfolding partly_moved_def by (drule spec [of _ k]) (auto split: if_splits)

lemma partly_moved_dom: "partly_moved old new K m ep f \<Longrightarrow> dom f \<subseteq> dom m"
  by (metis domIff partly_moved_sub subsetI)

lemma partly_moved_old: "partly_moved old new K m ep f \<Longrightarrow> k \<in> K \<Longrightarrow> old k = Some ep \<Longrightarrow> f k = m k"
  unfolding partly_moved_def by (drule spec [of _ k]) simp

lemma partly_moved_add:
  assumes "partly_moved old new K m ep f" and "\<And>k. k \<in> T \<Longrightarrow> new k = Some ep" and "\<And>k. f' k = (if k \<in> T then m k else f k)"
  shows "partly_moved old new K m ep f'"
  unfolding partly_moved_def
proof
  fix k
  show "if k \<in> K then (old k = Some ep \<longrightarrow> f' k = m k) \<and> (f' k \<noteq> None \<longrightarrow> f' k = m k \<and> (old k = Some ep \<or> new k = Some ep))
    else f' k = (if new k = Some ep then m k else None)"
  proof (cases "k \<in> T")
    case True
    have "f' k = m k" using assms(3) True by simp
    with assms(2) [OF True] show ?thesis by simp
  next
    case False
    have "f' k = f k" using assms(3) False by simp
    with spec [OF assms(1) [unfolded partly_moved_def], of k] show ?thesis by simp
  qed
qed

lemma moving_task: "i < length tasks \<Longrightarrow> k \<in> set (task_keys (tasks ! i)) \<Longrightarrow> k \<in> moving tasks"
  unfolding moving_def using nth_mem by blast

lemma tasks_ok_nth:
  assumes "tasks_ok old new m eps net tasks" and "i < length tasks"
  shows "task_keys (tasks ! i) \<noteq> []" and "net (task_source eps (tasks ! i)) \<noteq> None"
    and "net (task_target eps (tasks ! i)) \<noteq> None"
    and "k \<in> set (task_keys (tasks ! i)) \<Longrightarrow> m k \<noteq> None \<and> old k = Some (task_source eps (tasks ! i))
      \<and> new k = Some (task_target eps (tasks ! i))"
  using assms nth_mem unfolding tasks_ok_def by blast+

lemma tasks_ok_net: "tasks_ok old new m eps net tasks \<Longrightarrow> tasks_ok old new m eps (net(ep \<mapsto> sv)) tasks"
  by (simp add: tasks_ok_def)

lemma progress_node:
  assumes "in_progress_ok alloc cfg room old new m eps tasks mg" and "mg_net mg ep = Some sv"
  obtains f where "mirrors (cfg ep) sv f" and "partly_moved old new (moving tasks) m ep f" and "has_received m eps tasks mg ep f"
    and "roomy alloc room (cfg ep)"
  using assms unfolding in_progress_ok_def by blast

lemma take_ok:
  assumes ok: "in_progress_ok alloc cfg room old new m eps tasks mg" and i: "i < length tasks" "mg_snap mg i = None"
  shows "\<exists>mg'. migration_step lib alloc pack fb1 fb2 eps tasks (Take i t) mg = Some mg'
    \<and> in_progress_ok alloc cfg room old new m eps tasks mg'"
proof -
  let ?ep = "task_source eps (tasks ! i)"
  have tasks: "tasks_ok old new m eps (mg_net mg) tasks" using ok by (simp add: in_progress_ok_def)
  then obtain sv where sv: "mg_net mg ?ep = Some sv" using tasks_ok_nth(2) [OF tasks i(1)] by blast
  with ok obtain f where f: "mirrors (cfg ?ep) sv f" "partly_moved old new (moving tasks) m ?ep f" by (rule progress_node)
  from mirrors_snapshot [OF f(1), of lib alloc t "''''"] obtain rows where
    serve: "serve lib alloc t (node_call ''GET'' ''/snapshot'' '''') sv
      = Some (Some (Answer 200 (Snapshot_Body (nc_node_id (cfg ?ep)) rows)), sv)"
    and rows: "distinct (map fst rows)" "fst ` set rows = dom f" "\<forall>(k, v, ttl)\<in>set rows. f k = Some v \<and> ttl = 0" by blast
  have "f k = m k" if "f k = Some v" for k v using partly_moved_sub [OF f(2), of k] that by simp
  with rows(3) have in_m: "\<forall>(k, v, ttl)\<in>set rows. k \<in> set (task_keys (tasks ! i)) \<longrightarrow> m k = Some v \<and> ttl = 0" by fastforce
  have "f k \<noteq> None" if "k \<in> set (task_keys (tasks ! i))" for k
    using tasks_ok_nth(4) [OF tasks i(1) that] partly_moved_old [OF f(2) moving_task [OF i(1) that]] by simp
  then have "set (task_keys (tasks ! i)) \<subseteq> fst ` set rows" unfolding rows(2) by blast
  then have "good_rows m (task_keys (tasks ! i)) rows"
    unfolding good_rows_def by (intro conjI rows(1) in_m tasks_ok_nth(1) [OF tasks i(1)])
  then have "in_progress_ok alloc cfg room old new m eps tasks
    (mg\<lparr>mg_snap := (mg_snap mg)(i \<mapsto> Response 200 (Some (Some (map entry_of_row rows))))\<rparr>)"
    using ok i by (auto simp: in_progress_ok_def has_received_def)
  moreover have "mg\<lparr>mg_net := (mg_net mg)(?ep \<mapsto> sv)\<rparr> = mg" using sv by (simp add: fun_upd_idem)
  ultimately show ?thesis using i sv serve by (simp add: call_node_def fun_upd_idem)
qed

text \<open>The post of a task, at a node that is a map.\<close>

lemma give_node:
  assumes snap: "mg_snap mg i = Some (Response 200 (Some (Some (map entry_of_row rows))))" and load: "mg_load mg i = None"
    and rows: "good_rows m (task_keys (tasks ! i)) rows" and reads: "reads_back lib pack (m |` set (task_keys (tasks ! i)))"
    and ep: "ep = task_target eps (tasks ! i)" and sv: "mg_net mg ep = Some sv" and f: "mirrors (cfg ep) sv f"
    and room: "roomy alloc room (cfg ep)" and fits: "card (dom f \<union> set (task_keys (tasks ! i))) \<le> room"
  shows "\<exists>sv'. migration_step lib alloc pack fb1 fb2 eps tasks (Give i t) mg
      = Some (mg\<lparr>mg_net := (mg_net mg)(ep \<mapsto> sv'), mg_load := (mg_load mg)(i \<mapsto> Response 200 (Some ()))\<rparr>)
    \<and> mirrors (cfg ep) sv' (\<lambda>k. if k \<in> set (task_keys (tasks ! i)) then m k else f k)"
proof -
  let ?ks = "task_keys (tasks ! i)"
  let ?rows = "wanted ?ks rows"
  note wanted = good_wanted [OF rows]
  have given: "\<forall>(k, v, ttl)\<in>set ?rows. (m |` set ?ks) k = Some v" using wanted(3) by (auto simp: restrict_map_def)
  obtain j where j: "jl_parse lib (pack (map entry_of_row ?rows)) = Some j"
    "Option.bind (jl_elements lib j ''entries'') (read_entries lib) = Some ?rows"
    by (rule reads_back_rows [OF reads given wanted(4)])
  have "card (dom f \<union> fst ` set ?rows) \<le> nc_cache_capacity (cfg ep)"
    using fits room unfolding wanted(1) roomy_def by (meson order_trans)
  from mirrors_bulk_load [OF f _ _ this wanted(4) j, where t = t] room obtain sv' where
    serve: "serve lib alloc t (node_call ''POST'' ''/bulk-load'' (pack (map entry_of_row ?rows))) sv
      = Some (Some (Answer 200 (Loaded_Body (length ?rows))), sv')"
    and m': "mirrors (cfg ep) sv' (put_rows ?rows f)" by (auto simp: roomy_def)
  have "put_rows ?rows f k = (if k \<in> set ?ks then m k else f k)" for k
    using put_rows_from [of ?rows m f k] wanted(1,3) by fastforce
  then have "put_rows ?rows f = (\<lambda>k. if k \<in> set ?ks then m k else f k)" by (rule ext)
  moreover have "migration_step lib alloc pack fb1 fb2 eps tasks (Give i t) mg
      = Some (mg\<lparr>mg_net := (mg_net mg)(ep \<mapsto> sv'), mg_load := (mg_load mg)(i \<mapsto> Response 200 (Some ()))\<rparr>)"
    using snap load sv serve by (simp add: ep task_post_good [OF rows] call_node_def)
  ultimately show ?thesis using m' by auto
qed

lemma give_ok:
  assumes ok: "in_progress_ok alloc cfg room old new m eps tasks mg" and reads: "reads_back lib pack (m |` moving tasks)"
    and room: "finite (dom m)" "card (dom m) \<le> room"
    and i: "mg_snap mg i = Some ans" "mg_load mg i = None"
  shows "\<exists>mg'. migration_step lib alloc pack fb1 fb2 eps tasks (Give i t) mg = Some mg'
    \<and> in_progress_ok alloc cfg room old new m eps tasks mg'"
proof -
  let ?ep = "task_target eps (tasks ! i)" and ?ks = "task_keys (tasks ! i)"
  have tasks: "tasks_ok old new m eps (mg_net mg) tasks" using ok by (simp add: in_progress_ok_def)
  from ok i(1) obtain rows where rows: "i < length tasks" "ans = Response 200 (Some (Some (map entry_of_row rows)))"
    "good_rows m ?ks rows" unfolding in_progress_ok_def by blast
  obtain sv where sv: "mg_net mg ?ep = Some sv" using tasks_ok_nth(3) [OF tasks rows(1)] by blast
  with ok obtain f where f: "mirrors (cfg ?ep) sv f" "partly_moved old new (moving tasks) m ?ep f" "has_received m eps tasks mg ?ep f"
    "roomy alloc room (cfg ?ep)" by (rule progress_node)
  have "set ?ks \<subseteq> dom m" using tasks_ok_nth(4) [OF tasks rows(1)] by blast
  then have "dom f \<union> set ?ks \<subseteq> dom m" using partly_moved_dom [OF f(2)] by simp
  then have fits: "card (dom f \<union> set ?ks) \<le> room" using card_mono [OF room(1)] room(2) by (meson order_trans)
  have part: "reads_back lib pack (m |` set ?ks)"
    by (rule reads_back_mono [OF reads]) (auto simp: restrict_map_def moving_task [OF rows(1)] split: if_splits)
  from give_node [where cfg = cfg and ep = ?ep, OF _ i(2) rows(3) part refl sv f(1,4) fits] i(1) rows(2) obtain sv' where
    step: "migration_step lib alloc pack fb1 fb2 eps tasks (Give i t) mg
      = Some (mg\<lparr>mg_net := (mg_net mg)(?ep \<mapsto> sv'), mg_load := (mg_load mg)(i \<mapsto> Response 200 (Some ()))\<rparr>)"
    and m': "mirrors (cfg ?ep) sv' (\<lambda>k. if k \<in> set ?ks then m k else f k)" by blast
  let ?f' = "\<lambda>k. if k \<in> set ?ks then m k else f k"
  let ?mg = "mg\<lparr>mg_net := (mg_net mg)(?ep \<mapsto> sv'), mg_load := (mg_load mg)(i \<mapsto> Response 200 (Some ()))\<rparr>"
  have "in_progress_ok alloc cfg room old new m eps tasks ?mg"
  proof -
    have "partly_moved old new (moving tasks) m ?ep ?f'"
      by (rule partly_moved_add [OF f(2) _ refl]) (use tasks_ok_nth(4) [OF tasks rows(1)] in blast)
    moreover have "has_received m eps tasks ?mg ?ep ?f'"
      using f(3) by (auto simp: has_received_def)
    moreover have "has_received m eps tasks mg ep g \<Longrightarrow> ep \<noteq> ?ep \<Longrightarrow> has_received m eps tasks ?mg ep g" for ep g
      by (auto simp: has_received_def)
    ultimately show ?thesis using ok i(1) m' f(4) tasks_ok_net [OF tasks] unfolding in_progress_ok_def by (auto; blast)
  qed
  with step show ?thesis by blast
qed

lemma migration_run_ok:
  assumes "in_progress_ok alloc cfg room old new m eps tasks mg" and "reads_back lib pack (m |` moving tasks)"
    and "finite (dom m)" and "card (dom m) \<le> room"
  shows "\<exists>mg'. migration_run lib alloc pack fb1 fb2 eps tasks es mg = Some mg'
    \<and> in_progress_ok alloc cfg room old new m eps tasks mg'"
  using assms(1)
proof (induction es arbitrary: mg)
  case (Cons e es)
  have "\<exists>mg'. migration_step lib alloc pack fb1 fb2 eps tasks e mg = Some mg'
    \<and> in_progress_ok alloc cfg room old new m eps tasks mg'"
  proof (cases e)
    case (Take i t)
    with take_ok [OF Cons.prems, of i] Cons.prems show ?thesis by (cases "i < length tasks \<and> mg_snap mg i = None") auto
  next
    case (Give i t)
    with give_ok [OF Cons.prems assms(2-4), of i] Cons.prems show ?thesis
      by (cases "mg_snap mg i"; cases "mg_load mg i") auto
  qed
  with Cons.IH show ?case by auto
qed simp

section \<open>Every task comes to its end\<close>

lemma migration_step_mono:
  assumes "migration_step lib alloc pack fb1 fb2 eps tasks e mg = Some mg'"
  shows "(mg_snap mg i \<noteq> None \<longrightarrow> mg_snap mg' i \<noteq> None) \<and> (mg_load mg i \<noteq> None \<longrightarrow> mg_load mg' i \<noteq> None)"
  using assms by (cases e) (auto split: if_splits option.splits prod.splits)

lemma migration_run_mono:
  "migration_run lib alloc pack fb1 fb2 eps tasks es mg = Some mg' \<Longrightarrow>
   (mg_snap mg i \<noteq> None \<longrightarrow> mg_snap mg' i \<noteq> None) \<and> (mg_load mg i \<noteq> None \<longrightarrow> mg_load mg' i \<noteq> None)"
proof (induction es arbitrary: mg)
  case (Cons e es)
  from Cons.prems obtain mg1 where "migration_step lib alloc pack fb1 fb2 eps tasks e mg = Some mg1"
    "migration_run lib alloc pack fb1 fb2 eps tasks es mg1 = Some mg'" by (auto simp: bind_eq_Some_conv)
  with Cons.IH [of mg1] migration_step_mono [of lib alloc pack fb1 fb2 eps tasks e mg mg1 i] show ?case by blast
qed simp

lemma call_node_net: "call_node lib alloc read fb t q ep net = Some (r, net') \<Longrightarrow> net' ep' = None \<longleftrightarrow> net ep' = None"
  by (auto simp: call_node_def split: option.splits prod.splits if_splits)

lemma migration_step_net:
  assumes "migration_step lib alloc pack fb1 fb2 eps tasks e mg = Some mg'"
  shows "mg_net mg' ep = None \<longleftrightarrow> mg_net mg ep = None"
  using assms by (cases e) (auto split: if_splits option.splits prod.splits dest: call_node_net)

lemma migration_run_net:
  "migration_run lib alloc pack fb1 fb2 eps tasks es mg = Some mg' \<Longrightarrow> mg_net mg' ep = None \<longleftrightarrow> mg_net mg ep = None"
  by (induction es arbitrary: mg) (auto simp: bind_eq_Some_conv dest: migration_step_net)

lemma migration_run_append:
  "migration_run lib alloc pack fb1 fb2 eps tasks (xs @ ys) mg = Some mg' \<longleftrightarrow>
   (\<exists>mg1. migration_run lib alloc pack fb1 fb2 eps tasks xs mg = Some mg1
     \<and> migration_run lib alloc pack fb1 fb2 eps tasks ys mg1 = Some mg')"
  by (induction xs arbitrary: mg) (auto simp: bind_eq_Some_conv)

lemma take_step_taken:
  "migration_step lib alloc pack fb1 fb2 eps tasks (Take i t) mg = Some mg' \<Longrightarrow> i < length tasks \<Longrightarrow> mg_snap mg' i \<noteq> None"
  by (auto split: if_splits option.splits prod.splits)

lemma give_step_given:
  "migration_step lib alloc pack fb1 fb2 eps tasks (Give i t) mg = Some mg' \<Longrightarrow> mg_snap mg i \<noteq> None \<Longrightarrow> mg_load mg' i \<noteq> None"
  by (auto split: if_splits option.splits prod.splits)

lemma complete_all_over:
  assumes "migration_run lib alloc pack fb1 fb2 eps tasks es mg = Some mg'" and "complete_schedule (length tasks) es"
  shows "all_over tasks mg'"
  unfolding all_over_def
proof (intro allI impI)
  fix i assume i: "i < length tasks"
  with assms(2) obtain xs t ys t' zs where es: "es = (xs @ [Take i t]) @ ys @ [Give i t'] @ zs"
    unfolding complete_schedule_def by fastforce
  from assms(1) obtain mg1 mg2 mg3 mg4 where
    run: "migration_step lib alloc pack fb1 fb2 eps tasks (Take i t) mg1 = Some mg2"
    "migration_run lib alloc pack fb1 fb2 eps tasks ys mg2 = Some mg3"
    "migration_step lib alloc pack fb1 fb2 eps tasks (Give i t') mg3 = Some mg4"
    "migration_run lib alloc pack fb1 fb2 eps tasks zs mg4 = Some mg'"
    unfolding es migration_run_append by (auto simp: bind_eq_Some_conv)
  have "mg_snap mg2 i \<noteq> None" by (rule take_step_taken [OF run(1) i])
  then have "mg_snap mg3 i \<noteq> None" using migration_run_mono [OF run(2)] by blast
  then have "mg_load mg4 i \<noteq> None" by (rule give_step_given [OF run(3)])
  then show "mg_load mg' i \<noteq> None" using migration_run_mono [OF run(4)] by blast
qed

section \<open>The plan over the network\<close>

text \<open>The setting of a rebalance: two clusters whose nodes are reachable at the endpoints, a network that
  holds a map as the first routes it, and room for the whole map at every node.\<close>

definition rebalance_setting ::
  "'j json_lib \<Rightarrow> allocator \<Rightarrow> (snapshot_entry list \<Rightarrow> string) \<Rightarrow> (endpoint \<Rightarrow> node_config) \<Rightarrow> nat \<Rightarrow> cluster_manager
    \<Rightarrow> cluster_manager \<Rightarrow> hash_ring \<Rightarrow> hash_ring \<Rightarrow> (string \<times> endpoint) list \<Rightarrow> network \<Rightarrow> (string \<rightharpoonup> string) \<Rightarrow> bool" where
  "rebalance_setting lib alloc pack cfg room cm cm' R R' eps net m \<longleftrightarrow>
     ring_ok cm \<and> ring_ok cm' \<and> cm_ring cm = Some R \<and> cm_ring cm' = Some R'
     \<and> (\<forall>n ep. member_address cm n = Some ep \<or> member_address cm' n = Some ep \<longrightarrow> map_of eps n = Some ep)
     \<and> holds_parts cm cfg net m \<and> (\<forall>key ep. owner_address cm' key = Some ep \<longrightarrow> net ep \<noteq> None)
     \<and> (\<forall>ep. net ep \<noteq> None \<longrightarrow> roomy alloc room (cfg ep)) \<and> card (dom m) \<le> room \<and> reads_back lib pack m"

abbreviation enumerates :: "(string set \<Rightarrow> string list) \<Rightarrow> bool" where
  "enumerates enum \<equiv> \<forall>S. finite S \<longrightarrow> set (enum S) = S"

lemma ring_wf_cluster: "ring_ok cm \<Longrightarrow> cm_ring cm = Some R \<Longrightarrow> ring_wf R"
  by (elim ring_ok_ring) (auto intro: ring_wf_HashRing)

lemma owner_endpoint:
  assumes "ring_ok cm" and "cm_ring cm = Some R" and "\<And>n ep. member_address cm n = Some ep \<Longrightarrow> map_of eps n = Some ep"
  shows "\<exists>n ep. ring_owner R key = Some n \<and> map_of eps n = Some ep \<and> owner_address cm key = Some ep
    \<and> endpoint_of eps (ring_owner R key) d = ep"
proof -
  from route_owner [OF assms(1), of key] assms(2) obtain n where
    n: "get_node_for_key cm key = Inr (Some n)" "routable cm n" by auto
  then have owner: "ring_owner R key = Some n"
    using assms(2) get_node_owner [OF ring_wf_cluster [OF assms(1,2)]] by (simp add: get_node_for_key_def)
  obtain ep where "member_address cm n = Some ep" using routable_known [OF n(2)] by (auto simp: member_address_def)
  with n(1) assms(3) owner show ?thesis by (auto simp: owner_address_def endpoint_of_def dict_get_def)
qed

lemma setting_owners:
  assumes "rebalance_setting lib alloc pack cfg room cm cm' R R' eps net m"
  shows "owner_address cm k = Some (endpoint_of eps (ring_owner R k) d)"
    and "owner_address cm' k = Some (endpoint_of eps (ring_owner R' k) d)"
    and "\<exists>n ep. map_of eps n = Some ep \<and> owner_address cm k = Some ep"
proof -
  from assms have s: "ring_ok cm" "ring_ok cm'" "cm_ring cm = Some R" "cm_ring cm' = Some R'"
    and eps: "\<And>n ep. member_address cm n = Some ep \<Longrightarrow> map_of eps n = Some ep"
      "\<And>n ep. member_address cm' n = Some ep \<Longrightarrow> map_of eps n = Some ep"
    unfolding rebalance_setting_def by blast+
  show "owner_address cm k = Some (endpoint_of eps (ring_owner R k) d)" using owner_endpoint [OF s(1,3) eps(1)] by blast
  show "owner_address cm' k = Some (endpoint_of eps (ring_owner R' k) d)" using owner_endpoint [OF s(2,4) eps(2)] by blast
  show "\<exists>n ep. map_of eps n = Some ep \<and> owner_address cm k = Some ep" using owner_endpoint [OF s(1,3) eps(1)] by blast
qed

lemma listed_keys:
  assumes "rebalance_setting lib alloc pack cfg room cm cm' R R' eps net m"
  shows "get_all_keys (list_keys lib alloc fb t net) eps = dom m"
proof -
  from assms have parts: "holds_parts cm cfg net m" by (simp add: rebalance_setting_def)
  have fetched: "fetch_keys_from_node (list_keys lib alloc fb t net n ep)
      = (if net ep = None then {} else dom (part_at cm ep m))" for n ep
  proof (cases "net ep")
    case (Some sv)
    with parts have "mirrors (cfg ep) sv (part_at cm ep m)" unfolding holds_parts_def by blast
    from mirrors_keys [OF this, of lib alloc t "[]"] obtain ks where
      "serve lib alloc t (node_call ''GET'' ''/keys'' []) sv = Some (Some (Answer 200 (Keys_Body (nc_node_id (cfg ep)) ks)), sv)"
      "set ks = dom (part_at cm ep m)" by blast
    with Some show ?thesis by (simp add: list_keys_def call_node_def fetch_keys_from_node_def)
  qed (simp add: list_keys_def call_node_def fetch_keys_from_node_def)
  have part: "dom (part_at cm ep m) \<subseteq> dom m" for ep by (auto simp: part_at_def split: if_splits)
  have "\<exists>n ep. (n, ep) \<in> set eps \<and> net ep \<noteq> None \<and> k \<in> dom (part_at cm ep m)" if "k \<in> dom m" for k
  proof -
    from setting_owners(3) [OF assms] obtain n ep where n: "map_of eps n = Some ep" and o: "owner_address cm k = Some ep" by blast
    have "(n, ep) \<in> set eps" by (rule map_of_SomeD [OF n])
    moreover have "net ep \<noteq> None" using parts o unfolding holds_parts_def by blast
    moreover have "k \<in> dom (part_at cm ep m)" using that part_owned [OF o] by (simp add: domIff)
    ultimately show ?thesis by blast
  qed
  with part have "k \<in> dom m \<longleftrightarrow> (\<exists>n ep. (n, ep) \<in> set eps \<and> net ep \<noteq> None \<and> k \<in> dom (part_at cm ep m))" for k by blast
  moreover have "k \<in> (\<Union>(n, ep)\<in>set eps. if net ep = None then {} else dom (part_at cm ep m))
      \<longleftrightarrow> (\<exists>n ep. (n, ep) \<in> set eps \<and> net ep \<noteq> None \<and> k \<in> dom (part_at cm ep m))" for k
    by (force split: if_splits)
  ultimately show ?thesis unfolding get_all_keys_union fetched by blast
qed

lemma rebalance_tasks_plan:
  "ring_wf old \<Longrightarrow> ring_wf new \<Longrightarrow>
   rebalance_tasks enum fetch old new eps = plan_tasks old new (enum (get_all_keys fetch eps))"
  by (simp add: rebalance_tasks_def plan_loop_grouping)

lemma plan_tasks_ok:
  assumes s: "rebalance_setting lib alloc pack cfg room cm cm' R R' eps net m" and keys: "set keys = dom m"
  shows "tasks_ok (owner_address cm) (owner_address cm') m eps net (plan_tasks R R' keys)"
  unfolding tasks_ok_def
proof
  fix task assume "task \<in> set (plan_tasks R R' keys)"
  moreover obtain a b ks where task: "task = (a, b, ks)" by (rule prod_cases3)
  ultimately have plan: "ks \<noteq> []" "ks = filter (\<lambda>k. ring_owner R k = a \<and> ring_owner R' k = b) keys"
    using in_plan_tasks by blast+
  have k: "m k \<noteq> None \<and> owner_address cm k = Some (task_source eps task) \<and> owner_address cm' k = Some (task_target eps task)"
    if "k \<in> set ks" for k
  proof -
    from that plan(2) keys have "m k \<noteq> None" "ring_owner R k = a" "ring_owner R' k = b" by auto
    with setting_owners(1,2) [OF s, of k] show ?thesis by (simp add: task)
  qed
  moreover obtain k0 where "k0 \<in> set ks" using plan(1) by (cases ks) auto
  moreover from this k [of k0] s have "net (task_source eps task) \<noteq> None" and "net (task_target eps task) \<noteq> None"
    unfolding rebalance_setting_def holds_parts_def by blast+
  ultimately show "task_keys task \<noteq> [] \<and> net (task_source eps task) \<noteq> None \<and> net (task_target eps task) \<noteq> None
    \<and> (\<forall>k\<in>set (task_keys task). m k \<noteq> None \<and> owner_address cm k = Some (task_source eps task)
      \<and> owner_address cm' k = Some (task_target eps task))"
    using plan(1) by (simp add: task)
qed

section \<open>The whole rebalance\<close>

lemma moved_in_plan:
  assumes "k \<in> set keys" and "ring_owner R k \<noteq> ring_owner R' k"
  shows "\<exists>ts. (ring_owner R k, ring_owner R' k, ts) \<in> set (plan_tasks R R' keys) \<and> k \<in> set ts"
proof -
  let ?ts = "filter (\<lambda>k'. ring_owner R k' = ring_owner R k \<and> ring_owner R' k' = ring_owner R' k) keys"
  have k: "k \<in> set ?ts" using assms(1) by simp
  then have "?ts \<noteq> []" by (rule list_not_empty)
  then have "(ring_owner R k, ring_owner R' k, ?ts) \<in> set (plan_tasks R R' keys)"
    by (intro in_plan_tasks [THEN iffD2] conjI assms(2) refl)
  with k show ?thesis by blast
qed

lemma planned_keys:
  assumes "(a, b, ts) \<in> set (plan_tasks R R' keys)" and "k \<in> set ts"
  shows "k \<in> set keys \<and> ring_owner R k = a \<and> ring_owner R' k = b \<and> a \<noteq> b"
proof -
  from assms(1) have "a \<noteq> b" and ts: "ts = filter (\<lambda>k. ring_owner R k = a \<and> ring_owner R' k = b) keys"
    unfolding in_plan_tasks by blast+
  with assms(2) show ?thesis unfolding ts by simp
qed

text \<open>The keys that move are those of the map that change owner.\<close>

lemma moving_plan:
  assumes "set keys = dom m"
  shows "moving (plan_tasks R R' keys) = {k \<in> dom m. ring_owner R k \<noteq> ring_owner R' k}"
proof (rule set_eqI)
  fix k
  have "k \<in> moving (plan_tasks R R' keys) \<longleftrightarrow> (\<exists>a b ts. (a, b, ts) \<in> set (plan_tasks R R' keys) \<and> k \<in> set ts)"
    unfolding moving_def UN_iff Bex_def split_paired_Ex task_keys.simps by (rule refl)
  also have "\<dots> \<longleftrightarrow> k \<in> set keys \<and> ring_owner R k \<noteq> ring_owner R' k"
  proof
    assume "\<exists>a b ts. (a, b, ts) \<in> set (plan_tasks R R' keys) \<and> k \<in> set ts"
    then obtain a b ts where "(a, b, ts) \<in> set (plan_tasks R R' keys)" "k \<in> set ts" by blast
    from planned_keys [OF this] show "k \<in> set keys \<and> ring_owner R k \<noteq> ring_owner R' k" by blast
  qed (use moved_in_plan in blast)
  finally show "k \<in> moving (plan_tasks R R' keys) \<longleftrightarrow> k \<in> {k \<in> dom m. ring_owner R k \<noteq> ring_owner R' k}"
    by (simp add: assms)
qed

lemma unmoved_owner:
  assumes "rebalance_setting lib alloc pack cfg room cm cm' R R' eps net m" and "set keys = dom m"
    and "k \<notin> moving (plan_tasks R R' keys)"
  shows "m k = None \<or> owner_address cm k = owner_address cm' k"
  using assms(3) setting_owners(1,2) [OF assms(1), of k] unfolding moving_plan [OF assms(2)] by auto

lemma progress_start:
  assumes s: "rebalance_setting lib alloc pack cfg room cm cm' R R' eps net m" and keys: "set keys = dom m"
  shows "in_progress_ok alloc cfg room (owner_address cm) (owner_address cm') m eps (plan_tasks R R' keys) (migration_start net)"
proof -
  have "roomy alloc room (cfg ep) \<and> mirrors (cfg ep) sv (part_at cm ep m)" if "net ep = Some sv" for ep sv
    using s that unfolding rebalance_setting_def holds_parts_def by blast
  moreover have "partly_moved (owner_address cm) (owner_address cm') (moving (plan_tasks R R' keys)) m ep (part_at cm ep m)" for ep
    by (auto simp: partly_moved_def part_at_def dest!: unmoved_owner [OF s keys])
  moreover have "has_received m eps tasks (migration_start net) ep f" for tasks ep f by (simp add: has_received_def)
  ultimately show ?thesis using plan_tasks_ok [OF s keys] unfolding in_progress_ok_def by simp blast
qed

text \<open>The map a node ends with: its part before and its part after.\<close>

definition both_parts :: "cluster_manager \<Rightarrow> cluster_manager \<Rightarrow> endpoint \<Rightarrow> (string \<rightharpoonup> string) \<Rightarrow> string \<rightharpoonup> string" where
  "both_parts cm cm' ep m k = (if owner_address cm k = Some ep \<or> owner_address cm' k = Some ep then m k else None)"

text \<open>What a node ends with when clients may have written keys that do not move: its part by the new
  ring, and its copies of keys that moved away.\<close>

definition parts_kept ::
  "cluster_manager \<Rightarrow> cluster_manager \<Rightarrow> string set \<Rightarrow> endpoint \<Rightarrow> (string \<rightharpoonup> string) \<Rightarrow> string \<rightharpoonup> string" where
  "parts_kept cm cm' K ep m k = (if owner_address cm' k = Some ep \<or> k \<in> K \<and> owner_address cm k = Some ep then m k else None)"

lemma progress_over:
  assumes ok: "in_progress_ok alloc cfg room (owner_address cm) (owner_address cm') m eps tasks mg"
    and over: "all_over tasks mg" and sv: "mg_net mg ep = Some sv"
  shows "mirrors (cfg ep) sv (parts_kept cm cm' (moving tasks) ep m)"
proof -
  from ok sv obtain f where f: "mirrors (cfg ep) sv f" "partly_moved (owner_address cm) (owner_address cm') (moving tasks) m ep f"
    "has_received m eps tasks mg ep f" by (rule progress_node)
  from ok have tasks: "tasks_ok (owner_address cm) (owner_address cm') m eps (mg_net mg) tasks" by (simp add: in_progress_ok_def)
  have "f k = parts_kept cm cm' (moving tasks) ep m k" for k
  proof (cases "k \<in> moving tasks \<and> owner_address cm' k = Some ep")
    case True
    then obtain task where "task \<in> set tasks" "k \<in> set (task_keys task)" unfolding moving_def by blast
    then obtain i where i: "i < length tasks" "k \<in> set (task_keys (tasks ! i))" by (metis in_set_conv_nth)
    with tasks_ok_nth(4) [OF tasks i] True have "task_target eps (tasks ! i) = ep" by simp
    with f(3) over i have "f k = m k" unfolding has_received_def all_over_def by blast
    with True show ?thesis by (simp add: parts_kept_def)
  next
    case False
    with spec [OF f(2) [unfolded partly_moved_def], of k] show ?thesis
      by (cases "f k") (auto simp: parts_kept_def split: if_splits)
  qed
  then have "f = parts_kept cm cm' (moving tasks) ep m" by (rule ext)
  with f(1) show ?thesis by simp
qed

lemma parts_both:
  assumes "rebalance_setting lib alloc pack cfg room cm cm' R R' eps net m" and "set keys = dom m"
  shows "parts_kept cm cm' (moving (plan_tasks R R' keys)) ep m = both_parts cm cm' ep m"
proof
  fix k
  show "parts_kept cm cm' (moving (plan_tasks R R' keys)) ep m k = both_parts cm cm' ep m k"
    using unmoved_owner [OF assms, of k] by (auto simp: parts_kept_def both_parts_def)
qed

lemma run_tasks_nth:
  "run_tasks snap load eps tasks = map (\<lambda>i. migrate_keys (snap i) (load i) eps (tasks ! i)) [0..<length tasks]"
  by (intro nth_equalityI) (simp_all add: run_tasks_def nth_enumerate_eq)

lemma sum_list_int: "(\<Sum>x\<leftarrow>xs. int (f x)) = int (\<Sum>x\<leftarrow>xs. f x)"
  by (induction xs) simp_all

lemma moved_count:
  assumes "set keys = dom m" and "finite (dom m)"
  shows "(\<Sum>task\<leftarrow>plan_tasks R R' keys. card (set (task_keys task))) = card {k \<in> dom m. ring_owner R k \<noteq> ring_owner R' k}"
proof -
  let ?tasks = "plan_tasks R R' keys"
  have "distinct ?tasks" by (rule distinct_map [THEN iffD1, OF distinct_plan_tasks, THEN conjunct1])
  then have "(\<Sum>task\<leftarrow>?tasks. card (set (task_keys task))) = (\<Sum>task\<in>set ?tasks. card (set (task_keys task)))"
    by (simp add: sum_list_distinct_conv_sum_set)
  also have "\<dots> = card (\<Union>task\<in>set ?tasks. set (task_keys task))"
  proof (rule card_UN_disjoint [symmetric])
    show "\<forall>x\<in>set ?tasks. \<forall>y\<in>set ?tasks. x \<noteq> y \<longrightarrow> set (task_keys x) \<inter> set (task_keys y) = {}"
    proof (intro ballI impI)
      fix x y assume x: "x \<in> set ?tasks" and y: "y \<in> set ?tasks" and ne: "x \<noteq> y"
      obtain a b ts where xt: "x = (a, b, ts)" by (rule prod_cases3)
      obtain a' b' ts' where yt: "y = (a', b', ts')" by (rule prod_cases3)
      from x y ne have "a \<noteq> a' \<or> b \<noteq> b'" unfolding xt yt in_plan_tasks by blast
      then show "set (task_keys x) \<inter> set (task_keys y) = {}"
        using planned_keys [OF x [unfolded xt]] planned_keys [OF y [unfolded yt]] unfolding xt yt task_keys.simps by blast
    qed
  qed simp_all
  also have "(\<Union>task\<in>set ?tasks. set (task_keys task)) = {k \<in> dom m. ring_owner R k \<noteq> ring_owner R' k}"
    by (rule moving_plan [OF assms(1), unfolded moving_def])
  finally show ?thesis .
qed

lemma results_over:
  assumes ok: "in_progress_ok alloc cfg room old new m eps tasks mg" and over: "all_over tasks mg"
  shows "map fst (run_tasks (\<lambda>i ep. the (mg_snap mg i)) (\<lambda>i ep es. the (mg_load mg i)) eps tasks)
    = map (\<lambda>task. int (card (set (task_keys task)))) tasks"
proof (rule nth_equalityI)
  fix i assume "i < length (map fst (run_tasks (\<lambda>i ep. the (mg_snap mg i)) (\<lambda>i ep es. the (mg_load mg i)) eps tasks))"
  then have i: "i < length tasks" by (simp add: run_tasks_nth)
  with over obtain r where r: "mg_load mg i = Some r" unfolding all_over_def by blast
  with ok have "mg_snap mg i \<noteq> None" and r': "r = Response 200 (Some ())" unfolding in_progress_ok_def by blast+
  with ok obtain rows where "mg_snap mg i = Some (Response 200 (Some (Some (map entry_of_row rows))))"
    "good_rows m (task_keys (tasks ! i)) rows" unfolding in_progress_ok_def by blast
  with migrate_good [of m "tasks ! i" rows "\<lambda>ep. the (mg_snap mg i)" eps "\<lambda>ep es. the (mg_load mg i)"] r r' i
  show "map fst (run_tasks (\<lambda>i ep. the (mg_snap mg i)) (\<lambda>i ep es. the (mg_load mg i)) eps tasks) ! i
    = map (\<lambda>task. int (card (set (task_keys task)))) tasks ! i" by (simp add: run_tasks_nth)
qed (simp add: run_tasks_nth)

lemma rebalance_nodes_over:
  assumes s: "rebalance_setting lib alloc pack cfg room cm cm' R R' eps net m" and enum: "enumerates enum"
    and r: "\<not> in_progress r"
    and schedule: "complete_schedule (length (rebalance_tasks enum (list_keys lib alloc fb0 t net) R R' eps)) es"
  shows "\<exists>aff r' posts net'. rebalance_nodes lib alloc pack fb0 fb1 fb2 t enum R R' eps es net r
      = Some ((Inr (Completed (int (card {k \<in> dom m. get_node R k \<noteq> get_node R' k})) aff), r', posts), net')
    \<and> (\<forall>ep. net' ep = None \<longleftrightarrow> net ep = None)
    \<and> (\<forall>ep sv. net' ep = Some sv \<longrightarrow> mirrors (cfg ep) sv (both_parts cm cm' ep m))"
proof -
  let ?fetch = "list_keys lib alloc fb0 t net"
  let ?keys = "enum (get_all_keys ?fetch eps)"
  let ?tasks = "plan_tasks R R' ?keys"
  from s have wf: "ring_wf R" "ring_wf R'" and fin: "finite (dom m)" and room: "card (dom m) \<le> room"
    and reads: "reads_back lib pack m"
    using ring_wf_cluster unfolding rebalance_setting_def holds_parts_def by blast+
  have keys: "set ?keys = dom m" using enum fin unfolding listed_keys [OF s] by blast
  have tasks: "rebalance_tasks enum ?fetch R R' eps = ?tasks" by (rule rebalance_tasks_plan [OF wf])
  from migration_run_ok [OF progress_start [OF s keys] reads_back_restrict [OF reads] fin room] obtain mg where
    run: "migration_run lib alloc pack fb1 fb2 eps ?tasks es (migration_start net) = Some mg"
    and ok: "in_progress_ok alloc cfg room (owner_address cm) (owner_address cm') m eps ?tasks mg" by blast
  have over: "all_over ?tasks mg" using complete_all_over [OF run] schedule unfolding tasks by blast
  have "rebalance_nodes lib alloc pack fb0 fb1 fb2 t enum R R' eps es net r
    = Some (rebalance enum ?fetch (\<lambda>i ep. the (mg_snap mg i)) (\<lambda>i ep es. the (mg_load mg i)) R R' eps r, mg_net mg)"
    by (simp add: rebalance_nodes_def tasks run)
  moreover have "(\<Sum>task\<leftarrow>?tasks. int (card (set (task_keys task)))) = int (card {k \<in> dom m. get_node R k \<noteq> get_node R' k})"
    using moved_count [OF keys fin, where R = R and R' = R']
    by (simp add: sum_list_int get_node_owner [OF wf(1)] get_node_owner [OF wf(2)])
  moreover have "\<forall>ep sv. mg_net mg ep = Some sv \<longrightarrow> mirrors (cfg ep) sv (both_parts cm cm' ep m)"
    using progress_over [OF ok over] unfolding parts_both [OF s keys] by blast
  moreover have "\<forall>ep. mg_net mg ep = None \<longleftrightarrow> net ep = None" using migration_run_net [OF run] by simp
  ultimately show ?thesis
    by (simp add: rebalance_run [OF wf r] Let_def results_over [OF ok over])
qed

section \<open>Properties\<close>

text \<open>C4 A rebalance moves the map. Over a network that holds a map as the old ring routes it, with room
  for it, every interleaving of the calls of the tasks in which each task makes its two calls ends
  the rebalance: it reports exactly the keys of the map that changed owner, every node then holds
  the part the old ring gave it and the part the new ring gives it, with no key lost, and a client of a
  gateway that routes by the new ring reads the map.\<close>

theorem rebalance_moves_the_map:
  assumes "rebalance_setting lib alloc pack cfg room cm cm' R R' eps net m" and "enumerates enum" and "\<not> in_progress r"
    and "complete_schedule (length (rebalance_tasks enum (list_keys lib alloc fb0 t net) R R' eps)) es"
  shows "\<exists>aff r' posts net'. rebalance_nodes lib alloc pack fb0 fb1 fb2 t enum R R' eps es net r
      = Some ((Inr (Completed (int (card {k \<in> dom m. get_node R k \<noteq> get_node R' k})) aff), r', posts), net')
    \<and> (\<forall>ep sv. net' ep = Some sv \<longrightarrow> mirrors (cfg ep) sv (both_parts cm cm' ep m))
    \<and> (\<forall>g key. gateway_up cm' g \<and> url_plain key \<longrightarrow>
        (\<exists>g2 net2. client_get lib alloc dumps fallback t' clock finish key zone g net' = Some (case m key of
            Some v \<Rightarrow> Answered \<lparr>gr_key = key, gr_value = v, gr_node_id = nc_node_id (home cm' cfg key),
              gr_zone = nc_zone (home cm' cfg key)\<rparr>
          | None \<Rightarrow> key_not_found, g2, net2)))"
proof -
  from rebalance_nodes_over [OF assms] obtain aff r' posts net' where
    run: "rebalance_nodes lib alloc pack fb0 fb1 fb2 t enum R R' eps es net r
      = Some ((Inr (Completed (int (card {k \<in> dom m. get_node R k \<noteq> get_node R' k})) aff), r', posts), net')"
    and same: "\<forall>ep. net' ep = None \<longleftrightarrow> net ep = None"
    and nodes: "\<forall>ep sv. net' ep = Some sv \<longrightarrow> mirrors (cfg ep) sv (both_parts cm cm' ep m)" by blast
  have "\<exists>g2 net2. client_get lib alloc dumps fallback t' clock finish key zone g net' = Some (case m key of
            Some v \<Rightarrow> Answered \<lparr>gr_key = key, gr_value = v, gr_node_id = nc_node_id (home cm' cfg key),
              gr_zone = nc_zone (home cm' cfg key)\<rparr>
          | None \<Rightarrow> key_not_found, g2, net2)" if g: "gateway_up cm' g" and key: "url_plain key" for g key
  proof -
    obtain ep where ep: "owner_address cm' key = Some ep" using setting_owners(2) [OF assms(1)] by blast
    then obtain sv where sv: "net' ep = Some sv" using assms(1) same unfolding rebalance_setting_def by blast
    with nodes have m: "mirrors (cfg ep) sv (both_parts cm cm' ep m)" by blast
    have "both_parts cm cm' ep m key = m key" using ep by (simp add: both_parts_def)
    with client_get_at [where net = net', OF g ep sv m key, of lib alloc dumps fallback t' clock finish zone] ep
    show ?thesis by (cases "m key") auto
  qed
  with run nodes show ?thesis by blast
qed

text \<open>C25 A deleted key comes back. The old owner keeps its copy of a key that was moved away, so once a
  client deleted the key at the new owner, a gateway that routes by the old ring again, as after the
  new node has left, answers a read with the value that was deleted.\<close>

theorem deleted_key_comes_back:
  assumes "rebalance_setting lib alloc pack cfg room cm cm' R R' eps net m" and "enumerates enum" and "\<not> in_progress r"
    and "complete_schedule (length (rebalance_tasks enum (list_keys lib alloc fb0 t net) R R' eps)) es"
    and "rebalance_nodes lib alloc pack fb0 fb1 fb2 t enum R R' eps es net r = Some (res, net')"
    and "m key = Some v" and "owner_address cm key \<noteq> owner_address cm' key" and "url_plain key"
    and "gateway_up cm' g" and "gateway_up cm h"
  shows "\<exists>g1 net1 h1 net2. client_delete lib alloc dumps fallback t1 start finish key g net'
      = Some (Answered \<lparr>dr_status = ''deleted'', dr_key = key\<rparr>, g1, net1)
    \<and> client_get lib alloc dumps fallback t2 clock finish' key zone h net1
      = Some (Answered \<lparr>gr_key = key, gr_value = v, gr_node_id = nc_node_id (home cm cfg key),
          gr_zone = nc_zone (home cm cfg key)\<rparr>, h1, net2)"
proof -
  from rebalance_nodes_over [OF assms(1-4), of fb1 fb2] assms(5) have
    same: "\<forall>ep. net' ep = None \<longleftrightarrow> net ep = None"
    and nodes: "\<forall>ep sv. net' ep = Some sv \<longrightarrow> mirrors (cfg ep) sv (both_parts cm cm' ep m)" by auto
  obtain ep ep' where ep: "owner_address cm key = Some ep" and ep': "owner_address cm' key = Some ep'"
    using setting_owners(1,2) [OF assms(1)] by blast
  with assms(7) have ne: "ep \<noteq> ep'" by simp
  have "net ep \<noteq> None" and "net ep' \<noteq> None"
    using assms(1) ep ep' unfolding rebalance_setting_def holds_parts_def by blast+
  then have "net' ep \<noteq> None \<and> net' ep' \<noteq> None" using spec [OF same, of ep] spec [OF same, of ep'] by simp
  then obtain sv sv' where sv: "net' ep = Some sv" and sv': "net' ep' = Some sv'" by blast
  with nodes have m: "mirrors (cfg ep) sv (both_parts cm cm' ep m)" and m': "mirrors (cfg ep') sv' (both_parts cm cm' ep' m)"
    by blast+
  have v: "both_parts cm cm' ep m key = Some v" "both_parts cm cm' ep' m key = Some v"
    using ep ep' assms(6) by (simp_all add: both_parts_def)
  from client_delete_at [where net = net', OF assms(9) ep' sv' m' assms(8), of lib alloc dumps fallback t1 start finish] v(2)
  obtain g1 sv1 where del: "client_delete lib alloc dumps fallback t1 start finish key g net'
      = Some (Answered \<lparr>dr_status = ''deleted'', dr_key = key\<rparr>, g1, net'(ep' \<mapsto> sv1))" by auto
  have "(net'(ep' \<mapsto> sv1)) ep = Some sv" using sv ne by simp
  from client_get_at [where net = "net'(ep' \<mapsto> sv1)", OF assms(10) ep this m assms(8),
      of lib alloc dumps fallback t2 clock finish' zone] v(1) ep
  obtain h1 net2 where "client_get lib alloc dumps fallback t2 clock finish' key zone h (net'(ep' \<mapsto> sv1))
      = Some (Answered \<lparr>gr_key = key, gr_value = v, gr_node_id = nc_node_id (home cm cfg key),
          gr_zone = nc_zone (home cm cfg key)\<rparr>, h1, net2)" by auto
  with del show ?thesis by blast
qed

section \<open>Witnesses\<close>

text \<open>The cluster of node a is replaced by the cluster of node b, at another address.\<close>

definition demo_before :: cluster_manager where
  "demo_before = cluster_run 15 3 [demo_join ''a'']"

definition demo_moved :: cluster_manager where
  "demo_moved = cluster_run 15 3 [Register 0 ''t'' ''b'' ''other'' 8002 ''zone'' 100]"

abbreviation demo_nodes :: "(string \<times> endpoint) list" where
  "demo_nodes \<equiv> [(''a'', (''host'', 8001)), (''b'', (''other'', 8002))]"

text \<open>A text with one character for each entry of the map with k.\<close>

definition entry_lib :: "string json_lib" where
  "entry_lib = \<lparr>jl_parse = Some, jl_contains = (\<lambda>j k. k = ''value''),
     jl_string = (\<lambda>j k. Some (if k = ''key'' then ''k'' else ''v'')), jl_value_int = (\<lambda>j k d. Some 0),
     jl_elements = (\<lambda>j k. Some (map (\<lambda>_. '''') j))\<rparr>"

definition entry_pack :: "snapshot_entry list \<Rightarrow> string" where
  "entry_pack es = map (\<lambda>_. CHR ''e'') es"

lemma entry_reads: "reads_back entry_lib entry_pack [''k'' \<mapsto> ''v'']"
proof -
  have "list_all2 (\<lambda>e je. \<forall>k. entry_key e = Some k \<longrightarrow> jl_string entry_lib je ''key'' = Some k
       \<and> jl_string entry_lib je ''value'' = Some (entry_value e) \<and> jl_value_int entry_lib je ''ttl'' 0 = Some (entry_ttl e))
     es (map (\<lambda>_. '''') es)"
    if "\<forall>e\<in>set es. \<exists>k v. [''k'' \<mapsto> ''v''] k = Some v \<and> e = \<lparr>entry_key = Some k, entry_value = v, entry_ttl = 0\<rparr>" for es
    using that by (induction es) (auto simp: entry_lib_def split: if_splits)
  then show ?thesis unfolding reads_back_def by (auto simp: entry_lib_def entry_pack_def comp_def)
qed

lemma demo_schedule: "complete_schedule n (concat (map (\<lambda>i. [Take i t, Give i t]) [0..<n]))"
  unfolding complete_schedule_def
proof (intro allI impI)
  fix i assume "i < n"
  then have "[0..<n] = [0..<i] @ i # [Suc i..<n]" by (metis upt_add_eq_append upt_conv_Cons le0 less_imp_le_nat le_add_diff_inverse)
  then have "concat (map (\<lambda>i. [Take i t, Give i t]) [0..<n])
      = concat (map (\<lambda>i. [Take i t, Give i t]) [0..<i]) @ Take i t # [] @ Give i t # concat (map (\<lambda>i. [Take i t, Give i t]) [Suc i..<n])"
    by simp
  then show "\<exists>xs t1 ys t2 zs. concat (map (\<lambda>i. [Take i t, Give i t]) [0..<n]) = xs @ Take i t1 # ys @ Give i t2 # zs" by blast
qed

lemmas demo_cluster_eval = demo_before_def demo_moved_def cluster_eval

lemma demo_ring_ok: "ring_ok demo_before" "ring_ok demo_moved"
  unfolding demo_before_def demo_moved_def by (rule cluster_run_ring)+

lemma demo_members:
  "node_of demo_before n = (if n = ''a'' then Some (NodeMetadata 0 ''a'' ''host'' 8001 ''zone'') else None)"
  "node_of demo_moved n = (if n = ''b'' then Some (NodeMetadata 0 ''b'' ''other'' 8002 ''zone'') else None)"
  by (simp_all add: demo_cluster_eval)

lemma demo_rings: "cm_ring demo_before = Some (HashRing [''a''] 160)" "cm_ring demo_moved = Some (HashRing [''b''] 160)"
  by (simp_all add: demo_cluster_eval)

lemma demo_owner_address:
  "owner_address demo_before key = Some (''host'', 8001)" "owner_address demo_moved key = Some (''other'', 8002)"
  by (simp_all add: owner_address_def get_node_for_key_def demo_rings ring160.owner_single member_address_def demo_members
      NodeMetadata_def)

abbreviation demo_map :: "string \<rightharpoonup> string" where
  "demo_map \<equiv> [''k'' \<mapsto> ''v'']"

lemma demo_mirrors: "\<exists>sv. mirrors sample_config sv Map.empty" "\<exists>sv. mirrors sample_config sv demo_map"
proof -
  obtain sv where "CacheServer 0 sample_config = Inr sv"
    by (simp add: CacheServer_def LRUCache_def sample_config_def)
  then have sv: "mirrors sample_config sv Map.empty" by (rule mirrors_start)
  then show "\<exists>sv. mirrors sample_config sv Map.empty" by blast
  have "Map.empty ''k'' \<noteq> None \<or> card (dom (Map.empty :: string \<rightharpoonup> string)) < nc_cache_capacity sample_config"
    and "nc_default_ttl_s sample_config = 0" by (simp_all add: sample_config_def)
  from mirrors_put [OF sv url_plain_path [OF demo_key] this(2) sample_allocator this(1), of entry_lib "''x''" "''x''" "''v''"]
  show "\<exists>sv. mirrors sample_config sv demo_map" by (auto simp: entry_lib_def)
qed

lemma demo_parts:
  "part_at demo_before ep m = (if ep = (''host'', 8001) then m else Map.empty)"
  by (simp add: part_at_def demo_owner_address fun_eq_iff)

lemma demo_setting:
  "\<exists>net. rebalance_setting entry_lib (first_fit 2) entry_pack (\<lambda>_. sample_config) 1 demo_before demo_moved
     (HashRing [''a''] 160) (HashRing [''b''] 160) demo_nodes net demo_map"
proof -
  obtain sva svb where sv: "mirrors sample_config sva demo_map" "mirrors sample_config svb Map.empty"
    using demo_mirrors by blast
  let ?net = "[(''host'', 8001) \<mapsto> sva, (''other'', 8002) \<mapsto> svb]"
  have "holds_parts demo_before (\<lambda>_. sample_config) ?net demo_map"
    unfolding holds_parts_def demo_parts demo_owner_address(1) using sv by simp
  moreover have "roomy (first_fit 2) 1 sample_config" using sample_allocator by (simp add: roomy_def sample_config_def)
  moreover have "map_of demo_nodes n = Some ep"
    if "member_address demo_before n = Some ep \<or> member_address demo_moved n = Some ep" for n ep
    using that unfolding member_address_def demo_members by (auto simp: NodeMetadata_def split: if_splits)
  ultimately have "rebalance_setting entry_lib (first_fit 2) entry_pack (\<lambda>_. sample_config) 1 demo_before demo_moved
     (HashRing [''a''] 160) (HashRing [''b''] 160) demo_nodes ?net demo_map"
    unfolding rebalance_setting_def demo_owner_address(2)
    using demo_ring_ok demo_rings entry_reads by simp
  then show ?thesis by blast
qed

abbreviation demo_gateway_at :: "cluster_manager \<Rightarrow> gateway" where
  "demo_gateway_at cm \<equiv> \<lparr>gw_cluster = cm, gw_breaker = CircuitBreaker 5 30, gw_zone = ZoneRouter\<rparr>"

lemma demo_up: "gateway_up demo_before (demo_gateway_at demo_before)" "gateway_up demo_moved (demo_gateway_at demo_moved)"
proof -
  have "0 < replication_factor demo_before" "0 < replication_factor demo_moved" by (simp_all add: demo_cluster_eval)
  then have "cluster_up demo_before" "cluster_up demo_moved"
    unfolding cluster_up_def demo_members demo_rings using demo_ring_ok by (simp_all add: NodeMetadata_def)
  then show "gateway_up demo_before (demo_gateway_at demo_before)" "gateway_up demo_moved (demo_gateway_at demo_moved)"
    by (simp_all add: gateway_up_def routes_as_def closed_on_def breaker_state_of_def CircuitBreaker_def ZoneRouter_def)
qed

lemma enumerates_ex: "\<exists>enum. enumerates enum"
proof -
  have "\<forall>S. \<exists>xs. finite S \<longrightarrow> set xs = (S :: string set)" using finite_list by blast
  then show ?thesis by (rule choice)
qed

lemma demo_moved_keys:
  "{k \<in> dom demo_map. get_node (HashRing [''a''] 160) k \<noteq> get_node (HashRing [''b''] 160) k} = {''k''}"
  by (auto simp: ring160.owner_single)

theorem rebalance_moves_the_map_witness:
  "\<exists>enum es net aff r' posts net' g2 net2. rebalance_nodes entry_lib (first_fit 2) entry_pack (Raised OtherError)
      (Raised OtherError) (Raised OtherError) (at_time 1) enum (HashRing [''a''] 160) (HashRing [''b''] 160) demo_nodes es net
      Rebalancer = Some ((Inr (Completed 1 aff), r', posts), net')
    \<and> client_get entry_lib (first_fit 2) text_body (Raised OtherError) (at_time 2) (\<lambda>_. 2) 2 ''k'' None
        (demo_gateway_at demo_moved) net'
      = Some (Answered \<lparr>gr_key = ''k'', gr_value = ''v'', gr_node_id = ''node-1'', gr_zone = ''z''\<rparr>, g2, net2)"
proof -
  obtain net where net: "rebalance_setting entry_lib (first_fit 2) entry_pack (\<lambda>_. sample_config) 1 demo_before demo_moved
     (HashRing [''a''] 160) (HashRing [''b''] 160) demo_nodes net demo_map" using demo_setting by blast
  obtain enum where enum: "enumerates enum" using enumerates_ex by blast
  have ready: "\<not> in_progress Rebalancer" by (simp add: Rebalancer_def)
  let ?es = "concat (map (\<lambda>i. [Take i (at_time 1), Give i (at_time 1)])
    [0..<length (rebalance_tasks enum (list_keys entry_lib (first_fit 2) (Raised OtherError) (at_time 1) net)
      (HashRing [''a''] 160) (HashRing [''b''] 160) demo_nodes)])"
  from rebalance_moves_the_map [OF net enum ready demo_schedule, of "Raised OtherError" "Raised OtherError" "Raised OtherError"
      "at_time 1" "at_time 1" text_body "Raised OtherError" "at_time 2" "\<lambda>_. 2" 2 None]
  obtain aff r' posts net' where
    run: "rebalance_nodes entry_lib (first_fit 2) entry_pack (Raised OtherError) (Raised OtherError) (Raised OtherError)
      (at_time 1) enum (HashRing [''a''] 160) (HashRing [''b''] 160) demo_nodes ?es net Rebalancer
      = Some ((Inr (Completed (int (card {''k''})) aff), r', posts), net')"
    and client: "\<forall>g key. gateway_up demo_moved g \<and> url_plain key \<longrightarrow>
        (\<exists>g2 net2. client_get entry_lib (first_fit 2) text_body (Raised OtherError) (at_time 2) (\<lambda>_. 2) 2 key None g net'
          = Some (case demo_map key of
            Some v \<Rightarrow> Answered \<lparr>gr_key = key, gr_value = v, gr_node_id = nc_node_id sample_config, gr_zone = nc_zone sample_config\<rparr>
          | None \<Rightarrow> key_not_found, g2, net2))"
    unfolding demo_moved_keys by blast
  obtain g2 net2 where read: "client_get entry_lib (first_fit 2) text_body (Raised OtherError) (at_time 2) (\<lambda>_. 2) 2 ''k'' None
      (demo_gateway_at demo_moved) net'
    = Some (Answered \<lparr>gr_key = ''k'', gr_value = ''v'', gr_node_id = ''node-1'', gr_zone = ''z''\<rparr>, g2, net2)"
    using client [rule_format, OF conjI, OF demo_up(2) demo_key] by (auto simp: sample_config_def)
  have "int (card {''k''}) = 1" by simp
  from run [unfolded this] read show ?thesis by (intro exI conjI)
qed

theorem deleted_key_comes_back_witness:
  "\<exists>enum es net res net' g1 net1 h1 net2. rebalance_nodes entry_lib (first_fit 2) entry_pack (Raised OtherError)
      (Raised OtherError) (Raised OtherError) (at_time 1) enum (HashRing [''a''] 160) (HashRing [''b''] 160) demo_nodes es net
      Rebalancer = Some (res, net')
    \<and> client_delete entry_lib (first_fit 2) text_body (Raised OtherError) (at_time 2) 2 2 ''k'' (demo_gateway_at demo_moved) net'
      = Some (Answered \<lparr>dr_status = ''deleted'', dr_key = ''k''\<rparr>, g1, net1)
    \<and> client_get entry_lib (first_fit 2) text_body (Raised OtherError) (at_time 3) (\<lambda>_. 3) 3 ''k'' None
        (demo_gateway_at demo_before) net1
      = Some (Answered \<lparr>gr_key = ''k'', gr_value = ''v'', gr_node_id = ''node-1'', gr_zone = ''z''\<rparr>, h1, net2)"
proof -
  obtain net where net: "rebalance_setting entry_lib (first_fit 2) entry_pack (\<lambda>_. sample_config) 1 demo_before demo_moved
     (HashRing [''a''] 160) (HashRing [''b''] 160) demo_nodes net demo_map" using demo_setting by blast
  obtain enum where enum: "enumerates enum" using enumerates_ex by blast
  have ready: "\<not> in_progress Rebalancer" by (simp add: Rebalancer_def)
  let ?es = "concat (map (\<lambda>i. [Take i (at_time 1), Give i (at_time 1)])
    [0..<length (rebalance_tasks enum (list_keys entry_lib (first_fit 2) (Raised OtherError) (at_time 1) net)
      (HashRing [''a''] 160) (HashRing [''b''] 160) demo_nodes)])"
  from rebalance_nodes_over [OF net enum ready demo_schedule]
  obtain res net' where
    run: "rebalance_nodes entry_lib (first_fit 2) entry_pack (Raised OtherError) (Raised OtherError) (Raised OtherError)
      (at_time 1) enum (HashRing [''a''] 160) (HashRing [''b''] 160) demo_nodes ?es net Rebalancer = Some (res, net')" by blast
  have "demo_map ''k'' = Some ''v''" and "owner_address demo_before ''k'' \<noteq> owner_address demo_moved ''k''"
    by (simp_all add: demo_owner_address)
  from deleted_key_comes_back [OF net enum ready demo_schedule run this demo_key demo_up(2,1), of text_body "Raised OtherError"
      "at_time 2" 2 2 "at_time 3" "\<lambda>_. 3" 3 None] obtain g1 net1 h1 net2 where
    del: "client_delete entry_lib (first_fit 2) text_body (Raised OtherError) (at_time 2) 2 2 ''k'' (demo_gateway_at demo_moved) net'
      = Some (Answered \<lparr>dr_status = ''deleted'', dr_key = ''k''\<rparr>, g1, net1)"
    and read: "client_get entry_lib (first_fit 2) text_body (Raised OtherError) (at_time 3) (\<lambda>_. 3) 3 ''k'' None
        (demo_gateway_at demo_before) net1 = Some (Answered \<lparr>gr_key = ''k'', gr_value = ''v'',
          gr_node_id = nc_node_id sample_config, gr_zone = nc_zone sample_config\<rparr>, h1, net2)" by blast
  have "nc_node_id sample_config = ''node-1''" and "nc_zone sample_config = ''z''" by (simp_all add: sample_config_def)
  from run del read [unfolded this] show ?thesis by (intro exI conjI)
qed

end
