(* ===== verification/Migration_Clients.thy ===== *)
theory Migration_Clients
  imports Migration
begin

text \<open>
  Clients that call while a rebalance is under way. The cluster manager has rebuilt its ring already, so
  the gateway sends the requests by the new ring, and the tasks of
  \<open>gateway/app/services/rebalancer.py\<close> move the keys of the map behind them, each with its \<open>GET
  /snapshot\<close> and its \<open>POST /bulk-load\<close>. The calls of the tasks, the requests of the clients, the
  heartbeats and the purges come in any order.
\<close>

section \<open>Model\<close>

datatype mixed_event =
    Move migration_event
  | Ask system_op

definition mixed_step ::
  "'j json_lib \<Rightarrow> allocator \<Rightarrow> body_encoder \<Rightarrow> node_body http_outcome \<Rightarrow> (snapshot_entry list \<Rightarrow> string) \<Rightarrow> snapshot_answer
    \<Rightarrow> unit http_outcome \<Rightarrow> (string \<times> endpoint) list \<Rightarrow> task list \<Rightarrow> mixed_event \<Rightarrow> gateway \<times> migration
    \<Rightarrow> (system_reply list \<times> gateway \<times> migration) option" where
  "mixed_step lib alloc dumps fallback pack fb1 fb2 eps tasks e s =
     (case s of (g, mg) \<Rightarrow> (case e of
        Move e \<Rightarrow> map_option (\<lambda>mg'. ([], g, mg')) (migration_step lib alloc pack fb1 fb2 eps tasks e mg)
      | Ask op \<Rightarrow> map_option (\<lambda>(r, g', net). ([r], g', mg\<lparr>mg_net := net\<rparr>))
          (system_step lib alloc dumps fallback op (g, mg_net mg))))"

text \<open>A schedule, with the replies the clients got.\<close>

fun mixed_run ::
  "'j json_lib \<Rightarrow> allocator \<Rightarrow> body_encoder \<Rightarrow> node_body http_outcome \<Rightarrow> (snapshot_entry list \<Rightarrow> string) \<Rightarrow> snapshot_answer
    \<Rightarrow> unit http_outcome \<Rightarrow> (string \<times> endpoint) list \<Rightarrow> task list \<Rightarrow> mixed_event list \<Rightarrow> gateway \<times> migration
    \<Rightarrow> (system_reply list \<times> gateway \<times> migration) option" where
  "mixed_run lib alloc dumps fallback pack fb1 fb2 eps tasks [] s = Some ([], s)"
| "mixed_run lib alloc dumps fallback pack fb1 fb2 eps tasks (e # es) s =
     (case mixed_step lib alloc dumps fallback pack fb1 fb2 eps tasks e s of
        None \<Rightarrow> None
      | Some (rs, s1) \<Rightarrow> map_option (\<lambda>(rs', s2). (rs @ rs', s2)) (mixed_run lib alloc dumps fallback pack fb1 fb2 eps tasks es s1))"

text \<open>The calls of the tasks in a schedule, and the operations of the clients.\<close>

fun moves :: "mixed_event list \<Rightarrow> migration_event list" where
  "moves [] = []"
| "moves (Move e # es) = e # moves es"
| "moves (Ask op # es) = moves es"

fun asks :: "mixed_event list \<Rightarrow> system_op list" where
  "asks [] = []"
| "asks (Move e # es) = asks es"
| "asks (Ask op # es) = op # asks es"

text \<open>The key an operation writes, and the key it reads.\<close>

fun key_written :: "system_op \<Rightarrow> string option" where
  "key_written (Client_Put _ _ _ _ key _ _) = Some key"
| "key_written (Client_Delete _ _ _ key) = Some key"
| "key_written _ = None"

fun key_read :: "system_op \<Rightarrow> string option" where
  "key_read (Client_Get _ _ _ key _) = Some key"
| "key_read _ = None"

text \<open>An operation that the map describes and that leaves the keys in motion alone; and a reply it may
  have: the one of the map, or a miss of a key that has not arrived yet.\<close>

definition quiet_legal :: "string set \<Rightarrow> (string \<rightharpoonup> endpoint) \<Rightarrow> nat \<Rightarrow> system_op \<Rightarrow> (string \<rightharpoonup> string) \<Rightarrow> bool" where
  "quiet_legal K members room op m \<longleftrightarrow> map_legal members room op m \<and> key_written op \<notin> Some ` K"

definition reply_allowed :: "string set \<Rightarrow> system_op \<Rightarrow> system_reply \<Rightarrow> system_reply \<Rightarrow> bool" where
  "reply_allowed K op expected r \<longleftrightarrow> r = expected \<or> key_read op \<in> Some ` K \<and> r = Get_Reply key_not_found"

section \<open>The invariant with clients\<close>

text \<open>A node that took a request: its map and the whole map change at keys that do not move and that
  it owns.\<close>

lemma partly_moved_agree:
  assumes "partly_moved old new K m ep f" and "\<And>k. k \<in> K \<Longrightarrow> m' k = m k" and "\<And>k. m' k \<noteq> m k \<Longrightarrow> new k \<noteq> Some ep"
  shows "partly_moved old new K m' ep f"
  unfolding partly_moved_def
proof
  fix k
  show "if k \<in> K then (old k = Some ep \<longrightarrow> f k = m' k) \<and> (f k \<noteq> None \<longrightarrow> f k = m' k \<and> (old k = Some ep \<or> new k = Some ep))
    else f k = (if new k = Some ep then m' k else None)"
  proof (cases "m' k = m k")
    case True
    with spec [OF assms(1) [unfolded partly_moved_def], of k] show ?thesis by simp
  next
    case False
    with assms(2,3) [of k] have "k \<notin> K" "new k \<noteq> Some ep" by blast+
    with spec [OF assms(1) [unfolded partly_moved_def], of k] show ?thesis by simp
  qed
qed

lemma partly_moved_new: "partly_moved old new K m ep f \<Longrightarrow> k \<notin> K \<Longrightarrow> new k = Some ep \<Longrightarrow> f k = m k"
  unfolding partly_moved_def by (drule spec [of _ k]) simp

lemma partly_moved_update:
  assumes "partly_moved old new K m ep f" and "k0 \<notin> K" and "new k0 = Some ep"
  shows "partly_moved old new K (m(k0 := x)) ep (f(k0 := x))"
  unfolding partly_moved_def
proof
  fix k
  show "if k \<in> K then (old k = Some ep \<longrightarrow> (f(k0 := x)) k = (m(k0 := x)) k)
      \<and> ((f(k0 := x)) k \<noteq> None \<longrightarrow> (f(k0 := x)) k = (m(k0 := x)) k \<and> (old k = Some ep \<or> new k = Some ep))
    else (f(k0 := x)) k = (if new k = Some ep then (m(k0 := x)) k else None)"
    using spec [OF assms(1) [unfolded partly_moved_def], of k] assms(2,3) by (cases "k = k0") simp_all
qed

lemma good_rows_agree: "good_rows m ks rows \<Longrightarrow> (\<And>k. k \<in> set ks \<Longrightarrow> m' k = m k) \<Longrightarrow> good_rows m' ks rows"
  unfolding good_rows_def by auto

lemma progress_update:
  assumes ok: "in_progress_ok alloc cfg room old new m eps tasks mg"
    and agree: "\<And>k. k \<in> moving tasks \<Longrightarrow> m' k = m k" and there: "\<And>k. m' k \<noteq> m k \<Longrightarrow> new k = Some ep"
    and at: "mg_net mg ep \<noteq> None" "mirrors (cfg ep) sv' f'" "partly_moved old new (moving tasks) m' ep f'"
      "has_received m' eps tasks mg ep f'"
  shows "in_progress_ok alloc cfg room old new m' eps tasks (mg\<lparr>mg_net := (mg_net mg)(ep \<mapsto> sv')\<rparr>)"
proof -
  let ?mg = "mg\<lparr>mg_net := (mg_net mg)(ep \<mapsto> sv')\<rparr>"
  have keys: "k \<in> set (task_keys (tasks ! i)) \<Longrightarrow> i < length tasks \<Longrightarrow> m' k = m k" for k i
    using agree moving_task by blast
  have "tasks_ok old new m eps (mg_net mg) tasks" using ok by (simp add: in_progress_ok_def)
  then have tasks: "tasks_ok old new m' eps (mg_net ?mg) tasks"
    using agree by (fastforce simp: tasks_ok_def moving_def)
  have node: "roomy alloc room (cfg ep2) \<and> (\<exists>f. mirrors (cfg ep2) sv f \<and> partly_moved old new (moving tasks) m' ep2 f
      \<and> has_received m' eps tasks ?mg ep2 f)" if sv: "mg_net ?mg ep2 = Some sv" for ep2 sv
  proof (cases "ep2 = ep")
    case True
    obtain sv0 where "mg_net mg ep = Some sv0" using at(1) by blast
    with ok have "roomy alloc room (cfg ep)" by (rule progress_node)
    with at sv True show ?thesis by (auto simp: has_received_def)
  next
    case False
    with sv have "mg_net mg ep2 = Some sv" by simp
    with ok obtain f where f: "mirrors (cfg ep2) sv f" "partly_moved old new (moving tasks) m ep2 f"
      "has_received m eps tasks mg ep2 f" "roomy alloc room (cfg ep2)" by (rule progress_node)
    have "partly_moved old new (moving tasks) m' ep2 f"
      by (rule partly_moved_agree [OF f(2) agree]) (use there False in auto)
    moreover have "has_received m' eps tasks ?mg ep2 f" using f(3) keys by (simp add: has_received_def)
    ultimately show ?thesis using f by blast
  qed
  have "\<forall>i ans. mg_snap mg i = Some ans \<longrightarrow> i < length tasks
      \<and> (\<exists>rows. ans = Response 200 (Some (Some (map entry_of_row rows))) \<and> good_rows m' (task_keys (tasks ! i)) rows)"
    using ok good_rows_agree keys unfolding in_progress_ok_def by meson
  with tasks node ok show ?thesis by (simp add: in_progress_ok_def)
qed

text \<open>What holds while clients call: a gateway on the new ring, a migration in progress, room.\<close>

definition mixed_ok ::
  "'j json_lib \<Rightarrow> allocator \<Rightarrow> body_encoder \<Rightarrow> (endpoint \<Rightarrow> node_config) \<Rightarrow> nat \<Rightarrow> (string \<Rightarrow> endpoint option) \<Rightarrow> cluster_manager
    \<Rightarrow> (string \<times> endpoint) list \<Rightarrow> task list \<Rightarrow> gateway \<times> migration \<Rightarrow> (string \<rightharpoonup> string) \<Rightarrow> bool" where
  "mixed_ok lib alloc dumps cfg room old cm eps tasks s m \<longleftrightarrow> gateway_up cm (fst s) \<and> (\<forall>v. reads_body lib dumps v 0)
     \<and> in_progress_ok alloc cfg room old (owner_address cm) m eps tasks (snd s)
     \<and> (\<forall>key ep. owner_address cm key = Some ep \<longrightarrow> mg_net (snd s) ep \<noteq> None) \<and> finite (dom m) \<and> card (dom m) \<le> room"

lemma mixed_owner:
  assumes "mixed_ok lib alloc dumps cfg room old cm eps tasks (g, mg) m"
  obtains ep sv f where "owner_address cm key = Some ep" and "mg_net mg ep = Some sv" and "mirrors (cfg ep) sv f"
    and "partly_moved old (owner_address cm) (moving tasks) m ep f" and "has_received m eps tasks mg ep f"
    and "roomy alloc room (cfg ep)"
proof -
  from assms have gw: "gateway_up cm g" and ok: "in_progress_ok alloc cfg room old (owner_address cm) m eps tasks mg"
    and net: "\<And>key ep. owner_address cm key = Some ep \<Longrightarrow> mg_net mg ep \<noteq> None"
    unfolding mixed_ok_def fst_conv snd_conv by blast+
  obtain ep where ep: "owner_address cm key = Some ep" using get_start_up [OF gw, of "\<lambda>_. 0" key None] by blast
  with net obtain sv where sv: "mg_net mg ep = Some sv" by blast
  from ok sv obtain f where "mirrors (cfg ep) sv f" "partly_moved old (owner_address cm) (moving tasks) m ep f"
    "has_received m eps tasks mg ep f" "roomy alloc room (cfg ep)" by (rule progress_node)
  with ep sv that show thesis by blast
qed

lemma mixed_okI:
  assumes "mixed_ok lib alloc dumps cfg room old cm eps tasks (g, mg) m" and "gateway_up cm g'"
    and "in_progress_ok alloc cfg room old (owner_address cm) m' eps tasks (mg\<lparr>mg_net := (mg_net mg)(ep \<mapsto> sv)\<rparr>)"
    and "finite (dom m')" and "card (dom m') \<le> room"
  shows "mixed_ok lib alloc dumps cfg room old cm eps tasks (g', mg\<lparr>mg_net := (mg_net mg)(ep \<mapsto> sv)\<rparr>) m'"
  using assms by (simp add: mixed_ok_def)

lemma has_received_update:
  "has_received m eps tasks mg ep f \<Longrightarrow> k \<notin> moving tasks \<Longrightarrow> has_received (m(k := x)) eps tasks mg ep (f(k := x))"
  using moving_task unfolding has_received_def by (metis fun_upd_apply)

section \<open>One operation of a client\<close>

lemma read_during:
  assumes ok: "mixed_ok lib alloc dumps cfg room old cm eps tasks (g, mg) m" and key: "url_plain key"
  shows "\<exists>r g' net. system_step lib alloc dumps fallback (Client_Get t clock finish key zone) (g, mg_net mg) = Some (r, g', net)
    \<and> reply_allowed (moving tasks) (Client_Get t clock finish key zone)
        (fst (map_step (home cm cfg) (Client_Get t clock finish key zone) m)) r
    \<and> mixed_ok lib alloc dumps cfg room old cm eps tasks (g', mg\<lparr>mg_net := net\<rparr>) m"
proof -
  from ok obtain ep sv f where o: "owner_address cm key = Some ep" "mg_net mg ep = Some sv" "mirrors (cfg ep) sv f"
    and f: "partly_moved old (owner_address cm) (moving tasks) m ep f" "has_received m eps tasks mg ep f" by (rule mixed_owner)
  from ok have gw: "gateway_up cm g" and prog: "in_progress_ok alloc cfg room old (owner_address cm) m eps tasks mg"
    and fin: "finite (dom m)" "card (dom m) \<le> room" by (simp_all add: mixed_ok_def)
  from client_get_at [where net = "mg_net mg", OF gw o key, of lib alloc dumps fallback t clock finish zone] obtain g' sv' where
    get: "client_get lib alloc dumps fallback t clock finish key zone g (mg_net mg) = Some (case f key of
        Some v \<Rightarrow> Answered \<lparr>gr_key = key, gr_value = v, gr_node_id = nc_node_id (cfg ep), gr_zone = nc_zone (cfg ep)\<rparr>
      | None \<Rightarrow> key_not_found, g', (mg_net mg)(ep \<mapsto> sv'))" and up: "gateway_up cm g'" and sv': "mirrors (cfg ep) sv' f"
    by blast
  have "in_progress_ok alloc cfg room old (owner_address cm) m eps tasks (mg\<lparr>mg_net := (mg_net mg)(ep \<mapsto> sv')\<rparr>)"
    by (rule progress_update [OF prog refl _ _ sv' f]) (use o(2) in simp_all)
  from mixed_okI [OF ok up this fin]
  have after: "mixed_ok lib alloc dumps cfg room old cm eps tasks (g', mg\<lparr>mg_net := (mg_net mg)(ep \<mapsto> sv')\<rparr>) m" .
  show ?thesis
  proof (cases "f key = m key")
    case True
    with get after o(1) show ?thesis by (cases "m key") (auto simp: reply_allowed_def)
  next
    case False
    then have "key \<in> moving tasks" using partly_moved_new [OF f(1) _ o(1)] by blast
    moreover have "f key = None" using partly_moved_sub [OF f(1), of key] False by blast
    ultimately show ?thesis using get after by (auto simp: reply_allowed_def)
  qed
qed

lemma write_during:
  assumes ok: "mixed_ok lib alloc dumps cfg room old cm eps tasks (g, mg) m"
    and legal: "quiet_legal (moving tasks) members room (Client_Put t start finish pin key zone put) m"
  shows "\<exists>r g' net. system_step lib alloc dumps fallback (Client_Put t start finish pin key zone put) (g, mg_net mg) = Some (r, g', net)
    \<and> r = fst (map_step (home cm cfg) (Client_Put t start finish pin key zone put) m)
    \<and> mixed_ok lib alloc dumps cfg room old cm eps tasks (g', mg\<lparr>mg_net := net\<rparr>) (m(key \<mapsto> put_value put))"
proof -
  from legal have key: "url_plain key" and ttl: "put_ttl put \<in> {None, Some 0}" and out: "key \<notin> moving tasks"
    and room: "card (insert key (dom m)) \<le> room" by (auto simp: quiet_legal_def)
  from ok obtain ep sv f where o: "owner_address cm key = Some ep" "mg_net mg ep = Some sv" "mirrors (cfg ep) sv f"
    and f: "partly_moved old (owner_address cm) (moving tasks) m ep f" "has_received m eps tasks mg ep f"
    "roomy alloc room (cfg ep)" by (rule mixed_owner)
  from ok have gw: "gateway_up cm g" and prog: "in_progress_ok alloc cfg room old (owner_address cm) m eps tasks mg"
    and fin: "finite (dom m)" and body: "reads_body lib dumps (put_value put) 0" by (simp_all add: mixed_ok_def)
  have same: "f key = m key" by (rule partly_moved_new [OF f(1) out o(1)])
  have "card (dom m) < room" if "m key = None" using room fin that by (simp add: domIff)
  then have fits: "f key \<noteq> None \<or> card (dom f) < room"
    using card_mono [OF fin partly_moved_dom [OF f(1)]] same by (cases "m key") (simp_all add: le_less_trans)
  from client_put_at [where net = "mg_net mg", OF gw o key ttl body f(3) fits, of fallback t start finish pin zone] obtain g' sv' where
    put: "client_put lib alloc dumps fallback t start finish pin key zone put g (mg_net mg)
      = Some (Answered \<lparr>pr_status = (if m key \<noteq> None then ''updated'' else ''created''), pr_key = key,
          pr_node_id = nc_node_id (cfg ep)\<rparr>, g', (mg_net mg)(ep \<mapsto> sv'))"
    and up: "gateway_up cm g'" and sv': "mirrors (cfg ep) sv' (f(key \<mapsto> put_value put))"
    unfolding same by blast
  have "in_progress_ok alloc cfg room old (owner_address cm) (m(key \<mapsto> put_value put)) eps tasks
      (mg\<lparr>mg_net := (mg_net mg)(ep \<mapsto> sv')\<rparr>)"
    by (rule progress_update [OF prog _ _ _ sv' partly_moved_update [OF f(1) out o(1)] has_received_update [OF f(2) out]])
      (use out o(1,2) in \<open>auto split: if_splits\<close>)
  from mixed_okI [OF ok up this] fin room put o(1) show ?thesis by auto
qed

lemma delete_during:
  assumes ok: "mixed_ok lib alloc dumps cfg room old cm eps tasks (g, mg) m"
    and key: "url_plain key" and out: "key \<notin> moving tasks"
  shows "\<exists>r g' net. system_step lib alloc dumps fallback (Client_Delete t start finish key) (g, mg_net mg) = Some (r, g', net)
    \<and> r = fst (map_step (home cm cfg) (Client_Delete t start finish key) m)
    \<and> mixed_ok lib alloc dumps cfg room old cm eps tasks (g', mg\<lparr>mg_net := net\<rparr>) (m(key := None))"
proof -
  from ok obtain ep sv f where o: "owner_address cm key = Some ep" "mg_net mg ep = Some sv" "mirrors (cfg ep) sv f"
    and f: "partly_moved old (owner_address cm) (moving tasks) m ep f" "has_received m eps tasks mg ep f" by (rule mixed_owner)
  from ok have gw: "gateway_up cm g" and prog: "in_progress_ok alloc cfg room old (owner_address cm) m eps tasks mg"
    and fin: "finite (dom m)" and room: "card (dom m) \<le> room" by (simp_all add: mixed_ok_def)
  have same: "f key = m key" by (rule partly_moved_new [OF f(1) out o(1)])
  from client_delete_at [where net = "mg_net mg", OF gw o key, of lib alloc dumps fallback t start finish] obtain g' sv' where
    del: "client_delete lib alloc dumps fallback t start finish key g (mg_net mg) = Some (if m key \<noteq> None
      then Answered \<lparr>dr_status = ''deleted'', dr_key = key\<rparr> else key_not_found, g', (mg_net mg)(ep \<mapsto> sv'))"
    and up: "gateway_up cm g'" and sv': "mirrors (cfg ep) sv' (f(key := None))"
    unfolding same by blast
  have "in_progress_ok alloc cfg room old (owner_address cm) (m(key := None)) eps tasks (mg\<lparr>mg_net := (mg_net mg)(ep \<mapsto> sv')\<rparr>)"
    by (rule progress_update [OF prog _ _ _ sv' partly_moved_update [OF f(1) out o(1)] has_received_update [OF f(2) out]])
      (use out o(1,2) in \<open>auto split: if_splits\<close>)
  moreover have "card (dom (m(key := None))) \<le> room" using card_mono [OF fin, of "dom m - {key}"] room by simp
  ultimately show ?thesis using mixed_okI [OF ok up] fin del by auto
qed

lemma purge_during:
  assumes ok: "mixed_ok lib alloc dumps cfg room old cm eps tasks (g, mg) m"
  shows "\<exists>net. system_step lib alloc dumps fallback (Node_Purge ep clock) (g, mg_net mg) = Some (Purge_Done, g, net)
    \<and> mixed_ok lib alloc dumps cfg room old cm eps tasks (g, mg\<lparr>mg_net := net\<rparr>) m"
proof (cases "mg_net mg ep")
  case (Some sv)
  from ok have gw: "gateway_up cm g" and prog: "in_progress_ok alloc cfg room old (owner_address cm) m eps tasks mg"
    and fin: "finite (dom m)" "card (dom m) \<le> room" by (simp_all add: mixed_ok_def)
  from prog Some obtain f where f: "mirrors (cfg ep) sv f" "partly_moved old (owner_address cm) (moving tasks) m ep f"
    "has_received m eps tasks mg ep f" by (rule progress_node)
  from mirrors_purge [OF f(1), of clock] obtain sv' where sv': "purge_tick clock sv = Some sv'" "mirrors (cfg ep) sv' f" by blast
  have "in_progress_ok alloc cfg room old (owner_address cm) m eps tasks (mg\<lparr>mg_net := (mg_net mg)(ep \<mapsto> sv')\<rparr>)"
    by (rule progress_update [OF prog refl _ _ sv'(2) f(2,3)]) (use Some in simp_all)
  from mixed_okI [OF ok gw this fin] Some sv'(1) show ?thesis by simp
qed (use ok in simp)

text \<open>Any operation of a client, a heartbeat or a purge.\<close>

lemma ask_ok:
  assumes ok: "mixed_ok lib alloc dumps cfg room old cm eps tasks (g, mg) m"
    and legal: "quiet_legal (moving tasks) (live_address cm) room op m"
  shows "\<exists>r g' mg'. mixed_step lib alloc dumps fallback pack fb1 fb2 eps tasks (Ask op) (g, mg) = Some ([r], g', mg')
    \<and> reply_allowed (moving tasks) op (fst (map_step (home cm cfg) op m)) r
    \<and> mixed_ok lib alloc dumps cfg room old cm eps tasks (g', mg') (snd (map_step (home cm cfg) op m))"
proof -
  have "\<exists>r g' net. system_step lib alloc dumps fallback op (g, mg_net mg) = Some (r, g', net)
    \<and> reply_allowed (moving tasks) op (fst (map_step (home cm cfg) op m)) r
    \<and> mixed_ok lib alloc dumps cfg room old cm eps tasks (g', mg\<lparr>mg_net := net\<rparr>) (snd (map_step (home cm cfg) op m))"
  proof (cases op)
    case (Client_Get t clock finish key zone)
    with read_during [OF ok, of key] legal show ?thesis unfolding Client_Get by (simp add: quiet_legal_def)
  next
    case (Client_Put t start finish pin key zone put)
    from write_during [OF ok legal [unfolded Client_Put], of fallback] show ?thesis
      unfolding Client_Put reply_allowed_def map_step.simps snd_conv by blast
  next
    case (Client_Delete t start finish key)
    with legal have "url_plain key" "key \<notin> moving tasks" by (auto simp: quiet_legal_def)
    from delete_during [OF ok this, of fallback] show ?thesis
      unfolding Client_Delete reply_allowed_def map_step.simps snd_conv by blast
  next
    case (Node_Heartbeat t1 s1 t2 s2 p)
    from ok have gw: "gateway_up cm g" by (simp add: mixed_ok_def)
    from legal have beat: "live_address cm (hb_node_id p) = Some (hb_host p, hb_port p)" by (simp add: quiet_legal_def Node_Heartbeat)
    from gateway_beat [OF gw beat, of lib alloc dumps fallback t1 s1 t2 s2 "mg_net mg"] ok show ?thesis
      unfolding Node_Heartbeat by (auto simp: mixed_ok_def reply_allowed_def)
  next
    case (Node_Purge ep clock)
    from purge_during [OF ok, of fallback ep clock] show ?thesis
      unfolding Node_Purge reply_allowed_def map_step.simps fst_conv snd_conv by blast
  qed
  then show ?thesis by (auto simp: mixed_step_def)
qed

lemma move_ok:
  assumes ok: "mixed_ok lib alloc dumps cfg room old cm eps tasks (g, mg) m" and reads: "reads_back lib pack (m |` moving tasks)"
  shows "\<exists>mg'. mixed_step lib alloc dumps fallback pack fb1 fb2 eps tasks (Move e) (g, mg) = Some ([], g, mg')
    \<and> mixed_ok lib alloc dumps cfg room old cm eps tasks (g, mg') m"
proof -
  from ok have prog: "in_progress_ok alloc cfg room old (owner_address cm) m eps tasks mg" "finite (dom m)" "card (dom m) \<le> room"
    by (simp_all add: mixed_ok_def)
  from migration_run_ok [OF prog(1) reads prog(2,3), of fb1 fb2 "[e]"] obtain mg' where
    mg': "migration_step lib alloc pack fb1 fb2 eps tasks e mg = Some mg'"
    "in_progress_ok alloc cfg room old (owner_address cm) m eps tasks mg'" by (auto simp: bind_eq_Some_conv)
  have "\<forall>key ep. owner_address cm key = Some ep \<longrightarrow> mg_net mg' ep \<noteq> None"
    using ok unfolding migration_step_net [OF mg'(1)] mixed_ok_def snd_conv by blast
  with ok mg' have "mixed_ok lib alloc dumps cfg room old cm eps tasks (g, mg') m" unfolding mixed_ok_def fst_conv snd_conv by blast
  with mg'(1) show ?thesis by (simp add: mixed_step_def)
qed

text \<open>Such an operation leaves the keys in motion as they are.\<close>

lemma quiet_restrict:
  "quiet_legal K members room op m \<Longrightarrow> snd (map_step h op m) |` K = m |` K"
  by (cases op) (auto simp: quiet_legal_def restrict_map_def fun_eq_iff)

lemma mixed_run_ok:
  assumes "mixed_ok lib alloc dumps cfg room old cm eps tasks (g, mg) m" and "reads_back lib pack (m |` moving tasks)"
    and "legal_run (map_step (home cm cfg)) (quiet_legal (moving tasks) (live_address cm) room) (asks es) m"
  shows "\<exists>rs g' mg'. mixed_run lib alloc dumps fallback pack fb1 fb2 eps tasks es (g, mg) = Some (rs, g', mg')
    \<and> list_all2 (\<lambda>(op, expected) r. reply_allowed (moving tasks) op expected r)
        (zip (asks es) (fst (run_spec (map_step (home cm cfg)) (asks es) m))) rs
    \<and> mixed_ok lib alloc dumps cfg room old cm eps tasks (g', mg') (snd (run_spec (map_step (home cm cfg)) (asks es) m))"
  using assms
proof (induction es arbitrary: g mg m)
  case (Cons e es)
  show ?case
  proof (cases e)
    case (Move ev)
    from move_ok [OF Cons.prems(1,2), of fallback fb1 fb2 ev] obtain mg1 where
      step: "mixed_step lib alloc dumps fallback pack fb1 fb2 eps tasks e (g, mg) = Some ([], g, mg1)"
      and ok: "mixed_ok lib alloc dumps cfg room old cm eps tasks (g, mg1) m" unfolding Move by blast
    from Cons.IH [OF ok Cons.prems(2)] Cons.prems(3) step show ?thesis by (simp add: Move)
  next
    case (Ask op)
    let ?m = "snd (map_step (home cm cfg) op m)"
    from Cons.prems(3) have legal: "quiet_legal (moving tasks) (live_address cm) room op m"
      and rest: "legal_run (map_step (home cm cfg)) (quiet_legal (moving tasks) (live_address cm) room) (asks es) ?m"
      by (simp_all add: Ask)
    from ask_ok [OF Cons.prems(1) legal, of fallback pack fb1 fb2] obtain r g1 mg1 where
      step: "mixed_step lib alloc dumps fallback pack fb1 fb2 eps tasks e (g, mg) = Some ([r], g1, mg1)"
      and r: "reply_allowed (moving tasks) op (fst (map_step (home cm cfg) op m)) r"
      and ok: "mixed_ok lib alloc dumps cfg room old cm eps tasks (g1, mg1) ?m" unfolding Ask by blast
    have "reads_back lib pack (?m |` moving tasks)" using Cons.prems(2) quiet_restrict [OF legal] by simp
    from Cons.IH [OF ok this rest] r step show ?thesis by (auto simp: Ask split_beta Let_def)
  qed
qed simp

section \<open>Every task comes to its end\<close>

lemma mixed_step_mono:
  assumes "mixed_step lib alloc dumps fallback pack fb1 fb2 eps tasks e (g, mg) = Some (rs, g', mg')"
  shows "(mg_snap mg i \<noteq> None \<longrightarrow> mg_snap mg' i \<noteq> None) \<and> (mg_load mg i \<noteq> None \<longrightarrow> mg_load mg' i \<noteq> None)"
proof (cases e)
  case (Move ev)
  with assms have "migration_step lib alloc pack fb1 fb2 eps tasks ev mg = Some mg'" by (auto simp: mixed_step_def)
  from migration_step_mono [OF this] show ?thesis .
qed (use assms in \<open>auto simp: mixed_step_def\<close>)

lemma mixed_run_Cons:
  assumes "mixed_run lib alloc dumps fallback pack fb1 fb2 eps tasks (e # es) (g, mg) = Some (rs, g', mg')"
  obtains rs1 g1 mg1 rs2 where "mixed_step lib alloc dumps fallback pack fb1 fb2 eps tasks e (g, mg) = Some (rs1, g1, mg1)"
    and "mixed_run lib alloc dumps fallback pack fb1 fb2 eps tasks es (g1, mg1) = Some (rs2, g', mg')"
  using assms by (auto split: option.splits)

lemma mixed_run_given:
  assumes "mixed_run lib alloc dumps fallback pack fb1 fb2 eps tasks es (g, mg) = Some (rs, g', mg')"
    and "mg_load mg i \<noteq> None \<or> mg_snap mg i \<noteq> None \<and> Give i t \<in> set (moves es)"
  shows "mg_load mg' i \<noteq> None"
  using assms
proof (induction es arbitrary: g mg rs)
  case (Cons e es)
  from Cons.prems(1) obtain rs1 g1 mg1 rs2 where
    step: "mixed_step lib alloc dumps fallback pack fb1 fb2 eps tasks e (g, mg) = Some (rs1, g1, mg1)"
    and run: "mixed_run lib alloc dumps fallback pack fb1 fb2 eps tasks es (g1, mg1) = Some (rs2, g', mg')" by (rule mixed_run_Cons)
  note mono = mixed_step_mono [OF step, of i]
  have "mg_load mg1 i \<noteq> None" if e: "e = Move (Give i t)" "mg_snap mg i \<noteq> None"
  proof (rule give_step_given [OF _ e(2)])
    show "migration_step lib alloc pack fb1 fb2 eps tasks (Give i t) mg = Some mg1" using step e(1) by (auto simp: mixed_step_def)
  qed
  then have "mg_load mg1 i \<noteq> None \<or> mg_snap mg1 i \<noteq> None \<and> Give i t \<in> set (moves es)"
    using Cons.prems(2) mono by (cases e) auto
  with Cons.IH [OF run] show ?case .
qed simp

lemma mixed_run_over:
  assumes "mixed_run lib alloc dumps fallback pack fb1 fb2 eps tasks es (g, mg) = Some (rs, g', mg')"
    and "moves es = xs @ Take i t # ys @ Give i t' # zs" and "i < length tasks"
  shows "mg_load mg' i \<noteq> None"
  using assms(1,2)
proof (induction es arbitrary: g mg rs xs)
  case (Cons e es)
  from Cons.prems(1) obtain rs1 g1 mg1 rs2 where
    step: "mixed_step lib alloc dumps fallback pack fb1 fb2 eps tasks e (g, mg) = Some (rs1, g1, mg1)"
    and run: "mixed_run lib alloc dumps fallback pack fb1 fb2 eps tasks es (g1, mg1) = Some (rs2, g', mg')" by (rule mixed_run_Cons)
  show ?case
  proof (cases e)
    case (Ask op)
    with Cons.prems(2) Cons.IH [OF run] show ?thesis by simp
  next
    case (Move ev)
    show ?thesis
    proof (cases xs)
      case Nil
      with Cons.prems(2) have ev: "ev = Take i t" and later: "Give i t' \<in> set (moves es)" by (simp_all add: Move)
      have "migration_step lib alloc pack fb1 fb2 eps tasks (Take i t) mg = Some mg1"
        using step by (auto simp: mixed_step_def Move ev)
      from take_step_taken [OF this assms(3)] mixed_run_given [OF run] later show ?thesis by blast
    next
      case (Cons x xs')
      with Cons.prems(2) have "moves es = xs' @ Take i t # ys @ Give i t' # zs" by (simp add: Move)
      from Cons.IH [OF run this] show ?thesis .
    qed
  qed
qed simp

lemma mixed_all_over:
  assumes "mixed_run lib alloc dumps fallback pack fb1 fb2 eps tasks es (g, mg) = Some (rs, g', mg')"
    and "complete_schedule (length tasks) (moves es)"
  shows "all_over tasks mg'"
  using assms(2) mixed_run_over [OF assms(1)] unfolding complete_schedule_def all_over_def by blast

section \<open>Properties\<close>

lemma mixed_start:
  assumes s: "rebalance_setting lib alloc pack cfg room cm cm' R R' eps net m" and keys: "set keys = dom m"
    and "gateway_up cm' g" and "\<forall>v. reads_body lib dumps v 0"
  shows "mixed_ok lib alloc dumps cfg room (owner_address cm) cm' eps (plan_tasks R R' keys) (g, migration_start net) m"
proof -
  from s have "\<forall>key ep. owner_address cm' key = Some ep \<longrightarrow> net ep \<noteq> None" "finite (dom m)" "card (dom m) \<le> room"
    unfolding rebalance_setting_def holds_parts_def by blast+
  with assms(3,4) progress_start [OF s keys] show ?thesis unfolding mixed_ok_def by simp
qed

text \<open>The rings and the tasks of a setting.\<close>

lemma setting_tasks:
  assumes s: "rebalance_setting lib alloc pack cfg room cm cm' R R' eps net m" and enum: "enumerates enum"
    and tasks: "tasks = rebalance_tasks enum (list_keys lib alloc fb0 t net) R R' eps"
  obtains keys where "set keys = dom m" and "keys = enum (get_all_keys (list_keys lib alloc fb0 t net) eps)"
    and "tasks = plan_tasks R R' keys" and "ring_wf R" and "ring_wf R'" and "finite (dom m)"
    and "reads_back lib pack (m |` moving tasks)" and "moving tasks = {k \<in> dom m. get_node R k \<noteq> get_node R' k}"
proof -
  from s have wf: "ring_wf R" "ring_wf R'" and fin: "finite (dom m)" and reads: "reads_back lib pack m"
    using ring_wf_cluster unfolding rebalance_setting_def holds_parts_def by blast+
  let ?keys = "enum (get_all_keys (list_keys lib alloc fb0 t net) eps)"
  have keys: "set ?keys = dom m" using enum fin unfolding listed_keys [OF s] by blast
  have tasks': "tasks = plan_tasks R R' ?keys" unfolding tasks by (rule rebalance_tasks_plan [OF wf])
  have "moving tasks = {k \<in> dom m. get_node R k \<noteq> get_node R' k}"
    unfolding tasks' moving_plan [OF keys] by (simp add: get_node_owner [OF wf(1)] get_node_owner [OF wf(2)])
  with that [OF keys refl tasks' wf fin reads_back_restrict [OF reads]] show thesis by blast
qed

text \<open>
  C3 Clients may go on during a rebalance. With the gateway on the new ring, in every interleaving of the
  calls of the tasks with the requests of clients, heartbeats of live nodes and purges, in which no
  client writes a key that is being moved, every request is answered as by the single map, but that a
  read of a key in motion may still miss; the rebalance reports the keys that changed owner, and in
  the end every node holds its part of the map, with what the clients wrote, under the new ring.
\<close>

theorem clients_during_rebalance:
  assumes "rebalance_setting lib alloc pack cfg room cm cm' R R' eps net m" and "enumerates enum" and "\<not> in_progress r"
    and "tasks = rebalance_tasks enum (list_keys lib alloc fb0 t net) R R' eps"
    and "gateway_up cm' g" and "\<forall>v. reads_body lib dumps v 0"
    and "complete_schedule (length tasks) (moves es)" and "K = {k \<in> dom m. get_node R k \<noteq> get_node R' k}"
    and "legal_run (map_step (home cm' cfg)) (quiet_legal K (live_address cm') room) (asks es) m"
  shows "\<exists>rs g' mg aff r' posts.
    mixed_run lib alloc dumps fallback pack fb1 fb2 eps tasks es (g, migration_start net) = Some (rs, g', mg)
    \<and> list_all2 (\<lambda>(op, expected) r. reply_allowed K op expected r)
        (zip (asks es) (fst (run_spec (map_step (home cm' cfg)) (asks es) m))) rs
    \<and> rebalance enum (list_keys lib alloc fb0 t net) (\<lambda>i ep. the (mg_snap mg i)) (\<lambda>i ep es. the (mg_load mg i)) R R' eps r
        = (Inr (Completed (int (card K)) aff), r', posts)
    \<and> (\<forall>ep sv. mg_net mg ep = Some sv \<longrightarrow>
        mirrors (cfg ep) sv (parts_kept cm cm' K ep (snd (run_spec (map_step (home cm' cfg)) (asks es) m))))"
proof -
  from setting_tasks [OF assms(1,2,4)] obtain keys where keys: "set keys = dom m"
    "keys = enum (get_all_keys (list_keys lib alloc fb0 t net) eps)" "tasks = plan_tasks R R' keys"
    and wf: "ring_wf R" "ring_wf R'" and fin: "finite (dom m)" and reads: "reads_back lib pack (m |` moving tasks)"
    and moving: "moving tasks = {k \<in> dom m. get_node R k \<noteq> get_node R' k}" .
  have K: "moving tasks = K" using moving assms(8) by simp
  have start: "mixed_ok lib alloc dumps cfg room (owner_address cm) cm' eps tasks (g, migration_start net) m"
    unfolding keys(3) by (rule mixed_start [OF assms(1) keys(1) assms(5,6)])
  from mixed_run_ok [OF start reads, of es fallback fb1 fb2] assms(9) obtain rs g' mg where
    run: "mixed_run lib alloc dumps fallback pack fb1 fb2 eps tasks es (g, migration_start net) = Some (rs, g', mg)"
    and replies: "list_all2 (\<lambda>(op, expected) r. reply_allowed K op expected r)
        (zip (asks es) (fst (run_spec (map_step (home cm' cfg)) (asks es) m))) rs"
    and ok: "mixed_ok lib alloc dumps cfg room (owner_address cm) cm' eps tasks (g', mg)
        (snd (run_spec (map_step (home cm' cfg)) (asks es) m))" unfolding K by blast
  from ok have prog: "in_progress_ok alloc cfg room (owner_address cm) (owner_address cm')
      (snd (run_spec (map_step (home cm' cfg)) (asks es) m)) eps tasks mg" by (simp add: mixed_ok_def)
  have over: "all_over tasks mg" by (rule mixed_all_over [OF run assms(7)])
  have "(\<Sum>task\<leftarrow>tasks. int (card (set (task_keys task)))) = int (card K)"
    using moved_count [OF keys(1) fin, where R = R and R' = R']
    by (simp add: keys(3) assms(8) sum_list_int get_node_owner [OF wf(1)] get_node_owner [OF wf(2)])
  then have "\<exists>aff r' posts. rebalance enum (list_keys lib alloc fb0 t net) (\<lambda>i ep. the (mg_snap mg i))
      (\<lambda>i ep es. the (mg_load mg i)) R R' eps r = (Inr (Completed (int (card K)) aff), r', posts)"
    using results_over [OF prog over] by (simp add: rebalance_run [OF wf assms(3)] Let_def flip: keys(2,3))
  moreover have "\<forall>ep sv. mg_net mg ep = Some sv \<longrightarrow>
      mirrors (cfg ep) sv (parts_kept cm cm' K ep (snd (run_spec (map_step (home cm' cfg)) (asks es) m)))"
    using progress_over [OF prog over] unfolding K by blast
  ultimately show ?thesis using run replies by blast
qed

lemma take_frame:
  assumes "migration_step lib alloc pack fb1 fb2 eps tasks (Take i t) mg = Some mg'" and "task_source eps (tasks ! i) \<noteq> ep"
  shows "mg_net mg' ep = mg_net mg ep"
  using assms by (auto simp: call_node_def split: if_splits option.splits prod.splits)

text \<open>The first task takes its snapshot; the new owner still has its old part.\<close>

lemma taken_first:
  assumes s: "rebalance_setting lib alloc pack cfg room cm cm' R R' eps net m" and enum: "enumerates enum"
    and tasks_def: "tasks = rebalance_tasks enum (list_keys lib alloc fb0 t net) R R' eps"
    and i: "i < length tasks" "key \<in> set (task_keys (tasks ! i))" and moved: "owner_address cm key \<noteq> owner_address cm' key"
  obtains mg rows sv where "migration_step lib alloc pack fb1 fb2 eps tasks (Take i t1) (migration_start net) = Some mg"
    and "mg_snap mg i = Some (Response 200 (Some (Some (map entry_of_row rows))))" and "good_rows m (task_keys (tasks ! i)) rows"
    and "mg_load mg i = None" and "owner_address cm' key = Some (task_target eps (tasks ! i))"
    and "mg_net mg (task_target eps (tasks ! i)) = Some sv"
    and "mirrors (cfg (task_target eps (tasks ! i))) sv (part_at cm (task_target eps (tasks ! i)) m)"
    and "roomy alloc room (cfg (task_target eps (tasks ! i)))" and "set (task_keys (tasks ! i)) \<subseteq> dom m"
proof -
  let ?ep = "task_target eps (tasks ! i)"
  from setting_tasks [OF s enum tasks_def] obtain keys where keys: "set keys = dom m" "tasks = plan_tasks R R' keys" .
  have start: "in_progress_ok alloc cfg room (owner_address cm) (owner_address cm') m eps tasks (migration_start net)"
    unfolding keys(2) by (rule progress_start [OF s keys(1)])
  from take_ok [OF start i(1), of lib pack fb1 fb2 t1] obtain mg where
    take1: "migration_step lib alloc pack fb1 fb2 eps tasks (Take i t1) (migration_start net) = Some mg"
    and ok: "in_progress_ok alloc cfg room (owner_address cm) (owner_address cm') m eps tasks mg" by auto
  have "mg_snap mg i \<noteq> None" by (rule take_step_taken [OF take1 i(1)])
  with ok obtain rows where rows: "mg_snap mg i = Some (Response 200 (Some (Some (map entry_of_row rows))))"
    "good_rows m (task_keys (tasks ! i)) rows" unfolding in_progress_ok_def by blast
  have unposted: "mg_load mg i = None" using take1 i(1) by (auto split: if_splits option.splits prod.splits)
  have tasks: "tasks_ok (owner_address cm) (owner_address cm') m eps (mg_net mg) tasks" using ok by (simp add: in_progress_ok_def)
  have owner: "owner_address cm' key = Some ?ep" using tasks_ok_nth(4) [OF tasks i] by blast
  obtain sv where sv: "mg_net mg ?ep = Some sv" using tasks_ok_nth(3) [OF tasks i(1)] by blast
  have "task_source eps (tasks ! i) \<noteq> ?ep" using tasks_ok_nth(4) [OF tasks i] moved by auto
  from take_frame [OF take1 this] sv have "net ?ep = Some sv" by simp
  with s have "mirrors (cfg ?ep) sv (part_at cm ?ep m)" and "roomy alloc room (cfg ?ep)"
    unfolding rebalance_setting_def holds_parts_def by blast+
  moreover have "set (task_keys (tasks ! i)) \<subseteq> dom m" using tasks_ok_nth(4) [OF tasks i(1)] by blast
  ultimately show thesis by (intro that [OF take1 rows unposted owner sv])
qed

text \<open>
  C26 A write is lost to a rebalance. When a client writes a key after its task has taken the snapshot at the
  old owner and before it posts it to the new owner, the client is told that the key was created, and
  the post then overwrites the value: a read that follows is answered with the value from before the
  write.
\<close>

theorem write_lost_to_rebalance:
  assumes "rebalance_setting lib alloc pack cfg room cm cm' R R' eps net m" and "enumerates enum"
    and "tasks = rebalance_tasks enum (list_keys lib alloc fb0 t net) R R' eps"
    and "gateway_up cm' g" and "\<forall>v. reads_body lib dumps v 0"
    and "i < length tasks" and "key \<in> set (task_keys (tasks ! i))" and "m key = Some v"
    and "owner_address cm key \<noteq> owner_address cm' key" and "url_plain key" and "put_ttl put \<in> {None, Some 0}"
  shows "\<exists>g' mg. mixed_run lib alloc dumps fallback pack fb1 fb2 eps tasks
      [Move (Take i t1), Ask (Client_Put t2 start finish pin key zone put), Move (Give i t3),
       Ask (Client_Get t4 clock finish' key zone')] (g, migration_start net)
    = Some ([Put_Reply (Answered \<lparr>pr_status = ''created'', pr_key = key, pr_node_id = nc_node_id (home cm' cfg key)\<rparr>),
        Get_Reply (Answered \<lparr>gr_key = key, gr_value = v, gr_node_id = nc_node_id (home cm' cfg key),
          gr_zone = nc_zone (home cm' cfg key)\<rparr>)], g', mg)"
proof -
  let ?ep = "task_target eps (tasks ! i)" and ?ks = "task_keys (tasks ! i)"
  from setting_tasks [OF assms(1-3)] have fin: "finite (dom m)" and reads: "reads_back lib pack (m |` moving tasks)" by metis+
  from assms(1) have room: "card (dom m) \<le> room" by (simp add: rebalance_setting_def)
  from taken_first [OF assms(1-3,6,7,9), of fb1 fb2 t1] obtain mg1 rows sv where
    take1: "migration_step lib alloc pack fb1 fb2 eps tasks (Take i t1) (migration_start net) = Some mg1"
    and rows: "mg_snap mg1 i = Some (Response 200 (Some (Some (map entry_of_row rows))))" "good_rows m ?ks rows"
    and unposted: "mg_load mg1 i = None" and owner: "owner_address cm' key = Some ?ep" and sv: "mg_net mg1 ?ep = Some sv"
    and f: "mirrors (cfg ?ep) sv (part_at cm ?ep m)" and roomy: "roomy alloc room (cfg ?ep)" and ks: "set ?ks \<subseteq> dom m" .
  have absent: "part_at cm ?ep m key = None" using assms(9) owner by (auto simp: part_at_def)
  have "dom (part_at cm ?ep m) \<subset> dom m" using absent assms(8) by (auto simp: part_at_def split: if_splits)
  from psubset_card_mono [OF fin this] room have fits: "part_at cm ?ep m key \<noteq> None \<or> card (dom (part_at cm ?ep m)) < room" by simp
  have body: "reads_body lib dumps (put_value put) 0" using assms(5) by blast
  from client_put_at [where net = "mg_net mg1", OF assms(4) owner sv f assms(10,11) body roomy fits, of fallback t2 start finish pin zone] absent
  obtain g1 sv1 where put: "client_put lib alloc dumps fallback t2 start finish pin key zone put g (mg_net mg1)
      = Some (Answered \<lparr>pr_status = ''created'', pr_key = key, pr_node_id = nc_node_id (cfg ?ep)\<rparr>, g1, (mg_net mg1)(?ep \<mapsto> sv1))"
    and up: "gateway_up cm' g1" and f1: "mirrors (cfg ?ep) sv1 ((part_at cm ?ep m)(key \<mapsto> put_value put))" by auto
  let ?mg2 = "mg1\<lparr>mg_net := (mg_net mg1)(?ep \<mapsto> sv1)\<rparr>" and ?f1 = "(part_at cm ?ep m)(key \<mapsto> put_value put)"
  have "dom ?f1 \<union> set ?ks \<subseteq> dom m"
    using ks assms(8) by (auto simp: part_at_def split: if_splits)
  then have fits1: "card (dom ?f1 \<union> set ?ks) \<le> room" using card_mono [OF fin] room by (meson order_trans)
  have part: "reads_back lib pack (m |` set ?ks)"
    by (rule reads_back_mono [OF reads]) (auto simp: restrict_map_def moving_task [OF assms(6)] split: if_splits)
  have at: "mg_snap ?mg2 i = Some (Response 200 (Some (Some (map entry_of_row rows))))" "mg_load ?mg2 i = None"
    "mg_net ?mg2 ?ep = Some sv1" using rows(1) unposted by simp_all
  from give_node [where cfg = cfg and ep = ?ep, OF at(1,2) rows(2) part refl at(3) f1 roomy fits1, of fb1 fb2 t3] obtain sv2 where
    give: "migration_step lib alloc pack fb1 fb2 eps tasks (Give i t3) ?mg2
      = Some (?mg2\<lparr>mg_net := (mg_net ?mg2)(?ep \<mapsto> sv2), mg_load := (mg_load ?mg2)(i \<mapsto> Response 200 (Some ()))\<rparr>)"
    and f2: "mirrors (cfg ?ep) sv2 (\<lambda>k. if k \<in> set ?ks then m k else ?f1 k)" by blast
  let ?mg3 = "?mg2\<lparr>mg_net := (mg_net ?mg2)(?ep \<mapsto> sv2), mg_load := (mg_load ?mg2)(i \<mapsto> Response 200 (Some ()))\<rparr>"
  have sv2: "mg_net ?mg3 ?ep = Some sv2" by simp
  from client_get_at [where net = "mg_net ?mg3", OF up owner sv2 f2 assms(10), of lib alloc dumps fallback t4 clock finish' zone']
    assms(7,8) obtain g2 sv3 where
    get: "client_get lib alloc dumps fallback t4 clock finish' key zone' g1 (mg_net ?mg3)
      = Some (Answered \<lparr>gr_key = key, gr_value = v, gr_node_id = nc_node_id (cfg ?ep), gr_zone = nc_zone (cfg ?ep)\<rparr>, g2,
          (mg_net ?mg3)(?ep \<mapsto> sv3))" by auto
  show ?thesis
    using take1 put give get owner
    by (simp add: mixed_step_def del: migration_step.simps)
qed

section \<open>Witnesses\<close>

text \<open>A library that reads a body as the value it is, and an entry as the one of k.\<close>

definition both_lib :: "string option json_lib" where
  "both_lib = \<lparr>jl_parse = (\<lambda>s. Some (Some s)), jl_contains = (\<lambda>j k. k = ''value''),
     jl_string = (\<lambda>j k. Some (case j of Some s \<Rightarrow> s | None \<Rightarrow> if k = ''key'' then ''k'' else ''v'')),
     jl_value_int = (\<lambda>j k d. Some 0), jl_elements = (\<lambda>j k. Some (map (\<lambda>_. None) (the j)))\<rparr>"

lemma both_reads: "reads_back both_lib entry_pack demo_map" "\<forall>v. reads_body both_lib text_body v 0"
proof -
  have "list_all2 (\<lambda>e je. \<forall>k. entry_key e = Some k \<longrightarrow> jl_string both_lib je ''key'' = Some k
       \<and> jl_string both_lib je ''value'' = Some (entry_value e) \<and> jl_value_int both_lib je ''ttl'' 0 = Some (entry_ttl e))
     es (map (\<lambda>_. None) es)"
    if "\<forall>e\<in>set es. \<exists>k v. demo_map k = Some v \<and> e = \<lparr>entry_key = Some k, entry_value = v, entry_ttl = 0\<rparr>" for es
    using that by (induction es) (auto simp: both_lib_def split: if_splits)
  then show "reads_back both_lib entry_pack demo_map" unfolding reads_back_def by (auto simp: both_lib_def entry_pack_def comp_def)
  show "\<forall>v. reads_body both_lib text_body v 0" by (simp add: reads_body_def both_lib_def text_body_def)
qed

abbreviation demo_case :: "network \<Rightarrow> bool" where
  "demo_case net \<equiv> rebalance_setting both_lib (first_fit 2) entry_pack (\<lambda>_. sample_config) 2 demo_before demo_moved
     (HashRing [''a''] 160) (HashRing [''b''] 160) demo_nodes net demo_map"

lemma demo_case: "\<exists>net. demo_case net"
proof -
  from demo_setting obtain net where net: "rebalance_setting entry_lib (first_fit 2) entry_pack (\<lambda>_. sample_config) 1
    demo_before demo_moved (HashRing [''a''] 160) (HashRing [''b''] 160) demo_nodes net demo_map" by blast
  have "roomy (first_fit 2) 2 sample_config" using sample_allocator by (simp add: roomy_def sample_config_def)
  with net both_reads(1) have "demo_case net" unfolding rebalance_setting_def by auto
  then show ?thesis by blast
qed

abbreviation demo_tasks :: "(string set \<Rightarrow> string list) \<Rightarrow> network \<Rightarrow> task list" where
  "demo_tasks enum net \<equiv> rebalance_tasks enum (list_keys both_lib (first_fit 2) (Raised OtherError) (at_time 1) net)
     (HashRing [''a''] 160) (HashRing [''b''] 160) demo_nodes"

abbreviation demo_mixed ::
  "(string set \<Rightarrow> string list) \<Rightarrow> network \<Rightarrow> mixed_event list \<Rightarrow> (system_reply list \<times> gateway \<times> migration) option" where
  "demo_mixed enum net es \<equiv> mixed_run both_lib (first_fit 2) text_body (Raised OtherError) entry_pack (Raised OtherError)
     (Raised OtherError) demo_nodes (demo_tasks enum net) es (demo_gateway_at demo_moved, migration_start net)"

abbreviation demo_write :: "string \<Rightarrow> mixed_event" where
  "demo_write key \<equiv> Ask (Client_Put (at_time 2) 2 2 2 key None \<lparr>put_value = ''w'', put_ttl = None\<rparr>)"

abbreviation demo_read :: mixed_event where
  "demo_read \<equiv> Ask (Client_Get (at_time 4) (\<lambda>_. 4) 4 ''k'' None)"

text \<open>A client writes a key that is not there and reads one in motion, before the rebalance ends.\<close>

lemma moves_Moves: "moves (map Move es) = es" "asks (map Move es) = []"
  by (induction es) simp_all

theorem clients_during_rebalance_witness:
  "\<exists>enum net es r2 g mg. demo_mixed enum net (demo_write ''x'' # demo_read # es)
      = Some ([Put_Reply (Answered \<lparr>pr_status = ''created'', pr_key = ''x'', pr_node_id = ''node-1''\<rparr>), r2], g, mg)
    \<and> (\<forall>sv. mg_net mg (''other'', 8002) = Some sv \<longrightarrow> mirrors sample_config sv [''k'' \<mapsto> ''v'', ''x'' \<mapsto> ''w''])"
proof -
  obtain net where net: "demo_case net" using demo_case by blast
  obtain enum where enum: "enumerates enum" using enumerates_ex by blast
  have ready: "\<not> in_progress Rebalancer" by (simp add: Rebalancer_def)
  let ?moves = "concat (map (\<lambda>i. [Take i (at_time 3), Give i (at_time 3)]) [0..<length (demo_tasks enum net)])"
  let ?es = "demo_write ''x'' # demo_read # map Move ?moves"
  have whole: "complete_schedule (length (demo_tasks enum net)) (moves ?es)" by (simp only: moves.simps moves_Moves demo_schedule)
  have asks: "asks ?es = [Client_Put (at_time 2) 2 2 2 ''x'' None \<lparr>put_value = ''w'', put_ttl = None\<rparr>,
      Client_Get (at_time 4) (\<lambda>_. 4) 4 ''k'' None]" by (simp only: asks.simps moves_Moves)
  let ?K = "{k \<in> dom demo_map. get_node (HashRing [''a''] 160) k \<noteq> get_node (HashRing [''b''] 160) k}"
  have "url_plain ''x''" by (simp add: url_plain_def url_chars_def)
  then have legal: "legal_run (map_step (home demo_moved (\<lambda>_. sample_config))) (quiet_legal ?K (live_address demo_moved) 2) (asks ?es) demo_map"
    unfolding asks demo_moved_keys using demo_key by (simp add: quiet_legal_def)
  from clients_during_rebalance [OF net enum ready refl demo_up(2) both_reads(2) whole refl legal, of "Raised OtherError"
      "Raised OtherError" "Raised OtherError"] obtain rs g mg where
    run: "demo_mixed enum net ?es = Some (rs, g, mg)"
    and replies: "list_all2 (\<lambda>(op, expected) r. reply_allowed ?K op expected r)
        (zip (asks ?es) (fst (run_spec (map_step (home demo_moved (\<lambda>_. sample_config))) (asks ?es) demo_map))) rs"
    and parts: "\<forall>ep sv. mg_net mg ep = Some sv \<longrightarrow> mirrors sample_config sv (parts_kept demo_before demo_moved ?K ep
        (snd (run_spec (map_step (home demo_moved (\<lambda>_. sample_config))) (asks ?es) demo_map)))" by blast
  from replies obtain r2 where rs: "rs = [Put_Reply (Answered \<lparr>pr_status = ''created'', pr_key = ''x'', pr_node_id = ''node-1''\<rparr>), r2]"
    unfolding asks demo_moved_keys by (auto simp: list_all2_Cons1 reply_allowed_def sample_config_def)
  have held: "parts_kept demo_before demo_moved ?K (''other'', 8002) [''k'' \<mapsto> ''v'', ''x'' \<mapsto> ''w''] = [''k'' \<mapsto> ''v'', ''x'' \<mapsto> ''w'']"
    by (simp add: parts_kept_def demo_owner_address fun_eq_iff)
  have final: "snd (run_spec (map_step (home demo_moved (\<lambda>_. sample_config))) (asks ?es) demo_map) = [''k'' \<mapsto> ''v'', ''x'' \<mapsto> ''w'']"
    unfolding asks by simp
  from spec [OF parts, of "(''other'', 8002)", unfolded final held] run [unfolded rs] show ?thesis by (intro exI conjI)
qed

theorem write_lost_to_rebalance_witness:
  "\<exists>enum net i g mg. demo_mixed enum net [Move (Take i (at_time 1)), demo_write ''k'', Move (Give i (at_time 3)), demo_read]
    = Some ([Put_Reply (Answered \<lparr>pr_status = ''created'', pr_key = ''k'', pr_node_id = ''node-1''\<rparr>),
        Get_Reply (Answered \<lparr>gr_key = ''k'', gr_value = ''v'', gr_node_id = ''node-1'', gr_zone = ''z''\<rparr>)], g, mg)"
proof -
  obtain net where net: "demo_case net" using demo_case by blast
  obtain enum where enum: "enumerates enum" using enumerates_ex by blast
  have "moving (demo_tasks enum net) = {''k''}" by (rule setting_tasks [OF net enum refl]) (simp only: demo_moved_keys)
  then obtain task where task: "task \<in> set (demo_tasks enum net)" "''k'' \<in> set (task_keys task)" unfolding moving_def by blast
  from task(1) obtain i where i: "i < length (demo_tasks enum net)" "demo_tasks enum net ! i = task" by (auto simp: in_set_conv_nth)
  have k: "demo_map ''k'' = Some ''v''" and moved: "owner_address demo_before ''k'' \<noteq> owner_address demo_moved ''k''"
    by (simp_all add: demo_owner_address)
  have put: "put_ttl \<lparr>put_value = ''w'', put_ttl = None\<rparr> \<in> {None, Some 0}" by simp
  have key: "''k'' \<in> set (task_keys (demo_tasks enum net ! i))" using task(2) i(2) by simp
  have names: "nc_node_id sample_config = ''node-1''" "nc_zone sample_config = ''z''" by (simp_all add: sample_config_def)
  from write_lost_to_rebalance [where fallback = "Raised OtherError" and ?fb1.0 = "Raised OtherError" and ?fb2.0 = "Raised OtherError"
      and ?t1.0 = "at_time 1" and ?t2.0 = "at_time 2" and start = 2 and finish = 2 and pin = 2 and zone = None and ?t3.0 = "at_time 3"
      and ?t4.0 = "at_time 4" and clock = "\<lambda>_. 4" and finish' = 4 and zone' = None,
      OF net enum refl demo_up(2) both_reads(2) i(1) key k moved demo_key put, unfolded names]
  have "\<exists>g mg. demo_mixed enum net [Move (Take i (at_time 1)), demo_write ''k'', Move (Give i (at_time 3)), demo_read]
    = Some ([Put_Reply (Answered \<lparr>pr_status = ''created'', pr_key = ''k'', pr_node_id = ''node-1''\<rparr>),
        Get_Reply (Answered \<lparr>gr_key = ''k'', gr_value = ''v'', gr_node_id = ''node-1'', gr_zone = ''z''\<rparr>)], g, mg)" .
  then show ?thesis by (intro exI [of _ enum] exI [of _ net] exI [of _ i])
qed

end
