(* ===== verification/Node_Loss.thy ===== *)
theory Node_Loss
  imports Cluster_Map
begin

text \<open>
  What a cluster loses when nodes die: the failure detection loop of \<open>main.py\<close> takes the dead nodes off
  the ring, and with their machines gone the cluster is the map of \<open>Cluster_Map\<close> without the keys they
  owned. A SUSPECT node that a rebuild of the ring leaves out counts among the lost ones.
\<close>

section \<open>A scan and the ring\<close>

lemma alive_on_ring:
  assumes "ring_ok cm" and "status_of cm n = Some ALIVE"
  shows "n \<in> ring_members cm"
proof -
  obtain R where R: "cm_ring cm = Some R" using ring_ok_alive [OF assms] by blast
  with assms obtain ns where ns: "R = HashRing ns 160" "n \<in> set ns" by (auto simp: ring_ok_def)
  then show ?thesis unfolding ring_members_def R option.case by simp
qed

lemma check_node_members:
  assumes ok: "cluster_ok cm"
  shows "ring_members (fst (check_node now stamps n (cm, dead))) \<subseteq> ring_members cm"
proof (cases "node_of cm n")
  case (Some x)
  have "ring_members (rebuild_hash_ring (log_event stamp e (store_node n (x'\<lparr>nm_status := DEAD\<rparr>) cm))) \<subseteq> ring_members cm"
    (is "ring_members (rebuild_hash_ring ?cm) \<subseteq> _") for stamp e x'
  proof
    fix m assume "m \<in> ring_members (rebuild_hash_ring ?cm)"
    moreover have "distinct (keys_of (cm_nodes ?cm))"
      using cluster_ok_keys [OF ok] keys_store_present [OF Some] by simp
    ultimately have "status_of ?cm m = Some ALIVE" by (simp add: rebuilt_members)
    then have "status_of cm m = Some ALIVE" by (auto simp: status_of_def dict_maps split: if_splits)
    then show "m \<in> ring_members cm" using ok alive_on_ring by (auto simp: cluster_ok_def)
  qed
  moreover have "ring_members (log_event stamp e (store_node n y cm)) = ring_members cm"
    "ring_members (store_node n y cm) = ring_members cm" for stamp e y
    by (simp_all add: ring_members_def)
  ultimately show ?thesis using Some by (simp add: check_node_def Let_def)
qed (simp add: check_node_absent)

lemma scan_members:
  assumes "cluster_ok cm"
  shows "ring_members (fst (check_heartbeat_timeouts now stamps cm)) \<subseteq> ring_members cm"
proof -
  have "cluster_ok (fst s) \<Longrightarrow> ring_members (fst (fold (check_node now stamps) ns s)) \<subseteq> ring_members (fst s)" for ns s
  proof (induction ns arbitrary: s)
    case (Cons n ns)
    have "cluster_ok (fst (check_node now stamps n s))" and "ring_members (fst (check_node now stamps n s)) \<subseteq> ring_members (fst s)"
      using cluster_ok_check [OF Cons.prems, of now stamps n "snd s"] check_node_members [OF Cons.prems, of now stamps n "snd s"]
      by simp_all
    with Cons.IH [of "check_node now stamps n s"] show ?case by auto
  qed simp
  from this [of "(cm, [])"] assms show ?thesis by (simp add: check_heartbeat_timeouts_def)
qed

lemma aged_place: "nm_host (aged now timeout x) = nm_host x" "nm_port (aged now timeout x) = nm_port x"
  by (simp_all add: aged_def)

lemma scan_address:
  assumes "cluster_ok cm"
  shows "member_address (fst (check_heartbeat_timeouts now stamps cm)) = member_address cm"
proof
  fix n
  show "member_address (fst (check_heartbeat_timeouts now stamps cm)) n = member_address cm n"
    by (cases "node_of cm n") (simp_all add: member_address_def scan_node_of [OF assms] aged_place)
qed

lemma scan_routable: "cluster_ok cm \<Longrightarrow> routable (fst (check_heartbeat_timeouts now stamps cm)) n \<Longrightarrow> routable cm n"
  by (auto simp: routable_def status_of_def scan_node_of aged_def split: if_splits)

lemma owner_among_survivors:
  assumes "cluster_ok cm" and "get_node_for_key cm key = Inr (Some a)"
  shows "a \<in> ring_members cm"
proof -
  obtain P where P: "ring_members cm = set (filter P (keys_of (cm_nodes cm)))"
    "ring_owner (HashRing (filter P (keys_of (cm_nodes cm))) 160) key = Some a"
    by (rule ring_members_owner [OF assms])
  from ring_owner_member [OF ring_wf_HashRing P(2)] show ?thesis unfolding P(1) by simp
qed

lemma scan_owner:
  assumes ok: "cluster_ok cm" and cm': "cm' = fst (check_heartbeat_timeouts now stamps cm)"
    and a: "get_node_for_key cm key = Inr (Some a)" and left: "a \<in> ring_members cm'"
  shows "get_node_for_key cm' key = Inr (Some a)"
proof -
  have ok': "cluster_ok cm'" unfolding cm' by (rule cluster_ok_scan [OF ok])
  have "cm_ring cm' \<noteq> None" using left by (auto simp: ring_members_def split: option.splits)
  with route_owner [of cm' key] ok' obtain b where b: "get_node_for_key cm' key = Inr (Some b)"
    by (auto simp: cluster_ok_def)
  have "b \<in> ring_members cm" using owner_among_survivors [OF ok' b] scan_members [OF ok] unfolding cm' by blast
  with step_owner [OF ok a, where e = "Scan now stamps" and b = b] b left have "a = b" by (simp add: cm')
  with b show ?thesis by simp
qed

section \<open>What is left\<close>

text \<open>The keys that keep their owner, and the machines of the nodes on the ring.\<close>

definition surviving :: "cluster_manager \<Rightarrow> cluster_manager \<Rightarrow> (string \<rightharpoonup> string) \<Rightarrow> string \<rightharpoonup> string" where
  "surviving cm cm' m key = (if get_node_for_key cm' key = get_node_for_key cm key then m key else None)"

definition machines_left :: "cluster_manager \<Rightarrow> network \<Rightarrow> network" where
  "machines_left cm net = net |` {ep. \<exists>n\<in>ring_members cm. member_address cm n = Some ep}"

definition own_addresses :: "cluster_manager \<Rightarrow> bool" where
  "own_addresses cm \<longleftrightarrow> (\<forall>n n' ep. member_address cm n = Some ep \<and> member_address cm n' = Some ep \<longrightarrow> n = n')"

text \<open>Every node the gateway may route to is on the network, with room for the map.\<close>

definition nodes_ready :: "allocator \<Rightarrow> nat \<Rightarrow> (endpoint \<Rightarrow> node_config) \<Rightarrow> cluster_manager \<Rightarrow> network \<Rightarrow> bool" where
  "nodes_ready alloc room cfg cm net \<longleftrightarrow>
     (\<forall>n ep. routable cm n \<and> member_address cm n = Some ep \<longrightarrow> net ep \<noteq> None \<and> roomy alloc room (cfg ep))"

lemma owner_of_key:
  assumes "cluster_ok cm" and "cm_ring cm \<noteq> None"
  obtains n where "get_node_for_key cm key = Inr (Some n)" and "routable cm n" and "n \<in> ring_members cm"
proof -
  from assms route_owner [of cm key] obtain n where n: "get_node_for_key cm key = Inr (Some n)" "routable cm n"
    by (auto simp: cluster_ok_def)
  with owner_among_survivors [OF assms(1) n(1)] show thesis by (intro that)
qed

lemma surviving_parts:
  assumes ok: "cluster_ok cm" and ring: "cm_ring cm \<noteq> None" and cm': "cm' = fst (check_heartbeat_timeouts now stamps cm)"
    and ring': "cm_ring cm' \<noteq> None" and own: "own_addresses cm"
    and p: "p \<in> ring_members cm'" "member_address cm' p = Some ep"
  shows "part_at cm' ep (surviving cm cm' m) = part_at cm ep m"
proof
  fix key
  have addr: "member_address cm' = member_address cm" unfolding cm' by (rule scan_address [OF ok])
  have ok': "cluster_ok cm'" unfolding cm' by (rule cluster_ok_scan [OF ok])
  obtain a where a: "get_node_for_key cm key = Inr (Some a)" by (rule owner_of_key [OF ok ring])
  obtain b where b: "get_node_for_key cm' key = Inr (Some b)" by (rule owner_of_key [OF ok' ring'])
  have at: "owner_address cm key = Some ep \<longleftrightarrow> a = p" "owner_address cm' key = Some ep \<longleftrightarrow> b = p"
    using own p(2) unfolding owner_address_def a b own_addresses_def addr by auto
  show "part_at cm' ep (surviving cm cm' m) key = part_at cm ep m key"
  proof (cases "a = p")
    case True
    with scan_owner [OF ok cm' a] p(1) b have "b = a" by simp
    with True at a b show ?thesis by (simp add: part_at_def surviving_def)
  next
    case False
    with at a b show ?thesis by (auto simp: part_at_def surviving_def)
  qed
qed

lemma surviving_sub: "surviving cm cm' m \<subseteq>\<^sub>m m"
  by (auto simp: map_le_def surviving_def split: if_splits)

lemma survivors_hold:
  assumes ok: "cluster_ok cm" and ring: "cm_ring cm \<noteq> None" and cm': "cm' = fst (check_heartbeat_timeouts now stamps cm)"
    and ring': "cm_ring cm' \<noteq> None" and own: "own_addresses cm" and hold: "holds_parts cm cfg net m"
    and ready: "nodes_ready alloc room cfg cm net"
  shows "holds_parts cm' cfg (machines_left cm' net) (surviving cm cm' m)"
    and "\<forall>key ep. owner_address cm' key = Some ep \<longrightarrow> roomy alloc room (cfg ep)"
proof -
  have addr: "member_address cm' = member_address cm" unfolding cm' by (rule scan_address [OF ok])
  have ok': "cluster_ok cm'" unfolding cm' by (rule cluster_ok_scan [OF ok])
  have there: "(\<exists>b\<in>ring_members cm'. member_address cm' b = Some ep) \<and> net ep \<noteq> None \<and> roomy alloc room (cfg ep)"
    if ep: "owner_address cm' key = Some ep" for key ep
  proof -
    obtain b where b: "get_node_for_key cm' key = Inr (Some b)" "routable cm' b" "b \<in> ring_members cm'"
      by (rule owner_of_key [OF ok' ring'])
    with ep have "member_address cm' b = Some ep" by (simp add: owner_address_def)
    moreover have "routable cm b" using b(2) scan_routable [OF ok] unfolding cm' by blast
    ultimately show ?thesis using ready b(3) unfolding nodes_ready_def addr by blast
  qed
  then show "\<forall>key ep. owner_address cm' key = Some ep \<longrightarrow> roomy alloc room (cfg ep)" by blast
  have "machines_left cm' net ep \<noteq> None" if "owner_address cm' key = Some ep" for key ep
    using there [OF that] by (simp add: machines_left_def restrict_map_def)
  moreover have "mirrors (cfg ep) sv (part_at cm' ep (surviving cm cm' m))" if "machines_left cm' net ep = Some sv" for ep sv
  proof -
    from that obtain p where p: "p \<in> ring_members cm'" "member_address cm' p = Some ep" and sv: "net ep = Some sv"
      by (auto simp: machines_left_def restrict_map_def split: if_splits)
    have "mirrors (cfg ep) sv (part_at cm ep m)" using hold sv unfolding holds_parts_def by blast
    then show ?thesis by (simp only: surviving_parts [OF ok ring cm' ring' own p])
  qed
  moreover have "finite (dom (surviving cm cm' m))"
    using hold map_le_implies_dom_le [OF surviving_sub] finite_subset unfolding holds_parts_def by metis
  ultimately show "holds_parts cm' cfg (machines_left cm' net) (surviving cm cm' m)" unfolding holds_parts_def by blast
qed

section \<open>An iteration of the failure detection loop\<close>

lemma fold_open_frame:
  "n \<notin> set ns \<Longrightarrow> circuit_of (fold (open_breaker clock) ns cb) n = circuit_of cb n"
  by (induction ns arbitrary: cb) (simp_all add: open_breaker_frame)

lemma iteration_closed:
  assumes ok: "cluster_ok (gw_cluster g)" and closed: "closed_on (routable (gw_cluster g)) (gw_breaker g)"
    and g': "g' = failure_detection_iteration now stamps clock g"
  shows "closed_on (routable (gw_cluster g')) (gw_breaker g')"
  unfolding closed_on_def
proof (intro allI impI)
  fix n assume n: "routable (gw_cluster g') n"
  obtain cm dead where scan: "check_heartbeat_timeouts now stamps (gw_cluster g) = (cm, dead)" by fastforce
  then have cm: "gw_cluster g' = cm" and cb: "gw_breaker g' = fold (open_breaker clock) dead (gw_breaker g)"
    by (simp_all add: g' failure_detection_iteration_def)
  note facts = scan_facts [OF cluster_ok_keys [OF ok] scan]
  have "n \<notin> set dead"
  proof
    assume "n \<in> set dead"
    then have "newly_dead_by now (heartbeat_timeout_s (gw_cluster g)) (the (node_of (gw_cluster g) n))" and "node_of (gw_cluster g) n \<noteq> None"
      unfolding facts(5) by (auto simp: map_of_eq_None)
    then have "status_of cm n = Some DEAD" by (auto simp: status_of_def facts(1) newly_dead_by_def)
    with n cm show False by (simp add: routable_def)
  qed
  then have "circuit_of (gw_breaker g') n = circuit_of (gw_breaker g) n" unfolding cb by (rule fold_open_frame)
  moreover have "routable (gw_cluster g) n" using n scan_routable [OF ok, of now stamps n] by (simp add: cm scan)
  ultimately show "breaker_state_of (gw_breaker g') n = CLOSED" using closed by (simp add: closed_on_def breaker_state_of_def)
qed

text \<open>What the operations leave alone.\<close>

definition same_machines :: "network \<Rightarrow> network \<Rightarrow> bool" where
  "same_machines net net' \<longleftrightarrow> dom net' = dom net"

lemma same_machines_refl [simp]: "same_machines net net"
  by (simp add: same_machines_def)

lemma dom_replaced: "net ep = Some x \<Longrightarrow> same_machines net (net(ep \<mapsto> y))"
  by (simp add: same_machines_def insert_absorb domI)

lemma call_network:
  assumes "call_over_http lib alloc dumps fallback t q net = Some (r, net')"
  shows "same_machines net net'"
proof (cases "net (endpoint_of_request q)")
  case (Some sv)
  with assms obtain sv' where "net' = net(endpoint_of_request q \<mapsto> sv')"
    by (auto simp: call_over_http_def split: option.splits)
  with dom_replaced [where net = net, OF Some] show ?thesis by simp
qed (use assms in \<open>simp add: call_over_http_def same_machines_def\<close>)

lemma finish_cluster:
  "gw_cluster (snd (get_key_finish finish q outcome g)) = gw_cluster g"
  "gw_cluster (snd (put_key_finish finish pin key zone q outcome g)) = gw_cluster g"
  "gw_cluster (snd (delete_key_finish finish q outcome g)) = gw_cluster g"
  by (auto simp: get_key_finish_def put_key_finish_def delete_key_finish_def Let_def split: prod.split sum.split option.split)

lemma client_step_cluster:
  "system_step lib alloc dumps fallback (Client_Get t clock finish key zone) (g, net) = Some (r, g', net') \<Longrightarrow>
     gw_cluster g' = gw_cluster g \<and> same_machines net net'"
  "system_step lib alloc dumps fallback (Client_Put t start finish pin key zone put) (g, net) = Some (r, g', net') \<Longrightarrow>
     gw_cluster g' = gw_cluster g \<and> same_machines net net'"
  "system_step lib alloc dumps fallback (Client_Delete t start finish key) (g, net) = Some (r, g', net') \<Longrightarrow>
     gw_cluster g' = gw_cluster g \<and> same_machines net net'"
  by (auto simp: client_get_def client_put_def client_delete_def put_key_start_def delete_key_start_def split_beta finish_cluster
      get_key_start_cluster primary_start_cluster dest: call_network split: sum.splits option.splits)

lemma system_step_keeps:
  assumes s: "system_step lib alloc dumps fallback op (g, net) = Some (r, g', net')" and ok: "cluster_ok (gw_cluster g)"
  shows "same_machines net net' \<and> cluster_ok (gw_cluster g')"
proof (cases op)
  case (Node_Heartbeat t1 s1 t2 s2 p)
  have "cluster_ok (the (snd (heartbeat t1 s1 t2 s2 p (Some (gw_cluster g)))))"
    using cluster.inv_run [OF ok] by (simp add: heartbeat_run)
  with s Node_Heartbeat show ?thesis by (auto simp: same_machines_def split: prod.splits)
next
  case (Node_Purge ep clock)
  show ?thesis
  proof (cases "net ep")
    case (Some sv)
    with s Node_Purge obtain sv' where "net' = net(ep \<mapsto> sv')" "g' = g" by auto
    with dom_replaced [where net = net, OF Some] ok show ?thesis by simp
  qed (use assms Node_Purge in \<open>simp add: same_machines_def\<close>)
qed (use s ok client_step_cluster in metis)+

lemma system_run_keeps:
  "run_with (system_step lib alloc dumps fallback) ops (g, net) = Some (rs, g', net') \<Longrightarrow> cluster_ok (gw_cluster g) \<Longrightarrow>
   same_machines net net' \<and> cluster_ok (gw_cluster g')"
proof (induction ops arbitrary: g net rs)
  case (Cons op ops)
  from Cons.prems(1) obtain r g1 net1 rs1 where s: "system_step lib alloc dumps fallback op (g, net) = Some (r, g1, net1)"
    and run: "run_with (system_step lib alloc dumps fallback) ops (g1, net1) = Some (rs1, g', net')"
    by (auto simp: bind_eq_Some_conv)
  from system_step_keeps [OF s Cons.prems(2)] Cons.IH [OF run] show ?case by (simp add: same_machines_def)
qed (simp add: same_machines_def)

text \<open>A cluster taken from a reachable state, its nodes just started, after any legal operations.\<close>

lemma served_as_map:
  assumes "reachable s as w" and "0 < set_replication_factor s"
    and "cm_ring (cluster_of w) \<noteq> None" and "node_of (cluster_of w) '''' = None"
    and "closed_on (routable (cluster_of w)) (breaker_of w)" and "nodes_ready alloc room cfg (cluster_of w) net"
    and "\<forall>ep sv. net ep = Some sv \<longrightarrow> (\<exists>now. CacheServer now (cfg ep) = Inr sv)"
    and "\<forall>v. reads_body lib dumps v 0"
    and "legal_run (map_step (home (cluster_of w) cfg)) (map_legal (live_address (cluster_of w)) room) ops Map.empty"
  obtains g net1 where "run_with (system_step lib alloc dumps fallback) ops (wd_gateway w, net)
      = Some (fst (run_spec (map_step (home (cluster_of w) cfg)) ops Map.empty), g, net1)"
    and "represents lib alloc dumps (cluster_of w) cfg room (g, net1)
      (snd (run_spec (map_step (home (cluster_of w) cfg)) ops Map.empty))"
    and "cluster_ok (gw_cluster g)" and "same_machines net net1" and "nodes_ready alloc room cfg (cluster_of w) net1"
proof -
  let ?cm = "cluster_of w"
  have ok: "cluster_ok ?cm" by (rule reachable_ok [OF assms(1)])
  then have ring: "ring_ok ?cm" by (simp add: cluster_ok_def)
  have rf: "0 < replication_factor ?cm" using reachable_cluster [OF assms(1)] assms(2) cluster_run_config by metis
  have "cluster_up ?cm" using ring rf assms(3,4) by (simp add: cluster_up_def)
  then have "represents lib alloc dumps ?cm cfg room (wd_gateway w, net) Map.empty"
    using assms(5,6,7,8) reachable_latency [OF assms(1)] unfolding nodes_ready_def by (intro represents_start) blast+
  from cluster.run [OF this assms(9), of fallback] obtain g net1 where
    run: "run_with (system_step lib alloc dumps fallback) ops (wd_gateway w, net)
      = Some (fst (run_spec (map_step (home ?cm cfg)) ops Map.empty), g, net1)"
    and rep: "represents lib alloc dumps ?cm cfg room (g, net1) (snd (run_spec (map_step (home ?cm cfg)) ops Map.empty))"
    by auto
  have kept: "same_machines net net1" "cluster_ok (gw_cluster g)" using system_run_keeps [OF run ok] by simp_all
  have "net1 ep \<noteq> None \<longleftrightarrow> net ep \<noteq> None" for ep using kept(1) by (metis same_machines_def domIff)
  then have "nodes_ready alloc room cfg ?cm net1" using assms(6) by (simp add: nodes_ready_def)
  with run rep kept show thesis by (intro that)
qed

text \<open>The relation of \<open>Cluster_Map\<close> survives an iteration, for what is left of the map.\<close>

lemma iteration_represents:
  assumes rep: "represents lib alloc dumps cm cfg room (g, net) m" and ok: "cluster_ok (gw_cluster g)"
    and own: "own_addresses cm" and ready: "nodes_ready alloc room cfg cm net"
    and g': "g' = failure_detection_iteration now stamps clock g" and ring': "cm_ring (gw_cluster g') \<noteq> None"
  shows "represents lib alloc dumps (gw_cluster g') cfg room (g', machines_left (gw_cluster g') net)
    (surviving cm (gw_cluster g') m)"
proof -
  let ?cm = "gw_cluster g" and ?cm' = "gw_cluster g'"
  have routes: "routes_as cm ?cm" and closed: "closed_on (routable cm) (gw_breaker g)" and lat: "latency_map (gw_zone g) = []"
    and hold: "holds_parts cm cfg net m" and reads: "\<forall>v. reads_body lib dumps v 0"
    using rep unfolding represents_def gateway_up_def by simp_all
  from routes have addr: "member_address ?cm = member_address cm" and up: "cluster_up ?cm" and "cm_ring ?cm = cm_ring cm"
    by (simp_all add: routes_as_def)
  then have route: "get_node_for_key ?cm = get_node_for_key cm" by (intro ext) (simp add: get_node_for_key_def)
  note same = routes_as_owner [OF routes] routes_as_routable [OF routes]
  have cm': "?cm' = fst (check_heartbeat_timeouts now stamps ?cm)" unfolding g' by (rule failure_iteration_cluster)
  have "holds_parts ?cm cfg net m" using hold by (simp add: holds_parts_def part_at_def [abs_def] same)
  moreover have "own_addresses ?cm" "nodes_ready alloc room cfg ?cm net"
    using own ready unfolding own_addresses_def nodes_ready_def addr same by simp_all
  moreover have "cm_ring ?cm \<noteq> None" using up by (simp add: cluster_up_def)
  ultimately have left: "holds_parts ?cm' cfg (machines_left ?cm' net) (surviving ?cm ?cm' m)"
    "\<forall>key ep. owner_address ?cm' key = Some ep \<longrightarrow> roomy alloc room (cfg ep)"
    using survivors_hold [OF ok _ cm' ring', where net = net and m = m and cfg = cfg] by blast+
  have "surviving ?cm ?cm' m = surviving cm ?cm' m" by (simp add: surviving_def [abs_def] route)
  moreover have "cluster_up ?cm'"
    using up ring' cluster_ok_scan [OF ok, of now stamps] scan_node_of [OF ok, of now stamps "''''"]
      cluster_step_config [of ?cm "Scan now stamps"] by (simp add: cluster_up_def cm' cluster_ok_def)
  moreover have "closed_on (routable ?cm') (gw_breaker g')"
    by (rule iteration_closed [OF ok _ g']) (use closed in \<open>simp add: same\<close>)
  moreover have "gw_zone g' = gw_zone g" by (simp add: g' failure_detection_iteration_def split_beta)
  ultimately show ?thesis using left reads lat by (simp add: represents_def gateway_up_def routes_as_def)
qed

section \<open>Property\<close>

text \<open>C5 The dead take only their keys with them. When, after any sequence of operations on a cluster that is
  one map, an iteration of the failure detection loop takes nodes off the ring and their machines are
  gone, the gateway goes on as the map without the keys those nodes owned: every further sequence of
  operations is answered as that map would, and no key is lost whose owner is still on the ring.\<close>

theorem death_loses_only_its_keys:
  assumes "reachable s as w" and "0 < set_replication_factor s"
    and "cm_ring (cluster_of w) \<noteq> None" and "node_of (cluster_of w) '''' = None"
    and "closed_on (routable (cluster_of w)) (breaker_of w)" and "own_addresses (cluster_of w)"
    and "nodes_ready alloc room cfg (cluster_of w) net"
    and "\<forall>ep sv. net ep = Some sv \<longrightarrow> (\<exists>now. CacheServer now (cfg ep) = Inr sv)"
    and "\<forall>v. reads_body lib dumps v 0"
    and "legal_run (map_step (home (cluster_of w) cfg)) (map_legal (live_address (cluster_of w)) room) ops Map.empty"
    and "m = snd (run_spec (map_step (home (cluster_of w) cfg)) ops Map.empty)"
    and "run_with (system_step lib alloc dumps fallback) ops (wd_gateway w, net) = Some (rs, g, net1)"
    and "g' = failure_detection_iteration now stamps clock g" and "cm_ring (gw_cluster g') \<noteq> None"
    and "left = surviving (cluster_of w) (gw_cluster g') m"
    and "legal_run (map_step (home (gw_cluster g') cfg)) (map_legal (live_address (gw_cluster g')) room) ops' left"
  shows "(\<exists>g2 net2. run_with (system_step lib alloc dumps fallback) ops' (g', machines_left (gw_cluster g') net1)
        = Some (fst (run_spec (map_step (home (gw_cluster g') cfg)) ops' left), g2, net2))
    \<and> (\<forall>key. left key = m key
        \<or> (\<exists>n. get_node_for_key (cluster_of w) key = Inr (Some n) \<and> n \<notin> ring_members (gw_cluster g')))"
proof -
  let ?cm = "cluster_of w"
  have ok: "cluster_ok ?cm" by (rule reachable_ok [OF assms(1)])
  obtain rep: "represents lib alloc dumps ?cm cfg room (g, net1) m" and kept: "cluster_ok (gw_cluster g)"
    and ready: "nodes_ready alloc room cfg ?cm net1"
    by (rule served_as_map [OF assms(1-5,7-10), of fallback]) (use assms(11,12) in simp)
  from iteration_represents [OF rep kept assms(6) ready assms(13,14)]
  have "represents lib alloc dumps (gw_cluster g') cfg room (g', machines_left (gw_cluster g') net1) left"
    unfolding assms(15) .
  from cluster.run [OF this assms(16), of fallback]
  have "\<exists>g2 net2. run_with (system_step lib alloc dumps fallback) ops' (g', machines_left (gw_cluster g') net1)
      = Some (fst (run_spec (map_step (home (gw_cluster g') cfg)) ops' left), g2, net2)" by auto
  moreover have "left key = m key \<or> (\<exists>n. get_node_for_key ?cm key = Inr (Some n) \<and> n \<notin> ring_members (gw_cluster g'))" for key
  proof -
    have routes: "cm_ring (gw_cluster g) = cm_ring ?cm" using rep unfolding represents_def gateway_up_def routes_as_def by simp
    then have route: "get_node_for_key (gw_cluster g) key = get_node_for_key ?cm key" by (simp add: get_node_for_key_def)
    obtain n where n: "get_node_for_key ?cm key = Inr (Some n)" by (rule owner_of_key [OF ok assms(3)])
    have cm': "gw_cluster g' = fst (check_heartbeat_timeouts now stamps (gw_cluster g))"
      unfolding assms(13) by (rule failure_iteration_cluster)
    show ?thesis
      using scan_owner [OF kept cm', of key n] n route by (auto simp: assms(15) surviving_def)
  qed
  ultimately show ?thesis by blast
qed

section \<open>Witness\<close>

text \<open>Two nodes; the first falls silent and dies at the third scan.\<close>

abbreviation pair_join :: "unit action" where
  "pair_join \<equiv> Post_Register 15 ''t'' \<lparr>reg_node_id = Some ''b'', reg_host = Some ''other'', reg_port = Some 8002,
     reg_zone = Some ''zone'', reg_cache_capacity = Some 100\<rparr>"

abbreviation pair_cluster :: cluster_manager where
  "pair_cluster \<equiv> cluster_run 15 3 [demo_join ''a'', Register 15 ''t'' ''b'' ''other'' 8002 ''zone'' 100, demo_scan 16, demo_scan 19]"

lemma pair_members:
  "node_of pair_cluster n = (if n = ''a'' then Some ((NodeMetadata 0 ''a'' ''host'' 8001 ''zone'')\<lparr>nm_status := SUSPECT, nm_failed_attempts := 2\<rparr>)
     else if n = ''b'' then Some (NodeMetadata 15 ''b'' ''other'' 8002 ''zone'') else None)"
  by (simp add: cluster_eval)

lemma pair_after:
  "status_of (fst (check_heartbeat_timeouts 22 (\<lambda>n. ''t'') pair_cluster)) ''a'' = Some DEAD"
  "status_of (fst (check_heartbeat_timeouts 22 (\<lambda>n. ''t'') pair_cluster)) ''b'' = Some ALIVE"
  using cluster_run_ok [of 15 3] cluster_run_config [of 15 3]
  by (simp_all add: status_of_def scan_node_of pair_members aged_def NodeMetadata_def DEAD_THRESHOLD_def del: foldl_Cons foldl.simps)

lemma pair_reached:
  "\<exists>w. reachable demo_settings [demo_register, pair_join, demo_loop 16, demo_loop 19] w \<and> cluster_of w = pair_cluster
    \<and> closed_on (routable (cluster_of w)) (breaker_of w)"
proof -
  obtain w0 where w0: "reachable demo_settings [demo_register] w0" "wd_gateway w0 = demo_gateway"
    using demo_registered by blast
  obtain w1 where w1: "gateway_step w0 pair_join w1"
    "cluster_of w1 = cluster_step (cluster_of w0) (Register 15 ''t'' ''b'' ''other'' 8002 ''zone'' 100)"
    "breaker_of w1 = breaker_of w0"
    by (simp add: step_simps set_cluster_def register_endpoint_def missing_fields_def Let_def)
  have run1: "reachable demo_settings [demo_register, pair_join] w1"
    using reachable_run [OF w0(1) gateway_run.step [OF w1(1) gateway_run.stop]] by simp
  have closed1: "closed_on (routable (gw_cluster (wd_gateway w1))) (gw_breaker (wd_gateway w1))"
    unfolding w1(3) w0(2) by (simp add: closed_on_def breaker_state_of_def CircuitBreaker_def)
  let ?g2 = "failure_detection_iteration 16 (\<lambda>n. ''t'') (\<lambda>n i. 16) (wd_gateway w1)"
  let ?g3 = "failure_detection_iteration 19 (\<lambda>n. ''t'') (\<lambda>n i. 19) ?g2"
  let ?w2 = "w1\<lparr>wd_gateway := ?g2\<rparr>" and ?w3 = "w1\<lparr>wd_gateway := ?g3\<rparr>"
  have step2: "gateway_step w1 (demo_loop 16) ?w2" by (rule gateway_step.failure_loop)
  have step3: "gateway_step ?w2 (demo_loop 19) ?w3" using gateway_step.failure_loop [of ?w2 19] by simp
  have "gateway_run w1 [demo_loop 16, demo_loop 19] ?w3"
    by (rule gateway_run.step [OF step2 gateway_run.step [OF step3 gateway_run.stop]])
  from reachable_run [OF run1 this] have r: "reachable demo_settings [demo_register, pair_join, demo_loop 16, demo_loop 19] ?w3"
    by simp
  have ok1: "cluster_ok (gw_cluster (wd_gateway w1))" using reachable_ok [OF run1] by simp
  then have ok2: "cluster_ok (gw_cluster ?g2)" by (simp add: failure_iteration_cluster cluster_ok_scan)
  have "closed_on (routable (gw_cluster ?g2)) (gw_breaker ?g2)" by (rule iteration_closed [OF ok1 closed1 refl])
  then have "closed_on (routable (gw_cluster ?g3)) (gw_breaker ?g3)" by (rule iteration_closed [OF ok2 _ refl])
  moreover have "gw_cluster ?g3 = pair_cluster" unfolding failure_iteration_cluster w1(2) w0(2) by simp
  ultimately show ?thesis using r by (intro exI [of _ ?w3]) simp
qed

abbreviation pair_put :: "time \<Rightarrow> string \<Rightarrow> system_op" where
  "pair_put t v \<equiv> Client_Put (at_time 1) t t t ''k'' None \<lparr>put_value = v, put_ttl = None\<rparr>"

theorem death_loses_only_its_keys_witness:
  "\<exists>w net rs g net1 r g2 net2. reachable demo_settings [demo_register, pair_join, demo_loop 16, demo_loop 19] w
    \<and> run_with (system_step text_lib (first_fit 2) text_body (Raised OtherError)) [pair_put 20 ''v1''] (wd_gateway w, net)
      = Some (rs, g, net1)
    \<and> status_of (gw_cluster (failure_detection_iteration 22 (\<lambda>n. ''t'') (\<lambda>n i. 22) g)) ''a'' = Some DEAD
    \<and> run_with (system_step text_lib (first_fit 2) text_body (Raised OtherError))
        [pair_put 23 ''v2'', Client_Get (at_time 24) (\<lambda>_. 24) 24 ''k'' None]
        (failure_detection_iteration 22 (\<lambda>n. ''t'') (\<lambda>n i. 22) g,
         machines_left (gw_cluster (failure_detection_iteration 22 (\<lambda>n. ''t'') (\<lambda>n i. 22) g)) net1)
      = Some ([r, Get_Reply (Answered \<lparr>gr_key = ''k'', gr_value = ''v2'', gr_node_id = ''node-1'', gr_zone = ''z''\<rparr>)], g2, net2)"
proof -
  obtain w where w: "reachable demo_settings [demo_register, pair_join, demo_loop 16, demo_loop 19] w"
    "cluster_of w = pair_cluster" "closed_on (routable (cluster_of w)) (breaker_of w)" using pair_reached by blast
  obtain sv where sv: "CacheServer 0 sample_config = Inr sv"
    by (simp add: CacheServer_def LRUCache_def sample_config_def)
  let ?net = "[(''host'', 8001) \<mapsto> sv, (''other'', 8002) \<mapsto> sv]" and ?cfg = "\<lambda>ep :: endpoint. sample_config"
  let ?step = "system_step text_lib (first_fit 2) text_body (Raised OtherError)" and ?m = "[''k'' \<mapsto> ''v1'']"
  have rf: "0 < set_replication_factor demo_settings" by (simp add: default_settings_def)
  have ok: "cluster_ok (cluster_of w)" by (rule reachable_ok [OF w(1)])
  note node = pair_members [folded w(2)]
  have ring: "cm_ring (cluster_of w) \<noteq> None" unfolding w(2) by (simp add: cluster_eval)
  have unnamed: "node_of (cluster_of w) '''' = None" by (simp add: node)
  have own: "own_addresses (cluster_of w)"
    by (auto simp: own_addresses_def member_address_def node NodeMetadata_def split: if_splits)
  have "roomy (first_fit 2) 1 sample_config" using sample_allocator by (simp add: roomy_def sample_config_def)
  then have ready: "nodes_ready (first_fit 2) 1 ?cfg (cluster_of w) ?net"
    by (auto simp: nodes_ready_def member_address_def node NodeMetadata_def split: if_splits)
  have new: "\<forall>ep sv'. ?net ep = Some sv' \<longrightarrow> (\<exists>now. CacheServer now sample_config = Inr sv')" using sv by (auto split: if_splits)
  have reads: "\<forall>v. reads_body text_lib text_body v 0" using text_reads by simp
  have legal: "legal_run (map_step (home (cluster_of w) ?cfg)) (map_legal (live_address (cluster_of w)) 1) [pair_put 20 ''v1''] Map.empty"
    using demo_key by simp
  have m: "?m = snd (run_spec (map_step (home (cluster_of w) ?cfg)) [pair_put 20 ''v1''] Map.empty)" by simp
  obtain g net1 where run: "run_with ?step [pair_put 20 ''v1''] (wd_gateway w, ?net)
      = Some (fst (run_spec (map_step (home (cluster_of w) ?cfg)) [pair_put 20 ''v1''] Map.empty), g, net1)"
    by (rule served_as_map [OF w(1) rf ring unnamed w(3) ready new reads legal])
  then obtain r0 where "?step (pair_put 20 ''v1'') (wd_gateway w, ?net) = Some (r0, g, net1)" by (auto simp: bind_eq_Some_conv)
  then have same: "gw_cluster g = pair_cluster" using client_step_cluster(2) w(2) by metis
  let ?g' = "failure_detection_iteration 22 (\<lambda>n. ''t'') (\<lambda>n i. 22) g"
  have after: "gw_cluster ?g' = fst (check_heartbeat_timeouts 22 (\<lambda>n. ''t'') pair_cluster)"
    by (simp only: failure_iteration_cluster same)
  have "ring_ok (gw_cluster ?g')" unfolding after using cluster_ok_scan [OF ok, unfolded w(2)] by (simp only: cluster_ok_def)
  then have ring': "cm_ring (gw_cluster ?g') \<noteq> None" using ring_ok_alive pair_after(2) unfolding after by blast
  let ?left = "surviving (cluster_of w) (gw_cluster ?g') ?m"
  let ?ops = "[pair_put 23 ''v2'', Client_Get (at_time 24) (\<lambda>_. 24) 24 ''k'' None]"
  have "insert ''k'' (dom ?left) = {''k''}" by (auto simp: surviving_def split: if_splits)
  then have "card (insert ''k'' (dom ?left)) \<le> 1" by (simp only: card.insert finite.emptyI card.empty empty_iff) simp
  then have legal': "legal_run (map_step (home (gw_cluster ?g') ?cfg)) (map_legal (live_address (gw_cluster ?g')) 1) ?ops ?left"
    using demo_key by simp
  have "\<exists>g2 net2. run_with ?step ?ops (?g', machines_left (gw_cluster ?g') net1)
      = Some (fst (run_spec (map_step (home (gw_cluster ?g') ?cfg)) ?ops ?left), g2, net2)"
    using death_loses_only_its_keys [OF w(1) rf ring unnamed w(3) own ready new reads legal m run refl ring' refl legal'] by blast
  moreover have "fst (run_spec (map_step (home (gw_cluster ?g') ?cfg)) ?ops ?left)
      = [fst (map_step (home (gw_cluster ?g') ?cfg) (pair_put 23 ''v2'') ?left),
         Get_Reply (Answered \<lparr>gr_key = ''k'', gr_value = ''v2'', gr_node_id = ''node-1'', gr_zone = ''z''\<rparr>)]"
    by (simp add: sample_config_def)
  moreover have "status_of (gw_cluster ?g') ''a'' = Some DEAD" unfolding after by (rule pair_after(1))
  ultimately show ?thesis using w(1) run by metis
qed

end
