(* ===== verification/Node_Join.thy ===== *)
theory Node_Join
  imports Node_Loss
begin

text \<open>
  What a cluster shows when a node joins: \<open>register_node\<close> of \<open>cluster_manager.py\<close> puts the new node on
  the ring, nothing moves the keys that are now its own, and the old owners keep their copies. First
  \<open>Cluster_Map\<close> for nodes that hold more than their part, then the join.
\<close>

section \<open>Nodes with copies left behind\<close>

text \<open>Every node has what the map says of the keys it owns; of other keys it may have anything, as long
  as all keys come from a set \<open>U\<close> that fits in a node.\<close>

definition covers ::
  "cluster_manager \<Rightarrow> (endpoint \<Rightarrow> node_config) \<Rightarrow> string set \<Rightarrow> network \<Rightarrow> (string \<rightharpoonup> string) \<Rightarrow> bool" where
  "covers cm cfg U net m \<longleftrightarrow> (\<forall>key ep. owner_address cm key = Some ep \<longrightarrow> net ep \<noteq> None)
     \<and> (\<forall>ep sv. net ep = Some sv \<longrightarrow> (\<exists>f. mirrors (cfg ep) sv f \<and> dom f \<subseteq> U
          \<and> (\<forall>key. owner_address cm key = Some ep \<longrightarrow> f key = m key)))"

definition stands_for ::
  "'j json_lib \<Rightarrow> allocator \<Rightarrow> body_encoder \<Rightarrow> cluster_manager \<Rightarrow> (endpoint \<Rightarrow> node_config) \<Rightarrow> nat \<Rightarrow> string set
    \<Rightarrow> gateway \<times> network \<Rightarrow> (string \<rightharpoonup> string) \<Rightarrow> bool" where
  "stands_for lib alloc dumps cm cfg room U gn m \<longleftrightarrow> (\<forall>v. reads_body lib dumps v 0)
     \<and> (\<forall>key ep. owner_address cm key = Some ep \<longrightarrow> roomy alloc room (cfg ep))
     \<and> gateway_up cm (fst gn) \<and> finite U \<and> card U \<le> room \<and> covers cm cfg U (snd gn) m"

text \<open>A step the map describes that writes a key of \<open>U\<close>.\<close>

fun key_put :: "system_op \<Rightarrow> string option" where
  "key_put (Client_Put _ _ _ _ key _ _) = Some key"
| "key_put _ = None"

definition legal_within :: "string set \<Rightarrow> (string \<rightharpoonup> endpoint) \<Rightarrow> nat \<Rightarrow> system_op \<Rightarrow> (string \<rightharpoonup> string) \<Rightarrow> bool" where
  "legal_within U members room op m \<longleftrightarrow> map_legal members room op m \<and> (\<forall>key. key_put op = Some key \<longrightarrow> key \<in> U)"

lemma stands_for_owner:
  assumes "stands_for lib alloc dumps cm cfg room U (g, net) m"
  obtains ep sv f where "owner_address cm key = Some ep" and "net ep = Some sv" and "mirrors (cfg ep) sv f"
    and "dom f \<subseteq> U" and "\<forall>key. owner_address cm key = Some ep \<longrightarrow> f key = m key" and "roomy alloc room (cfg ep)"
proof -
  from assms have gw: "gateway_up cm g" and c: "covers cm cfg U net m" by (simp_all add: stands_for_def)
  obtain ep where ep: "owner_address cm key = Some ep" using get_start_up [OF gw, of "\<lambda>_. 0" key None] by blast
  with c obtain sv where sv: "net ep = Some sv" unfolding covers_def by blast
  with c obtain f where "mirrors (cfg ep) sv f" "dom f \<subseteq> U" "\<forall>key. owner_address cm key = Some ep \<longrightarrow> f key = m key"
    unfolding covers_def by blast
  moreover have "roomy alloc room (cfg ep)" using assms ep unfolding stands_for_def by blast
  ultimately show thesis using ep sv that by blast
qed

lemma covers_update:
  assumes c: "covers cm cfg U net m" and owner: "owner_address cm key = Some ep"
    and f: "mirrors (cfg ep) sv (f(key := x))" "dom (f(key := x)) \<subseteq> U" "\<And>k. owner_address cm k = Some ep \<Longrightarrow> f k = m k"
  shows "covers cm cfg U (net(ep \<mapsto> sv)) (m(key := x))"
  unfolding covers_def
proof (intro conjI allI impI)
  fix k ep' assume "owner_address cm k = Some ep'"
  with c have "net ep' \<noteq> None" unfolding covers_def by blast
  then show "(net(ep \<mapsto> sv)) ep' \<noteq> None" by simp
next
  fix ep' sv' assume sv': "(net(ep \<mapsto> sv)) ep' = Some sv'"
  show "\<exists>f. mirrors (cfg ep') sv' f \<and> dom f \<subseteq> U \<and> (\<forall>k. owner_address cm k = Some ep' \<longrightarrow> f k = (m(key := x)) k)"
  proof (cases "ep' = ep")
    case True
    with sv' f show ?thesis by (intro exI [of _ "f(key := x)"]) auto
  next
    case False
    with sv' c obtain f' where "mirrors (cfg ep') sv' f'" "dom f' \<subseteq> U" "\<forall>k. owner_address cm k = Some ep' \<longrightarrow> f' k = m k"
      unfolding covers_def by fastforce
    with owner False show ?thesis by (intro exI [of _ f']) auto
  qed
qed

lemma covers_same:
  assumes "covers cm cfg U net m" and "mirrors (cfg ep) sv f" and "dom f \<subseteq> U"
    and "\<And>k. owner_address cm k = Some ep \<Longrightarrow> f k = m k"
  shows "covers cm cfg U (net(ep \<mapsto> sv)) m"
  using assms unfolding covers_def by (auto split: if_splits)

lemma get_covered:
  assumes rep: "stands_for lib alloc dumps cm cfg room U (g, net) m" and key: "url_plain key"
  shows "\<exists>gn'. system_step lib alloc dumps fallback (Client_Get t clock finish key zone) (g, net)
      = Some (fst (map_step (home cm cfg) (Client_Get t clock finish key zone) m), gn')
    \<and> stands_for lib alloc dumps cm cfg room U gn' m"
proof -
  from rep have gw: "gateway_up cm g" and c: "covers cm cfg U net m" by (simp_all add: stands_for_def)
  from rep obtain ep sv f where o: "owner_address cm key = Some ep" "net ep = Some sv" "mirrors (cfg ep) sv f"
    and f: "dom f \<subseteq> U" "\<forall>key. owner_address cm key = Some ep \<longrightarrow> f key = m key" by (rule stands_for_owner [where key = key])
  from client_get_at [where net = net, OF gw o key, of lib alloc dumps fallback t clock finish zone] obtain g' sv' where
    "client_get lib alloc dumps fallback t clock finish key zone g net = Some (case m key of
        Some v \<Rightarrow> Answered \<lparr>gr_key = key, gr_value = v, gr_node_id = nc_node_id (cfg ep), gr_zone = nc_zone (cfg ep)\<rparr>
      | None \<Rightarrow> key_not_found, g', net(ep \<mapsto> sv'))" "gateway_up cm g'" and sv': "mirrors (cfg ep) sv' f"
    unfolding f(2) [rule_format, OF o(1)] by blast
  with rep o(1) covers_same [OF c sv' f(1) f(2) [rule_format]] show ?thesis
    by (cases "m key") (auto simp: stands_for_def)
qed

lemma put_covered:
  assumes rep: "stands_for lib alloc dumps cm cfg room U (g, net) m"
    and legal: "legal_within U members room (Client_Put t start finish pin key zone put) m"
  shows "\<exists>gn'. system_step lib alloc dumps fallback (Client_Put t start finish pin key zone put) (g, net)
      = Some (fst (map_step (home cm cfg) (Client_Put t start finish pin key zone put) m), gn')
    \<and> stands_for lib alloc dumps cm cfg room U gn' (m(key \<mapsto> put_value put))"
proof -
  from rep have gw: "gateway_up cm g" and c: "covers cm cfg U net m" and U: "finite U" "card U \<le> room"
    and body: "reads_body lib dumps (put_value put) 0" by (simp_all add: stands_for_def)
  from legal have key: "url_plain key" and ttl: "put_ttl put \<in> {None, Some 0}" and within: "key \<in> U"
    by (simp_all add: legal_within_def)
  from rep obtain ep sv f where o: "owner_address cm key = Some ep" "net ep = Some sv" "mirrors (cfg ep) sv f"
    and f: "dom f \<subseteq> U" "\<forall>key. owner_address cm key = Some ep \<longrightarrow> f key = m key" "roomy alloc room (cfg ep)"
    by (rule stands_for_owner [where key = key])
  have "card (dom f) < card U" if "f key = None"
    by (rule psubset_card_mono [OF U(1)]) (use f(1) within that in auto)
  then have fits: "f key \<noteq> None \<or> card (dom f) < room" using U(2) by (cases "f key") (simp_all add: less_le_trans)
  from client_put_at [where net = net, OF gw o key ttl body f(3) fits, of fallback t start finish pin zone] obtain g' sv' where
    "client_put lib alloc dumps fallback t start finish pin key zone put g net
      = Some (Answered \<lparr>pr_status = (if m key \<noteq> None then ''updated'' else ''created''), pr_key = key,
          pr_node_id = nc_node_id (cfg ep)\<rparr>, g', net(ep \<mapsto> sv'))"
    "gateway_up cm g'" and sv': "mirrors (cfg ep) sv' (f(key \<mapsto> put_value put))"
    unfolding f(2) [rule_format, OF o(1)] by blast
  moreover have "covers cm cfg U (net(ep \<mapsto> sv')) (m(key \<mapsto> put_value put))"
    by (rule covers_update [OF c o(1) sv' _ f(2) [rule_format]]) (use f(1) within in auto)
  ultimately show ?thesis using rep o(1) by (auto simp: stands_for_def)
qed

lemma delete_covered:
  assumes rep: "stands_for lib alloc dumps cm cfg room U (g, net) m" and key: "url_plain key"
  shows "\<exists>gn'. system_step lib alloc dumps fallback (Client_Delete t start finish key) (g, net)
      = Some (fst (map_step (home cm cfg) (Client_Delete t start finish key) m), gn')
    \<and> stands_for lib alloc dumps cm cfg room U gn' (m(key := None))"
proof -
  from rep have gw: "gateway_up cm g" and c: "covers cm cfg U net m" by (simp_all add: stands_for_def)
  from rep obtain ep sv f where o: "owner_address cm key = Some ep" "net ep = Some sv" "mirrors (cfg ep) sv f"
    and f: "dom f \<subseteq> U" "\<forall>key. owner_address cm key = Some ep \<longrightarrow> f key = m key" by (rule stands_for_owner [where key = key])
  from client_delete_at [where net = net, OF gw o key, of lib alloc dumps fallback t start finish] obtain g' sv' where
    "client_delete lib alloc dumps fallback t start finish key g net = Some (if m key \<noteq> None
      then Answered \<lparr>dr_status = ''deleted'', dr_key = key\<rparr> else key_not_found, g', net(ep \<mapsto> sv'))"
    "gateway_up cm g'" and sv': "mirrors (cfg ep) sv' (f(key := None))"
    unfolding f(2) [rule_format, OF o(1)] by blast
  moreover have "covers cm cfg U (net(ep \<mapsto> sv')) (m(key := None))"
    by (rule covers_update [OF c o(1) sv' _ f(2) [rule_format]]) (use f(1) in auto)
  ultimately show ?thesis using rep o(1) by (auto simp: stands_for_def)
qed

lemma purge_covered:
  assumes rep: "stands_for lib alloc dumps cm cfg room U (g, net) m"
  shows "\<exists>gn'. system_step lib alloc dumps fallback (Node_Purge ep clock) (g, net)
      = Some (fst (map_step (home cm cfg) (Node_Purge ep clock) m), gn')
    \<and> stands_for lib alloc dumps cm cfg room U gn' m"
proof (cases "net ep")
  case (Some sv)
  from rep have c: "covers cm cfg U net m" by (simp add: stands_for_def)
  with Some obtain f where f: "mirrors (cfg ep) sv f" "dom f \<subseteq> U" "\<forall>key. owner_address cm key = Some ep \<longrightarrow> f key = m key"
    unfolding covers_def by blast
  from mirrors_purge [OF f(1), of clock] obtain sv' where "purge_tick clock sv = Some sv'" "mirrors (cfg ep) sv' f" by blast
  with Some rep covers_same [OF c _ f(2)] f(3) show ?thesis by (simp add: stands_for_def)
qed (use rep in simp)

interpretation covered: simulation "system_step lib alloc dumps fallback" "map_step (home cm cfg)"
  "stands_for lib alloc dumps cm cfg room U" "legal_within U (live_address cm) room"
proof
  fix gn m op
  assume rep: "stands_for lib alloc dumps cm cfg room U gn m" and legal: "legal_within U (live_address cm) room op m"
  obtain g net where gn: "gn = (g, net)" by fastforce
  from legal have map: "map_legal (live_address cm) room op m" by (simp add: legal_within_def)
  show "\<exists>gn'. system_step lib alloc dumps fallback op gn = Some (fst (map_step (home cm cfg) op m), gn')
    \<and> stands_for lib alloc dumps cm cfg room U gn' (snd (map_step (home cm cfg) op m))"
  proof (cases op)
    case (Client_Get t clock finish key zone)
    from get_covered [OF rep [unfolded gn], of key] map show ?thesis
      unfolding gn Client_Get map_legal.simps map_step.simps snd_conv by blast
  next
    case (Client_Put t start finish pin key zone put)
    from put_covered [OF rep [unfolded gn]] legal show ?thesis
      unfolding gn Client_Put map_step.simps snd_conv by blast
  next
    case (Client_Delete t start finish key)
    from delete_covered [OF rep [unfolded gn], of key] map show ?thesis
      unfolding gn Client_Delete map_legal.simps map_step.simps snd_conv by blast
  next
    case (Node_Heartbeat t1 s1 t2 s2 p)
    from rep have gw: "gateway_up cm g" by (simp add: stands_for_def gn)
    from map have "live_address cm (hb_node_id p) = Some (hb_host p, hb_port p)" by (simp add: Node_Heartbeat)
    from gateway_beat [OF gw this, of lib alloc dumps fallback t1 s1 t2 s2 net] rep show ?thesis
      unfolding gn Node_Heartbeat by (auto simp: stands_for_def)
  next
    case (Node_Purge ep clock)
    from purge_covered [OF rep [unfolded gn]] show ?thesis
      unfolding gn Node_Purge map_step.simps snd_conv by blast
  qed
qed

text \<open>A cluster that is exactly a map is one with no copies left behind.\<close>

lemma represents_stands_for:
  assumes "represents lib alloc dumps cm cfg room gn m" and "finite U" and "card U \<le> room" and "dom m \<subseteq> U"
  shows "stands_for lib alloc dumps cm cfg room U gn m"
proof -
  from assms(1) have hold: "holds_parts cm cfg (snd gn) m" by (simp add: represents_def)
  have part: "dom (part_at cm ep m) \<subseteq> U" for ep using assms(4) by (auto simp: part_at_def split: if_splits)
  have "covers cm cfg U (snd gn) m"
    unfolding covers_def
  proof (intro conjI allI impI)
    fix ep sv assume "snd gn ep = Some sv"
    with hold have "mirrors (cfg ep) sv (part_at cm ep m)" unfolding holds_parts_def by blast
    with part show "\<exists>f. mirrors (cfg ep) sv f \<and> dom f \<subseteq> U \<and> (\<forall>key. owner_address cm key = Some ep \<longrightarrow> f key = m key)"
      by (intro exI [of _ "part_at cm ep m"]) (simp add: part_owned)
  qed (use hold holds_parts_at in blast)
  with assms show ?thesis by (simp add: represents_def stands_for_def)
qed

section \<open>A join\<close>

lemma join_cluster:
  assumes ok: "cluster_ok cm" and new: "node_of cm c = None" and cm': "cm' = register_node now stamp c host port zone cap cm"
  shows "cluster_ok cm'" and "node_of cm' n = (if n = c then Some (NodeMetadata now c host port zone) else node_of cm n)"
    and "replication_factor cm' = replication_factor cm"
    and "n \<in> ring_members cm' \<longleftrightarrow> n = c \<or> status_of cm n = Some ALIVE" and "cm_ring cm' \<noteq> None"
proof -
  show ok': "cluster_ok cm'" unfolding cm' by (rule cluster_ok_register [OF ok])
  show node: "node_of cm' n = (if n = c then Some (NodeMetadata now c host port zone) else node_of cm n)" for n
    by (simp add: cm' register_node_def Let_def dict_maps)
  show "replication_factor cm' = replication_factor cm" by (simp add: cm' register_node_def Let_def)
  let ?cm1 = "cm\<lparr>cm_nodes := AList.update c (NodeMetadata now c host port zone) (cm_nodes cm)\<rparr>"
  have members: "ring_members cm' = ring_members (rebuild_hash_ring ?cm1)" by (simp add: cm' ring_members_def register_node_def Let_def)
  have "distinct (keys_of (cm_nodes ?cm1))" using cluster_ok_keys [OF ok] by (simp add: dict_distinct)
  from rebuilt_members [OF this, of n] have "n \<in> ring_members cm' \<longleftrightarrow> status_of ?cm1 n = Some ALIVE" unfolding members .
  then show "n \<in> ring_members cm' \<longleftrightarrow> n = c \<or> status_of cm n = Some ALIVE"
    by (auto simp: status_of_def dict_maps NodeMetadata_def)
  have "status_of cm' c = Some ALIVE" by (simp add: status_of_def node NodeMetadata_def)
  then show "cm_ring cm' \<noteq> None" using ok' ring_ok_alive by (auto simp: cluster_ok_def)
qed

text \<open>A key keeps its owner or goes to the new node.\<close>

lemma join_owner:
  assumes ok: "cluster_ok cm" and new: "node_of cm c = None" and cm': "cm' = register_node now stamp c host port zone cap cm"
    and live: "\<forall>n\<in>ring_members cm. status_of cm n = Some ALIVE"
    and a: "get_node_for_key cm key = Inr (Some a)" and b: "get_node_for_key cm' key = Inr (Some b)" and "b \<noteq> c"
  shows "b = a"
proof -
  note facts = join_cluster [OF ok new cm']
  have "b \<in> ring_members cm'" by (rule owner_among_survivors [OF facts(1) b])
  with facts(4) assms(7) have "status_of cm b = Some ALIVE" by simp
  with ok have b_in: "b \<in> ring_members cm" by (simp add: alive_on_ring cluster_ok_def)
  have "a \<in> ring_members cm" by (rule owner_among_survivors [OF ok a])
  with live facts(4) have "a \<in> ring_members cm'" by simp
  with step_owner [OF ok a, where e = "Register now stamp c host port zone cap" and b = b] b b_in show ?thesis
    by (simp add: cm')
qed

lemma join_keys:
  assumes ok: "cluster_ok cm" and ring: "cm_ring cm \<noteq> None" and new: "node_of cm c = None"
    and cm': "cm' = register_node now stamp c host port zone cap cm"
    and live: "\<forall>n\<in>ring_members cm. status_of cm n = Some ALIVE"
  shows "(if get_node_for_key cm' key = get_node_for_key cm key then m key else None)
    = (if get_node_for_key cm' key = Inr (Some c) then None else m key)"
proof -
  obtain a where a: "get_node_for_key cm key = Inr (Some a)" "routable cm a" by (rule owner_of_key [OF ok ring])
  with new have ne: "a \<noteq> c" using routable_known by blast
  obtain b where b: "get_node_for_key cm' key = Inr (Some b)"
    by (rule owner_of_key [OF join_cluster(1,5) [OF ok new cm'], of key])
  from join_owner [OF ok new cm' live a(1) b] a(1) b ne show ?thesis by auto
qed

text \<open>The nodes after a join, the new one empty.\<close>

lemma join_covers:
  assumes ok: "cluster_ok cm" and ring: "cm_ring cm \<noteq> None" and new: "node_of cm c = None"
    and cm': "cm' = register_node now stamp c host port zone cap cm"
    and live: "\<forall>n\<in>ring_members cm. status_of cm n = Some ALIVE"
    and free: "net (host, port) = None" "\<forall>n. member_address cm n \<noteq> Some (host, port)"
    and fresh: "mirrors (cfg (host, port)) sv0 Map.empty" and c: "covers cm cfg U net m"
    and ready: "nodes_ready alloc room cfg cm net" and roomy: "roomy alloc room (cfg (host, port))"
  shows "covers cm' cfg U (net((host, port) \<mapsto> sv0)) (surviving cm cm' m)"
    and "\<forall>key ep. owner_address cm' key = Some ep \<longrightarrow> roomy alloc room (cfg ep)"
proof -
  note facts = join_cluster [OF ok new cm']
  have addr: "member_address cm' n = (if n = c then Some (host, port) else member_address cm n)" for n
    by (simp add: member_address_def facts(2) NodeMetadata_def)
  have owner: "(ep = (host, port) \<and> b = c) \<or> (ep \<noteq> (host, port) \<and> b \<noteq> c \<and> get_node_for_key cm key = Inr (Some b)
      \<and> owner_address cm key = Some ep \<and> routable cm b \<and> member_address cm b = Some ep)"
    if b: "get_node_for_key cm' key = Inr (Some b)" and ep: "owner_address cm' key = Some ep" for key b ep
  proof (cases "b = c")
    case True
    with b ep show ?thesis by (simp add: owner_address_def addr)
  next
    case False
    obtain a where a: "get_node_for_key cm key = Inr (Some a)" "routable cm a" by (rule owner_of_key [OF ok ring])
    from join_owner [OF ok new cm' live a(1) b False] have "b = a" .
    with a b ep False free(2) show ?thesis by (auto simp: owner_address_def addr)
  qed
  have owned: "\<exists>b. get_node_for_key cm' key = Inr (Some b)" for key
    by (rule owner_of_key [OF facts(1,5), of key]) blast
  have there: "(net((host, port) \<mapsto> sv0)) ep \<noteq> None \<and> roomy alloc room (cfg ep)" if ep: "owner_address cm' key = Some ep" for key ep
  proof -
    obtain b where "get_node_for_key cm' key = Inr (Some b)" using owned by blast
    from owner [OF this ep] ready roomy show ?thesis unfolding nodes_ready_def by fastforce
  qed
  then show "\<forall>key ep. owner_address cm' key = Some ep \<longrightarrow> roomy alloc room (cfg ep)" by blast
  have "\<exists>f. mirrors (cfg ep) sv f \<and> dom f \<subseteq> U \<and> (\<forall>key. owner_address cm' key = Some ep \<longrightarrow> f key = surviving cm cm' m key)"
    if sv: "(net((host, port) \<mapsto> sv0)) ep = Some sv" for ep sv
  proof (cases "ep = (host, port)")
    case True
    have "surviving cm cm' m key = None" if ep: "owner_address cm' key = Some ep" for key
    proof -
      obtain b where b: "get_node_for_key cm' key = Inr (Some b)" using owned by blast
      with owner [OF b ep] True have "b = c" by simp
      moreover have "get_node_for_key cm key \<noteq> Inr (Some c)"
        using owner_of_key [OF ok ring, of key] new by (metis Inr_inject option.inject routable_known)
      ultimately show ?thesis using b by (auto simp: surviving_def)
    qed
    with fresh sv True show ?thesis by (intro exI [of _ Map.empty]) simp
  next
    case False
    with sv c obtain f where f: "mirrors (cfg ep) sv f" "dom f \<subseteq> U" "\<forall>key. owner_address cm key = Some ep \<longrightarrow> f key = m key"
      unfolding covers_def by fastforce
    have "f key = surviving cm cm' m key" if ep: "owner_address cm' key = Some ep" for key
    proof -
      obtain b where b: "get_node_for_key cm' key = Inr (Some b)" using owned by blast
      with owner [OF b ep] False f(3) show ?thesis by (auto simp: surviving_def)
    qed
    with f(1,2) show ?thesis by blast
  qed
  with there show "covers cm' cfg U (net((host, port) \<mapsto> sv0)) (surviving cm cm' m)" unfolding covers_def by blast
qed

text \<open>The gateway after the registration of a node, as \<open>/register\<close> leaves it.\<close>

definition joined_gateway :: "time \<Rightarrow> string \<Rightarrow> string \<Rightarrow> string \<Rightarrow> int \<Rightarrow> string \<Rightarrow> int \<Rightarrow> gateway \<Rightarrow> gateway" where
  "joined_gateway now stamp c host port zone cap g =
     g\<lparr>gw_cluster := the (snd (register_endpoint now stamp \<lparr>reg_node_id = Some c, reg_host = Some host, reg_port = Some port,
        reg_zone = Some zone, reg_cache_capacity = Some cap\<rparr> (Some (gw_cluster g))))\<rparr>"

lemma joined_frame [simp]:
  "gw_cluster (joined_gateway now stamp c host port zone cap g) = register_node now stamp c host port zone cap (gw_cluster g)"
  "gw_breaker (joined_gateway now stamp c host port zone cap g) = gw_breaker g"
  "gw_zone (joined_gateway now stamp c host port zone cap g) = gw_zone g"
  by (simp_all add: joined_gateway_def register_endpoint_def missing_fields_def Let_def)

text \<open>A node that may join: unknown, at an address of its own, its circuit not open from another life.\<close>

definition may_join :: "string \<Rightarrow> endpoint \<Rightarrow> gateway \<Rightarrow> network \<Rightarrow> bool" where
  "may_join c ep g net \<longleftrightarrow> c \<noteq> '''' \<and> node_of (gw_cluster g) c = None \<and> net ep = None
     \<and> (\<forall>n. member_address (gw_cluster g) n \<noteq> Some ep) \<and> breaker_state_of (gw_breaker g) c = CLOSED
     \<and> (\<forall>n\<in>ring_members (gw_cluster g). status_of (gw_cluster g) n = Some ALIVE)"

lemma join_stands_for:
  assumes rep: "stands_for lib alloc dumps cm cfg room U (g, net) m" and ok: "cluster_ok (gw_cluster g)"
    and may: "may_join c (host, port) g net" and ready: "nodes_ready alloc room cfg cm net"
    and sv: "CacheServer t0 (cfg (host, port)) = Inr sv0" and roomy: "roomy alloc room (cfg (host, port))"
    and g': "g' = joined_gateway now stamp c host port zone cap g"
  shows "stands_for lib alloc dumps (gw_cluster g') cfg room U (g', net((host, port) \<mapsto> sv0)) (surviving cm (gw_cluster g') m)"
proof -
  let ?cm = "gw_cluster g" and ?cm' = "gw_cluster g'"
  have routes: "routes_as cm ?cm" and closed: "closed_on (routable cm) (gw_breaker g)" and lat: "latency_map (gw_zone g) = []"
    and cov: "covers cm cfg U net m" and rest: "\<forall>v. reads_body lib dumps v 0" "finite U" "card U \<le> room"
    using rep unfolding stands_for_def gateway_up_def by simp_all
  from routes have addr: "member_address ?cm = member_address cm" and up: "cluster_up ?cm" and "cm_ring ?cm = cm_ring cm"
    by (simp_all add: routes_as_def)
  then have route: "get_node_for_key ?cm = get_node_for_key cm" by (intro ext) (simp add: get_node_for_key_def)
  note same = routes_as_owner [OF routes] routes_as_routable [OF routes]
  have ring: "cm_ring ?cm \<noteq> None" using up by (simp add: cluster_up_def)
  from may have new: "node_of ?cm c = None" and free: "net (host, port) = None" "\<forall>n. member_address ?cm n \<noteq> Some (host, port)"
    and live: "\<forall>n\<in>ring_members ?cm. status_of ?cm n = Some ALIVE" by (simp_all add: may_join_def)
  have cm': "?cm' = register_node now stamp c host port zone cap ?cm" by (simp add: g')
  have "covers ?cm cfg U net m" using cov by (simp add: covers_def same)
  moreover have "nodes_ready alloc room cfg ?cm net" using ready by (simp add: nodes_ready_def addr same)
  ultimately have after: "covers ?cm' cfg U (net((host, port) \<mapsto> sv0)) (surviving ?cm ?cm' m)"
    "\<forall>key ep. owner_address ?cm' key = Some ep \<longrightarrow> roomy alloc room (cfg ep)"
    using join_covers [where net = net and cfg = cfg, OF ok ring new cm' live free mirrors_start [OF sv] _ _ roomy] by blast+
  note facts = join_cluster [OF ok new cm']
  have "cluster_up ?cm'"
    using up facts(1,3,5) facts(2) [of "''''"] may by (auto simp: cluster_up_def cluster_ok_def may_join_def)
  moreover have "closed_on (routable ?cm') (gw_breaker g')"
    using closed may facts(2) unfolding closed_on_def
    by (auto simp: g' may_join_def routable_def status_of_def same(2) [symmetric] simp del: joined_frame(1))
  moreover have "surviving ?cm ?cm' m = surviving cm ?cm' m" by (simp add: surviving_def [abs_def] route)
  ultimately show ?thesis using after rest lat by (simp add: stands_for_def gateway_up_def routes_as_def g')
qed

section \<open>Property\<close>

text \<open>C6 A join hides the keys it moves. When, after any sequence of operations on a cluster that is one
  map, an unknown node registers and all nodes on the ring are ALIVE, nothing moves its keys to it: the
  gateway goes on as the map without the keys that are now the new node's, every further sequence of
  operations is answered as that map would, and the value of such a key stays on the node that owned
  it before.\<close>

theorem join_hides_moved_keys:
  assumes "reachable s as w" and "0 < set_replication_factor s"
    and "cm_ring (cluster_of w) \<noteq> None" and "node_of (cluster_of w) '''' = None"
    and "closed_on (routable (cluster_of w)) (breaker_of w)" and "nodes_ready alloc room cfg (cluster_of w) net"
    and "\<forall>ep sv. net ep = Some sv \<longrightarrow> (\<exists>now. CacheServer now (cfg ep) = Inr sv)"
    and "\<forall>v. reads_body lib dumps v 0"
    and "legal_run (map_step (home (cluster_of w) cfg)) (map_legal (live_address (cluster_of w)) room) ops Map.empty"
    and "m = snd (run_spec (map_step (home (cluster_of w) cfg)) ops Map.empty)"
    and "run_with (system_step lib alloc dumps fallback) ops (wd_gateway w, net) = Some (rs, g, net1)"
    and "may_join c (host, port) g net1" and "CacheServer t0 (cfg (host, port)) = Inr sv0" and "roomy alloc room (cfg (host, port))"
    and "g' = joined_gateway now stamp c host port zone cap g" and "left = surviving (cluster_of w) (gw_cluster g') m"
    and "finite U" and "card U \<le> room" and "dom m \<subseteq> U"
    and "legal_run (map_step (home (gw_cluster g') cfg)) (legal_within U (live_address (gw_cluster g')) room) ops' left"
  shows "(\<exists>g2 net2. run_with (system_step lib alloc dumps fallback) ops' (g', net1((host, port) \<mapsto> sv0))
        = Some (fst (run_spec (map_step (home (gw_cluster g') cfg)) ops' left), g2, net2))
    \<and> (\<forall>key. left key = (if get_node_for_key (gw_cluster g') key = Inr (Some c) then None else m key))
    \<and> (\<forall>key ep. owner_address (cluster_of w) key = Some ep \<longrightarrow>
        (\<exists>sv f. (net1((host, port) \<mapsto> sv0)) ep = Some sv \<and> mirrors (cfg ep) sv f \<and> f key = m key))"
proof -
  let ?cm = "cluster_of w"
  obtain rep: "represents lib alloc dumps ?cm cfg room (g, net1) m" and kept: "cluster_ok (gw_cluster g)"
    and ready: "nodes_ready alloc room cfg ?cm net1"
    by (rule served_as_map [OF assms(1-9), of fallback]) (use assms(10,11) in simp)
  from join_stands_for [where net = net1 and cfg = cfg, OF represents_stands_for [OF rep assms(17-19)] kept assms(12) ready assms(13-15)]
  have "stands_for lib alloc dumps (gw_cluster g') cfg room U (g', net1((host, port) \<mapsto> sv0)) left" unfolding assms(16) .
  from covered.run [OF this assms(20), of fallback]
  have run: "\<exists>g2 net2. run_with (system_step lib alloc dumps fallback) ops' (g', net1((host, port) \<mapsto> sv0))
      = Some (fst (run_spec (map_step (home (gw_cluster g') cfg)) ops' left), g2, net2)" by auto
  have route: "get_node_for_key (gw_cluster g) = get_node_for_key ?cm" and ring1: "cm_ring (gw_cluster g) \<noteq> None"
    using rep assms(3) by (auto simp: represents_def gateway_up_def routes_as_def get_node_for_key_def fun_eq_iff)
  have cm': "gw_cluster g' = register_node now stamp c host port zone cap (gw_cluster g)" by (simp add: assms(15))
  from assms(12) have new: "node_of (gw_cluster g) c = None"
    and live: "\<forall>n\<in>ring_members (gw_cluster g). status_of (gw_cluster g) n = Some ALIVE" by (simp_all add: may_join_def)
  have keys: "left key = (if get_node_for_key (gw_cluster g') key = Inr (Some c) then None else m key)" for key
    unfolding assms(16) surviving_def route [symmetric] by (rule join_keys [OF kept ring1 new cm' live])
  have "\<exists>sv f. (net1((host, port) \<mapsto> sv0)) ep = Some sv \<and> mirrors (cfg ep) sv f \<and> f key = m key"
    if ep: "owner_address ?cm key = Some ep" for key ep
  proof -
    from rep have "holds_parts ?cm cfg net1 m" by (simp add: represents_def)
    from holds_parts_at [OF this ep] obtain sv where "net1 ep = Some sv" "mirrors (cfg ep) sv (part_at ?cm ep m)" .
    moreover from this(1) assms(12) have "ep \<noteq> (host, port)" by (auto simp: may_join_def)
    ultimately show ?thesis using part_owned [OF ep] by auto
  qed
  with run keys show ?thesis by blast
qed

section \<open>Witness\<close>

lemma primary_start_closed:
  "closed_on P (gw_breaker g) \<Longrightarrow> closed_on P (gw_breaker (the (snd (primary_start now key verb body (Some g)))))"
  by (auto simp: primary_start_def Let_def split_beta closed_after_probe split: sum.split)

lemma put_finish_closed:
  "put_key_finish finish pin key zone q outcome g = (Inr b, g') \<Longrightarrow> closed_on P (gw_breaker g) \<Longrightarrow> closed_on P (gw_breaker g')"
  by (cases outcome) (auto simp: put_key_finish_def call_finish_def Let_def closed_success split: if_splits option.splits)

lemma answered_put_closed:
  assumes "system_step lib alloc dumps fallback (Client_Put t start finish pin key zone put) (g, net)
      = Some (Put_Reply (Answered r), g', net')"
    and "closed_on P (gw_breaker g)"
  shows "closed_on P (gw_breaker g')"
proof -
  obtain r0 g1 where start: "put_key_start start key put (Some g) = (r0, g1)" by fastforce
  with primary_start_closed [OF assms(2)] have closed: "closed_on P (gw_breaker (the g1))"
    unfolding put_key_start_def by (metis snd_conv)
  have put: "client_put lib alloc dumps fallback t start finish pin key zone put g net = Some (Answered r, g', net')"
    using assms(1) by (auto split: option.splits)
  obtain q where "r0 = Inr q" using put start by (cases r0) (auto simp: client_put_def)
  with put start obtain outcome and b :: node_body where "put_key_finish finish pin key zone q outcome (the g1) = (Inr b, g')"
    by (auto simp: client_put_def respond_def split: option.splits prod.splits sum.splits)
  from put_finish_closed [OF this closed] show ?thesis .
qed

text \<open>One node holds a key, a second one registers, and the key is read again.\<close>

abbreviation demo_joined :: "gateway \<Rightarrow> gateway" where
  "demo_joined \<equiv> joined_gateway 2 ''t'' ''b'' ''other'' 8002 ''zone'' 100"

abbreviation reread :: system_op where
  "reread \<equiv> Client_Get (at_time 3) (\<lambda>_. 3) 3 ''k'' None"

lemma demo_single:
  "node_of (gw_cluster demo_gateway) n = (if n = ''a'' then Some (NodeMetadata 0 ''a'' ''host'' 8001 ''zone'') else None)"
  "cm_ring (gw_cluster demo_gateway) \<noteq> None" "\<forall>n\<in>ring_members (gw_cluster demo_gateway). n = ''a''"
  by (simp_all add: cluster_eval ring_members_def)

theorem join_hides_moved_keys_witness:
  "\<exists>w net rs g net1 sv g2 net2. reachable demo_settings [demo_register] w
    \<and> run_with (system_step text_lib (first_fit 2) text_body (Raised OtherError)) [pair_put 1 ''v1''] (wd_gateway w, net)
      = Some (rs, g, net1)
    \<and> may_join ''b'' (''other'', 8002) g net1
    \<and> run_with (system_step text_lib (first_fit 2) text_body (Raised OtherError)) [reread]
        (demo_joined g, net1((''other'', 8002) \<mapsto> sv))
      = Some ([Get_Reply (if get_node_for_key (gw_cluster (demo_joined g)) ''k'' = Inr (Some ''b'') then key_not_found
          else Answered \<lparr>gr_key = ''k'', gr_value = ''v1'', gr_node_id = ''node-1'', gr_zone = ''z''\<rparr>)], g2, net2)"
proof -
  obtain w where w: "reachable demo_settings [demo_register] w" "wd_gateway w = demo_gateway" using demo_registered by blast
  obtain sv where sv: "CacheServer 0 sample_config = Inr sv"
    by (simp add: CacheServer_def LRUCache_def sample_config_def)
  let ?net = "[(''host'', 8001) \<mapsto> sv]" and ?cfg = "\<lambda>ep :: endpoint. sample_config"
  let ?step = "system_step text_lib (first_fit 2) text_body (Raised OtherError)" and ?m = "[''k'' \<mapsto> ''v1'']"
  have rf: "0 < set_replication_factor demo_settings" by (simp add: default_settings_def)
  have ok: "cluster_ok (cluster_of w)" by (rule reachable_ok [OF w(1)])
  have node: "node_of (cluster_of w) n = (if n = ''a'' then Some (NodeMetadata 0 ''a'' ''host'' 8001 ''zone'') else None)"
    and ring: "cm_ring (cluster_of w) \<noteq> None" and only: "\<forall>n\<in>ring_members (cluster_of w). n = ''a''" for n
    unfolding w(2) by (rule demo_single)+
  have unnamed: "node_of (cluster_of w) '''' = None" by (simp add: node)
  have closed: "closed_on (routable (cluster_of w)) (breaker_of w)"
    unfolding w(2) by (simp add: closed_on_def breaker_state_of_def CircuitBreaker_def)
  have roomy: "roomy (first_fit 2) 1 sample_config" using sample_allocator by (simp add: roomy_def sample_config_def)
  then have ready: "nodes_ready (first_fit 2) 1 ?cfg (cluster_of w) ?net"
    by (auto simp: nodes_ready_def member_address_def node NodeMetadata_def split: if_splits)
  have new: "\<forall>ep sv'. ?net ep = Some sv' \<longrightarrow> (\<exists>now. CacheServer now sample_config = Inr sv')" using sv by (auto split: if_splits)
  have reads: "\<forall>v. reads_body text_lib text_body v 0" using text_reads by simp
  have legal: "legal_run (map_step (home (cluster_of w) ?cfg)) (map_legal (live_address (cluster_of w)) 1) [pair_put 1 ''v1''] Map.empty"
    using demo_key by simp
  have m: "?m = snd (run_spec (map_step (home (cluster_of w) ?cfg)) [pair_put 1 ''v1''] Map.empty)" by simp
  obtain g net1 where run: "run_with ?step [pair_put 1 ''v1''] (wd_gateway w, ?net)
      = Some (fst (run_spec (map_step (home (cluster_of w) ?cfg)) [pair_put 1 ''v1''] Map.empty), g, net1)"
    and same: "same_machines ?net net1" by (rule served_as_map [OF w(1) rf ring unnamed closed ready new reads legal])
  then obtain r where "?step (pair_put 1 ''v1'') (wd_gateway w, ?net) = Some (Put_Reply (Answered r), g, net1)"
    by (auto simp: bind_eq_Some_conv split: option.splits)
  note step = answered_put_closed [OF this, of "\<lambda>_. True"] client_step_cluster(2) [OF this]
  have clear: "breaker_state_of (gw_breaker g) n = CLOSED" for n
    using step(1) unfolding w(2) by (simp add: closed_on_def breaker_state_of_def CircuitBreaker_def)
  have cm: "gw_cluster g = cluster_of w" using step(2) by simp
  have "(''other'', 8002) \<notin> dom net1" using same unfolding same_machines_def by simp
  then have "net1 (''other'', 8002) = None" by (simp add: domIff)
  then have may: "may_join ''b'' (''other'', 8002) g net1"
    using only clear by (auto simp: may_join_def cm member_address_def node status_of_def NodeMetadata_def)
  let ?g' = "demo_joined g"
  let ?left = "surviving (cluster_of w) (gw_cluster ?g') ?m"
  have fits: "finite {''k''}" "card {''k''} \<le> 1" "dom ?m \<subseteq> {''k''}" by simp_all
  have legal': "legal_run (map_step (home (gw_cluster ?g') ?cfg)) (legal_within {''k''} (live_address (gw_cluster ?g')) 1) [reread] ?left"
    using demo_key by (simp add: legal_within_def)
  note facts = join_hides_moved_keys [OF w(1) rf ring unnamed closed ready new reads legal m run may sv roomy refl refl fits legal']
  obtain g2 net2 where run': "run_with ?step [reread] (?g', net1((''other'', 8002) \<mapsto> sv))
      = Some (fst (run_spec (map_step (home (gw_cluster ?g') ?cfg)) [reread] ?left), g2, net2)" using facts by blast
  have left: "?left ''k'' = (if get_node_for_key (gw_cluster ?g') ''k'' = Inr (Some ''b'') then None else Some ''v1'')"
    using conjunct1 [OF conjunct2 [OF facts]] by (metis fun_upd_same)
  have "fst (run_spec (map_step (home (gw_cluster ?g') ?cfg)) [reread] ?left)
      = [Get_Reply (if get_node_for_key (gw_cluster ?g') ''k'' = Inr (Some ''b'') then key_not_found
          else Answered \<lparr>gr_key = ''k'', gr_value = ''v1'', gr_node_id = ''node-1'', gr_zone = ''z''\<rparr>)]"
    by (simp add: left sample_config_def del: joined_frame)
  with run' w(1) run may show ?thesis by metis
qed

end
