(* ===== verification/Node_Threads.thy ===== *)
theory Node_Threads
  imports Cache_Server
begin

text \<open>
  The threads of a cache node. The HTTP library serves requests on a pool of threads and every method
  of the cache takes its mutex, so a handler that calls the cache once is one step of the node. The
  handler of PUT calls it twice, \<open>contains\<close> and then \<open>put\<close>, and the handlers of \<open>/health\<close> and \<open>/metrics\<close>
  take the counters before the size: between the two calls the other threads run. Here these
  handlers are two steps each, and the steps of all threads interleave.
\<close>

section \<open>The two halves of a handler\<close>

text \<open>\<open>handle_put\<close> up to its first call of the cache: an answer, or what the second half works with.\<close>

definition put_begin ::
  "'j json_lib \<Rightarrow> ns \<Rightarrow> string \<Rightarrow> string \<Rightarrow> cache_server \<Rightarrow> (node_answer + string \<times> 32 word \<times> bool) option" where
  "put_begin lib now key body sv =
     (case jl_parse lib body of
        None \<Rightarrow> Some (Inl (Answer 400 (Error_Body ''invalid JSON body'' None)))
      | Some req \<Rightarrow>
          if \<not> jl_contains lib req ''value''
          then Some (Inl (Answer 400 (Error_Body (''missing '' @ [CHR 0x27] @ ''value'' @ [CHR 0x27] @ '' field'') None)))
          else (case (jl_string lib req ''value'', jl_value_int lib req ''ttl'' 0) of
              (Some val, Some ttl) \<Rightarrow> do {
                existed \<leftarrow> lru_contains now key (sv_cache sv);
                Some (Inr (val, word_of_int ttl, existed))
              }
            | _ \<Rightarrow> Some (Inl Escaped)))"

definition put_end ::
  "allocator \<Rightarrow> ns \<Rightarrow> string \<Rightarrow> string \<Rightarrow> 32 word \<Rightarrow> bool \<Rightarrow> cache_server \<Rightarrow> (node_answer \<times> cache_server) option" where
  "put_end alloc now key val ttl existed sv = do {
     c \<leftarrow> lru_put alloc now key val ttl (sv_cache sv);
     Some (Answer (if existed then 200 else 201)
             (Stored_Body (if existed then ''updated'' else ''created'') key (nc_node_id (sv_config sv))),
           with_cache sv c)
   }"

definition health_end :: "node_times \<Rightarrow> cache_metrics \<Rightarrow> cache_server \<Rightarrow> node_answer" where
  "health_end t m sv =
     (let cfg = sv_config sv; c = sv_cache sv
      in Answer 200 (Health_Body (nc_node_id cfg) (nc_zone cfg) (nc_port cfg) ((nt_now t - sv_start_time sv) div 1000000000)
           (lru_size c) (lc_capacity c) (hit_ratio m) (nt_memory t) (nt_now t div 1000000)))"

definition metrics_end :: "node_times \<Rightarrow> cache_metrics \<Rightarrow> cache_server \<Rightarrow> node_answer" where
  "metrics_end t m sv =
     (let cfg = sv_config sv; c = sv_cache sv
      in Answer 200 (Metrics_Body (nc_node_id cfg) (nc_zone cfg) m (hit_ratio m) (lru_size c) (lc_capacity c)
           (nt_memory t) (sv_request_count sv)))"

text \<open>One thread after the other, the halves are the handler.\<close>

lemma handle_put_halves:
  "handle_put lib alloc now1 now2 key body sv =
     Option.bind (put_begin lib now1 key body sv) (\<lambda>r. case r of
         Inl a \<Rightarrow> Some (a, sv)
       | Inr (val, ttl, existed) \<Rightarrow> put_end alloc now2 key val ttl existed sv)"
  by (auto simp: handle_put_def put_begin_def put_end_def Option.bind_assoc split: option.splits)

lemma handle_health_halves: "handle_health (nt_now t) (nt_memory t) sv = health_end t (lc_metrics (sv_cache sv)) sv"
  and handle_metrics_halves: "handle_metrics (nt_memory t) sv = metrics_end t (lc_metrics (sv_cache sv)) sv"
  by (simp_all add: handle_health_def handle_metrics_def health_end_def metrics_end_def)

section \<open>The node as its threads run\<close>

text \<open>A request in the middle of its handler, with what it has read of the cache.\<close>

datatype waiting =
    Storing node_times node_request string string "32 word" bool
  | Health_Reading node_times node_request cache_metrics
  | Metrics_Reading node_times node_request cache_metrics

record threads =
  th_server :: cache_server
  th_waiting :: "waiting list"

datatype thread_action =
    Arrive node_times node_request
  | Resume nat ns
  | Purge_Thread "string \<Rightarrow> ns"

text \<open>What a step completes: an answer to a request, with the readings of the clock it took, or a
  purge.\<close>

datatype completion = Served node_times node_request "node_answer option" | Tidied "string \<Rightarrow> ns"

definition arrive ::
  "'j json_lib \<Rightarrow> allocator \<Rightarrow> node_times \<Rightarrow> node_request \<Rightarrow> threads \<Rightarrow> (completion list \<times> threads) option" where
  "arrive lib alloc t q st =
     (let sv = th_server st
      in case (nr_method q, route_key (nr_path q)) of
           (m, Some key) \<Rightarrow>
             if m = ''PUT'' then do {
               r \<leftarrow> put_begin lib (nt_now t) key (nr_body q) sv;
               Some (case r of
                   Inl a \<Rightarrow> ([Served t q (Some a)], st\<lparr>th_server := count_request sv\<rparr>)
                 | Inr (val, ttl, existed) \<Rightarrow>
                     ([], st\<lparr>th_server := count_request sv, th_waiting := th_waiting st @ [Storing t q key val ttl existed]\<rparr>))
             }
             else do { (a, sv') \<leftarrow> serve lib alloc t q sv; Some ([Served t q a], st\<lparr>th_server := sv'\<rparr>) }
         | (m, None) \<Rightarrow>
             if m = ''GET'' \<and> nr_path q = ''/health''
             then Some ([], st\<lparr>th_waiting := th_waiting st @ [Health_Reading t q (lc_metrics (sv_cache sv))]\<rparr>)
             else if m = ''GET'' \<and> nr_path q = ''/metrics''
             then Some ([], st\<lparr>th_waiting := th_waiting st @ [Metrics_Reading t q (lc_metrics (sv_cache sv))]\<rparr>)
             else do { (a, sv') \<leftarrow> serve lib alloc t q sv; Some ([Served t q a], st\<lparr>th_server := sv'\<rparr>) })"

fun finish_waiting :: "allocator \<Rightarrow> ns \<Rightarrow> waiting \<Rightarrow> cache_server \<Rightarrow> (completion \<times> cache_server) option" where
  "finish_waiting alloc now (Storing t q key val ttl existed) sv = do {
     (a, sv') \<leftarrow> put_end alloc now key val ttl existed sv;
     Some (Served (t\<lparr>nt_later := now\<rparr>) q (Some a), sv')
   }"
| "finish_waiting alloc now (Health_Reading t q m) sv = Some (Served t q (Some (health_end t m sv)), sv)"
| "finish_waiting alloc now (Metrics_Reading t q m) sv = Some (Served t q (Some (metrics_end t m sv)), sv)"

text \<open>An index without a waiting request is a step of no thread.\<close>

fun thread_step ::
  "'j json_lib \<Rightarrow> allocator \<Rightarrow> thread_action \<Rightarrow> threads \<Rightarrow> (completion list \<times> threads) option" where
  "thread_step lib alloc (Arrive t q) st = arrive lib alloc t q st"
| "thread_step lib alloc (Resume i now) st =
     (if i < length (th_waiting st) then do {
        (done, sv) \<leftarrow> finish_waiting alloc now (th_waiting st ! i) (th_server st);
        Some ([done], \<lparr>th_server = sv, th_waiting = take i (th_waiting st) @ drop (Suc i) (th_waiting st)\<rparr>)
      }
      else Some ([], st))"
| "thread_step lib alloc (Purge_Thread clock) st = do {
     sv \<leftarrow> purge_tick clock (th_server st);
     Some ([Tidied clock], st\<lparr>th_server := sv\<rparr>)
   }"

fun thread_run ::
  "'j json_lib \<Rightarrow> allocator \<Rightarrow> thread_action list \<Rightarrow> threads \<Rightarrow> (completion list \<times> threads) option" where
  "thread_run lib alloc [] st = Some ([], st)"
| "thread_run lib alloc (a # as) st = do {
     (h, st1) \<leftarrow> thread_step lib alloc a st;
     (h', st2) \<leftarrow> thread_run lib alloc as st1;
     Some (h @ h', st2)
   }"

section \<open>One request at a time\<close>

text \<open>The requests of a history, one after the other in the order of their completion.\<close>

fun replay ::
  "'j json_lib \<Rightarrow> allocator \<Rightarrow> completion list \<Rightarrow> cache_server \<Rightarrow> (completion list \<times> cache_server) option" where
  "replay lib alloc [] sv = Some ([], sv)"
| "replay lib alloc (Served t q a # h) sv = do {
     (a', sv1) \<leftarrow> serve lib alloc t q sv;
     (h', sv2) \<leftarrow> replay lib alloc h sv1;
     Some (Served t q a' # h', sv2)
   }"
| "replay lib alloc (Tidied clock # h) sv = do {
     sv1 \<leftarrow> purge_tick clock sv;
     (h', sv2) \<leftarrow> replay lib alloc h sv1;
     Some (Tidied clock # h', sv2)
   }"

text \<open>What the interleaving may change of an answer: whether a PUT says created or updated, and the
  counters in a report.\<close>

fun blur :: "node_answer \<Rightarrow> node_answer" where
  "blur (Answer status (Stored_Body s key node)) = Answer 200 (Stored_Body ''updated'' key node)"
| "blur (Answer status (Health_Body n z p up held cap ratio memory stamp)) =
     Answer status (Health_Body n z p up held cap 0 memory stamp)"
| "blur (Answer status (Metrics_Body n z m ratio held cap memory requests)) =
     Answer status (Metrics_Body n z CacheMetrics 0 held cap memory 0)"
| "blur a = a"

fun blurred :: "completion \<Rightarrow> completion" where
  "blurred (Served t q a) = Served t q (map_option blur a)"
| "blurred (Tidied clock) = Tidied clock"

section \<open>The threads follow the sequential node\<close>

text \<open>Two servers that differ in the request counter only.\<close>

definition follows :: "cache_server \<Rightarrow> cache_server \<Rightarrow> bool" where
  "follows sv sv' \<longleftrightarrow> sv_cache sv' = sv_cache sv \<and> sv_config sv' = sv_config sv \<and> sv_start_time sv' = sv_start_time sv"

lemma follows_refl [simp]: "follows sv sv"
  by (simp add: follows_def)

lemma follows_count [simp]: "follows (count_request sv) sv' = follows sv sv'" "follows sv (count_request sv') = follows sv sv'"
  by (simp_all add: follows_def count_request_def)

lemma follows_with_cache [simp]: "follows sv sv' \<Longrightarrow> follows (with_cache sv c) (with_cache sv' c)"
  by (simp add: follows_def with_cache_def)

lemma follows_ok: "follows sv sv' \<Longrightarrow> server_ok cfg sv' = server_ok cfg sv"
  by (simp add: follows_def server_ok_def)

text \<open>Two results whose answers agree up to \<open>blur\<close>.\<close>

definition agree :: "(node_answer \<times> cache_server) option \<Rightarrow> (node_answer \<times> cache_server) option \<Rightarrow> bool" where
  "agree r r' \<longleftrightarrow> (case (r, r') of
       (Some (a, sv), Some (a', sv')) \<Rightarrow> blur a' = blur a \<and> follows sv sv'
     | (None, None) \<Rightarrow> True
     | _ \<Rightarrow> False)"

lemma agree_Some [simp]: "agree (Some (a, sv)) (Some (a', sv')) \<longleftrightarrow> blur a' = blur a \<and> follows sv sv'"
  by (simp add: agree_def)

lemma agree_bind: "(\<And>y. agree (f y) (g y)) \<Longrightarrow> agree (Option.bind x f) (Option.bind x g)"
  by (cases x) (simp_all add: agree_def)

lemma handlers_agree:
  assumes "follows sv sv'"
  shows "agree (handle_get now key sv) (handle_get now key sv')"
    and "agree (handle_put lib alloc now1 now2 key body sv) (handle_put lib alloc now1 now2 key body sv')"
    and "agree (handle_delete key sv) (handle_delete key sv')"
    and "agree (handle_bulk_load lib alloc load body sv) (handle_bulk_load lib alloc load body sv')"
    and "agree (handle_purge clock sv) (handle_purge clock sv')"
  using assms follows_with_cache [OF assms]
  by (auto simp: handle_get_def handle_put_def handle_delete_def handle_bulk_load_def handle_purge_def follows_def
      split: option.split intro!: agree_bind)

lemma readers_agree:
  assumes "follows sv sv'"
  shows "blur (handle_health now memory sv') = blur (handle_health now memory sv)"
    and "blur (handle_metrics memory sv') = blur (handle_metrics memory sv)"
    and "handle_keys clock sv' = handle_keys clock sv"
    and "handle_snapshot now clock sv' = handle_snapshot now clock sv"
  using assms by (simp_all add: follows_def handle_health_def handle_metrics_def handle_keys_def handle_snapshot_def Let_def)

lemma agree_answering: "agree r r' \<Longrightarrow> answering r = Some (a, sv1) \<Longrightarrow>
    \<exists>a' sv2. answering r' = Some (a', sv2) \<and> map_option blur a' = map_option blur a \<and> follows sv1 sv2"
  by (auto simp: agree_def answering_def split: option.splits prod.splits)

lemma agree_reading: "map_option blur r' = map_option blur r \<Longrightarrow> follows sv sv' \<Longrightarrow> reading sv r = Some (a, sv1) \<Longrightarrow>
    \<exists>a' sv2. reading sv' r' = Some (a', sv2) \<and> map_option blur a' = map_option blur a \<and> follows sv1 sv2"
  by (auto simp: reading_def split: option.splits)

lemma serve_follows:
  assumes f: "follows sv sv'" and r: "serve lib alloc t q sv = Some (a, sv1)"
  shows "\<exists>a' sv2. serve lib alloc t q sv' = Some (a', sv2) \<and> map_option blur a' = map_option blur a \<and> follows sv1 sv2"
proof (cases "route_key (nr_path q)")
  case (Some key)
  have "follows (count_request sv) (count_request sv')" using f by simp
  note agrees = handlers_agree [OF this, THEN agree_answering]
  show ?thesis using r f Some by (auto simp: serve_def split: if_splits dest: agrees)
next
  case None
  note agrees = handlers_agree [OF f, THEN agree_answering]
  show ?thesis
    using r f None readers_agree [OF f]
    by (auto simp: serve_def reading_Some split: if_splits dest: agrees elim: agree_reading [rotated 2])
qed

text \<open>What a waiting request was.\<close>

fun waits :: "'j json_lib \<Rightarrow> waiting \<Rightarrow> bool" where
  "waits lib (Storing t q key val ttl existed) \<longleftrightarrow> nr_method q = ''PUT'' \<and> route_key (nr_path q) = Some key
     \<and> (\<exists>j n. jl_parse lib (nr_body q) = Some j \<and> jl_contains lib j ''value'' \<and> jl_string lib j ''value'' = Some val
        \<and> jl_value_int lib j ''ttl'' 0 = Some n \<and> ttl = word_of_int n)"
| "waits lib (Health_Reading t q m) \<longleftrightarrow> nr_method q = ''GET'' \<and> nr_path q = ''/health''"
| "waits lib (Metrics_Reading t q m) \<longleftrightarrow> nr_method q = ''GET'' \<and> nr_path q = ''/metrics''"

text \<open>The second half of a handler, against the whole handler where it ends.\<close>

lemma finish_put:
  assumes ok: "server_ok cfg sv" and alloc: "allocates (nc_cache_capacity cfg) alloc" and f: "follows sv sv'"
    and w: "waits lib (Storing t q key val ttl existed)"
  shows "\<exists>a sv1 a' sv2. finish_waiting alloc now (Storing t q key val ttl existed) sv
      = Some (Served (t\<lparr>nt_later := now\<rparr>) q (Some a), sv1)
    \<and> serve lib alloc (t\<lparr>nt_later := now\<rparr>) q sv' = Some (Some a', sv2) \<and> blur a' = blur a
    \<and> follows sv1 sv2 \<and> server_ok cfg sv1"
proof -
  from w obtain j n where q: "nr_method q = ''PUT''" "route_key (nr_path q) = Some key"
    and j: "jl_parse lib (nr_body q) = Some j" "jl_contains lib j ''value''" "jl_string lib j ''value'' = Some val"
      "jl_value_int lib j ''ttl'' 0 = Some n" and ttl: "ttl = word_of_int n" by auto
  obtain s where s: "implements (sv_cache sv) s" "sp_capacity s = nc_cache_capacity cfg" "sp_ttl s = nc_default_ttl_s cfg"
    "sv_config sv = cfg" using ok by (rule server_okE)
  have same: "sv_cache sv' = sv_cache sv" "sv_config sv' = sv_config sv" using f by (simp_all add: follows_def)
  have "lc_capacity (sv_cache sv) = nc_cache_capacity cfg" using ok by (rule server_okE)
  with lru_put_refines [OF s(1), of alloc now key val ttl] alloc obtain c where
    put: "lru_put alloc now key val ttl (sv_cache sv) = Some c" and c: "implements c (spec_put now key val ttl s)" by auto
  obtain existed' where has: "lru_contains (nt_now t) key (sv_cache sv) = Some existed'"
    using lru_contains_refines [OF s(1), of "nt_now t" key] by blast
  have "handle_put lib alloc (nt_now t) now key (nr_body q) (count_request sv') = Some (Answer (if existed' then 200 else 201)
      (Stored_Body (if existed' then ''updated'' else ''created'') key (nc_node_id cfg)), with_cache (count_request sv') c)"
    using j put has same s(4) by (simp add: handle_put_def ttl)
  moreover have "server_ok cfg (with_cache sv c)" by (rule server_ok_with_cache [OF c]) (simp_all add: s)
  ultimately show ?thesis using put q f s(4) by (simp add: put_end_def serve_def answering_def)
qed

lemma finish_report:
  assumes "w = Health_Reading t q m \<or> w = Metrics_Reading t q m" and "waits lib w" and "follows sv sv'"
  shows "\<exists>a a'. finish_waiting alloc now w sv = Some (Served t q (Some a), sv)
    \<and> serve lib alloc t q sv' = Some (Some a', sv') \<and> blur a' = blur a"
proof -
  have "route_key ''/health'' = None" "route_key ''/metrics'' = None" by (simp_all add: route_key_def)
  with assms show ?thesis
    by (auto simp: serve_def reading_def handle_health_halves handle_metrics_halves health_end_def metrics_end_def follows_def Let_def)
qed

lemma finish_follows:
  assumes "server_ok cfg sv" and "allocates (nc_cache_capacity cfg) alloc" and "follows sv sv'" and "waits lib w"
  shows "\<exists>t q a sv1 a' sv2. finish_waiting alloc now w sv = Some (Served t q (Some a), sv1)
    \<and> serve lib alloc t q sv' = Some (Some a', sv2) \<and> blur a' = blur a \<and> follows sv1 sv2 \<and> server_ok cfg sv1"
proof (cases w)
  case (Storing t q key v ttl existed)
  with finish_put [OF assms(1-3)] assms(4) show ?thesis by blast
next
  case (Health_Reading t q m)
  with finish_report [OF _ assms(4,3)] assms(1,3) show ?thesis by blast
next
  case (Metrics_Reading t q m)
  with finish_report [OF _ assms(4,3)] assms(1,3) show ?thesis by blast
qed

text \<open>The threads and the sequential node after the same history.\<close>

definition tracks :: "'j json_lib \<Rightarrow> node_config \<Rightarrow> threads \<Rightarrow> cache_server \<Rightarrow> bool" where
  "tracks lib cfg st sv \<longleftrightarrow> server_ok cfg (th_server st) \<and> follows (th_server st) sv \<and> list_all (waits lib) (th_waiting st)"

text \<open>What one step owes.\<close>

definition owes ::
  "'j json_lib \<Rightarrow> allocator \<Rightarrow> node_config \<Rightarrow> cache_server \<Rightarrow> (completion list \<times> threads) option \<Rightarrow> bool" where
  "owes lib alloc cfg sv r \<longleftrightarrow> (\<exists>h st h' sv'. r = Some (h, st) \<and> replay lib alloc h sv = Some (h', sv')
     \<and> map blurred h' = map blurred h \<and> tracks lib cfg st sv')"

lemma whole_owes:
  assumes "tracks lib cfg st sv" and alloc: "allocates (nc_cache_capacity cfg) alloc"
  shows "owes lib alloc cfg sv (do { (a, sv') \<leftarrow> serve lib alloc t q (th_server st); Some ([Served t q a], st\<lparr>th_server := sv'\<rparr>) })"
proof -
  have ok: "server_ok cfg (th_server st)" and f: "follows (th_server st) sv" using assms(1) by (simp_all add: tracks_def)
  obtain a sv1 where a: "serve lib alloc t q (th_server st) = Some (a, sv1)" "server_ok cfg sv1"
    using serve_ok [OF ok alloc] by blast
  from serve_follows [OF f a(1)] obtain a' sv2 where "serve lib alloc t q sv = Some (a', sv2)"
    "map_option blur a' = map_option blur a" "follows sv1 sv2" by blast
  with a assms(1) show ?thesis by (auto simp: owes_def tracks_def)
qed

lemma begin_put_owes:
  assumes t: "tracks lib cfg st sv" and q: "nr_method q = ''PUT''" "route_key (nr_path q) = Some key"
  shows "owes lib alloc cfg sv (arrive lib alloc t q st)"
proof -
  let ?sv = "th_server st"
  have ok: "server_ok cfg ?sv" and f: "follows ?sv sv" using t by (simp_all add: tracks_def)
  obtain s where s: "implements (sv_cache ?sv) s" using ok by (rule server_okE)
  obtain existed where has: "lru_contains (nt_now t) key (sv_cache ?sv) = Some existed"
    using lru_contains_refines [OF s, of "nt_now t" key] by blast
  show ?thesis
  proof (cases "put_begin lib (nt_now t) key (nr_body q) ?sv")
    case None
    with has show ?thesis by (auto simp: put_begin_def split: option.splits if_splits)
  next
    case (Some r)
    show ?thesis
    proof (cases r)
      case (Inl a)
      with Some have "\<And>now sv'. handle_put lib alloc (nt_now t) now key (nr_body q) sv' = Some (a, sv')"
        by (auto simp: put_begin_def handle_put_def bind_eq_Some_conv split: option.splits if_splits)
      with Some Inl q t show ?thesis by (simp add: owes_def tracks_def arrive_def serve_def answering_def)
    next
      case (Inr v)
      with Some q t show ?thesis
        by (auto simp: owes_def tracks_def arrive_def put_begin_def bind_eq_Some_conv split: option.splits if_splits)
    qed
  qed
qed

lemma arrive_owes:
  assumes t: "tracks lib cfg st sv" and alloc: "allocates (nc_cache_capacity cfg) alloc"
  shows "owes lib alloc cfg sv (arrive lib alloc t q st)"
proof (cases "route_key (nr_path q)")
  case (Some key)
  with whole_owes [OF t alloc] begin_put_owes [OF t] show ?thesis
    by (cases "nr_method q = ''PUT''") (simp_all add: arrive_def)
next
  case None
  have "owes lib alloc cfg sv (Some ([], st\<lparr>th_waiting := th_waiting st @ [w]\<rparr>))" if "waits lib w" for w
    using t that by (simp add: owes_def tracks_def)
  with None whole_owes [OF t alloc] show ?thesis by (simp add: arrive_def Let_def)
qed

lemma resume_owes:
  assumes t: "tracks lib cfg st sv" and alloc: "allocates (nc_cache_capacity cfg) alloc" and i: "i < length (th_waiting st)"
  shows "owes lib alloc cfg sv (thread_step lib alloc (Resume i now) st)"
proof -
  have ok: "server_ok cfg (th_server st)" and f: "follows (th_server st) sv" using t by (simp_all add: tracks_def)
  have w: "waits lib (th_waiting st ! i)" using t i by (simp add: tracks_def list_all_length)
  have rest: "list_all (waits lib) (take i (th_waiting st) @ drop (Suc i) (th_waiting st))"
    using t set_take_subset [of i "th_waiting st"] set_drop_subset [of "Suc i" "th_waiting st"]
    by (auto simp: tracks_def list_all_iff)
  from finish_follows [OF ok alloc f w, of now] rest i show ?thesis
    by (auto simp: owes_def tracks_def simp del: finish_waiting.simps)
qed

lemma purge_owes:
  assumes t: "tracks lib cfg st sv" and alloc: "allocates (nc_cache_capacity cfg) alloc"
  shows "owes lib alloc cfg sv (thread_step lib alloc (Purge_Thread clock) st)"
proof -
  have ok: "server_ok cfg (th_server st)" and f: "follows (th_server st) sv" using t by (simp_all add: tracks_def)
  from handle_purge_ok(2) [OF ok alloc, of clock] obtain sv1 where "purge_tick clock (th_server st) = Some sv1" "server_ok cfg sv1"
    by blast
  moreover from this have "\<exists>sv2. purge_tick clock sv = Some sv2 \<and> follows sv1 sv2"
    using f by (auto simp: purge_tick_def follows_def with_cache_def bind_eq_Some_conv)
  ultimately show ?thesis using t by (auto simp: owes_def tracks_def)
qed

lemma step_owes:
  "tracks lib cfg st sv \<Longrightarrow> allocates (nc_cache_capacity cfg) alloc \<Longrightarrow> owes lib alloc cfg sv (thread_step lib alloc a st)"
proof (cases a)
  case (Resume i now)
  assume "tracks lib cfg st sv" "allocates (nc_cache_capacity cfg) alloc"
  with Resume resume_owes [of lib cfg st sv alloc i now] show ?thesis
    by (cases "i < length (th_waiting st)") (simp_all add: owes_def)
qed (simp_all add: arrive_owes purge_owes del: thread_step.simps(3))

lemma replay_append:
  "replay lib alloc h sv = Some (r, sv1) \<Longrightarrow> replay lib alloc h' sv1 = Some (r', sv2) \<Longrightarrow>
   replay lib alloc (h @ h') sv = Some (r @ r', sv2)"
  by (induction lib alloc h sv arbitrary: r rule: replay.induct) (fastforce simp: bind_eq_Some_conv)+

lemma run_owes:
  "tracks lib cfg st sv \<Longrightarrow> allocates (nc_cache_capacity cfg) alloc \<Longrightarrow> owes lib alloc cfg sv (thread_run lib alloc as st)"
proof (induction as arbitrary: st sv)
  case (Cons a as)
  from step_owes [OF Cons.prems, of a] obtain h st1 h' sv1 where
    1: "thread_step lib alloc a st = Some (h, st1)" "replay lib alloc h sv = Some (h', sv1)" "map blurred h' = map blurred h"
      "tracks lib cfg st1 sv1" by (auto simp: owes_def)
  from Cons.IH [OF 1(4) Cons.prems(2)] obtain g st2 g' sv2 where
    2: "thread_run lib alloc as st1 = Some (g, st2)" "replay lib alloc g sv1 = Some (g', sv2)" "map blurred g' = map blurred g"
      "tracks lib cfg st2 sv2" by (auto simp: owes_def)
  have "thread_run lib alloc (a # as) st = Some (h @ g, st2)" using 1(1) 2(1) by simp
  moreover have "map blurred (h' @ g') = map blurred (h @ g)" using 1(3) 2(3) by simp
  ultimately show ?case using replay_append [OF 1(2) 2(2)] 2(4) unfolding owes_def by blast
qed (simp add: owes_def)

lemma replay_reachable:
  "replay lib alloc h sv = Some (h', sv') \<Longrightarrow> node_reachable lib alloc cfg sv \<Longrightarrow> node_reachable lib alloc cfg sv'"
  by (induction lib alloc h sv arbitrary: h' rule: replay.induct)
    (auto simp: bind_eq_Some_conv, (metis node_reachable.request node_reachable.tick)+)

section \<open>Properties\<close>



text \<open>Two threads may create the same key. When two PUT requests for a key the node does not hold pass
  their first halves before either passes its second, both are answered 201 created, and the value of
  the one that ends last is held.\<close>

theorem two_threads_create_one_key:
  assumes "node_reachable lib alloc cfg sv" and "allocates (nc_cache_capacity cfg) alloc" and "key_path_ok key"
    and "jl_parse lib body1 = Some j1" and "jl_contains lib j1 ''value''"
    and "jl_string lib j1 ''value'' = Some v1" and "jl_value_int lib j1 ''ttl'' 0 = Some ttl1"
    and "jl_parse lib body2 = Some j2" and "jl_contains lib j2 ''value''"
    and "jl_string lib j2 ''value'' = Some v2" and "jl_value_int lib j2 ''ttl'' 0 = Some ttl2"
    and "lru_contains (nt_now t1) key (sv_cache sv) = Some False" and "lru_contains (nt_now t2) key (sv_cache sv) = Some False"
  shows "\<exists>st s. thread_run lib alloc [Arrive t1 (cache_request ''PUT'' key body1), Arrive t2 (cache_request ''PUT'' key body2),
        Resume 0 now1, Resume 0 now2] \<lparr>th_server = sv, th_waiting = []\<rparr>
      = Some ([Served (t1\<lparr>nt_later := now1\<rparr>) (cache_request ''PUT'' key body1)
            (Some (Answer 201 (Stored_Body ''created'' key (nc_node_id cfg)))),
          Served (t2\<lparr>nt_later := now2\<rparr>) (cache_request ''PUT'' key body2)
            (Some (Answer 201 (Stored_Body ''created'' key (nc_node_id cfg))))], st)
    \<and> implements (sv_cache (th_server st)) s
    \<and> find_entry key (sp_entries s) = Some (entry_of now2 (nc_default_ttl_s cfg) key v2 (word_of_int ttl2))"
proof -
  have ok: "server_ok cfg sv" by (rule node_reachable_ok [OF assms(1,2)])
  obtain s where s: "implements (sv_cache sv) s" "sp_ttl s = nc_default_ttl_s cfg" "sv_config sv = cfg"
    "lc_capacity (sv_cache sv) = nc_cache_capacity cfg" "sp_capacity s = nc_cache_capacity cfg"
    using ok by (rule server_okE)
  let ?s1 = "spec_put now1 key v1 (word_of_int ttl1) s"
  let ?s2 = "spec_put now2 key v2 (word_of_int ttl2) ?s1"
  from lru_put_refines [OF s(1), of alloc now1 key v1 "word_of_int ttl1"] assms(2) s(4) obtain c1 where
    c1: "lru_put alloc now1 key v1 (word_of_int ttl1) (sv_cache sv) = Some c1" "implements c1 ?s1" by auto
  have "lc_capacity c1 = nc_cache_capacity cfg" using implements_capacity [OF c1(2)] s(5) by simp
  with lru_put_refines [OF c1(2), of alloc now2 key v2 "word_of_int ttl2"] assms(2) obtain c2 where
    c2: "lru_put alloc now2 key v2 (word_of_int ttl2) c1 = Some c2" "implements c2 ?s2" by auto
  have "find_entry key (sp_entries ?s2) = Some (entry_of now2 (nc_default_ttl_s cfg) key v2 (word_of_int ttl2))"
    using s(2) by (simp add: spec_put_def Let_def entry_of_def)
  with c1 c2 s(3) assms(3-13) show ?thesis by (simp add: arrive_def put_begin_def put_end_def Let_def) blast
qed

theorem two_threads_create_one_key_witness:
  "\<exists>sv st. node_reachable (sample_lib 0) (first_fit 2) sample_config sv
    \<and> thread_run (sample_lib 0) (first_fit 2) [Arrive (at_time 1) (cache_request ''PUT'' ''k'' ''ok''),
        Arrive (at_time 2) (cache_request ''PUT'' ''k'' ''ok''), Resume 0 3, Resume 0 4] \<lparr>th_server = sv, th_waiting = []\<rparr>
      = Some ([Served ((at_time 1)\<lparr>nt_later := 3\<rparr>) (cache_request ''PUT'' ''k'' ''ok'')
            (Some (Answer 201 (Stored_Body ''created'' ''k'' ''node-1''))),
          Served ((at_time 2)\<lparr>nt_later := 4\<rparr>) (cache_request ''PUT'' ''k'' ''ok'')
            (Some (Answer 201 (Stored_Body ''created'' ''k'' ''node-1'')))], st)"
proof -
  obtain sv where sv: "CacheServer 0 sample_config = Inr sv"
    by (simp add: CacheServer_def LRUCache_def sample_config_def)
  have r: "node_reachable (sample_lib 0) (first_fit 2) sample_config sv" by (rule node_reachable.start [OF sv])
  have new: "lru_contains now ''k'' (sv_cache sv) = Some False" for now
    using sv by (auto simp: CacheServer_def LRUCache_def sample_config_def lru_contains_def)
  have key: "key_path_ok ''k''" by (simp add: key_path_ok_def)
  have id: "nc_node_id sample_config = ''node-1''" by (simp add: sample_config_def)
  have lib: "jl_parse (sample_lib 0) ''ok'' = Some (''v'', 0)" "jl_contains (sample_lib 0) (''v'', 0) ''value''"
    "jl_string (sample_lib 0) (''v'', 0) ''value'' = Some ''v''" "jl_value_int (sample_lib 0) (''v'', 0) ''ttl'' 0 = Some 0"
    by (simp_all add: sample_lib_def)
  from two_threads_create_one_key [OF r sample_allocator key lib lib new new, of "at_time 1" "at_time 2" 3 4] r
  show ?thesis unfolding id by blast
qed

end
