(* ===== verification/Lru_Promises.thy ===== *)
theory Lru_Promises
  imports Lru_Runs
begin

text \<open>
  What the LRU cache of a cache node promises, stated over any sequence of operations on a cache
  fresh from the constructor. The allocator is a parameter: \<open>new\<close> returns memory that is not in
  use as long as fewer than \<open>capacity\<close> nodes are allocated.
\<close>

text \<open>C11 Whatever operations run, one after the other, no operation follows a dangling pointer,
  frees a node twice or loops for ever, each returns what the abstract LRU cache returns, and the
  heap and the hash map represent the abstract entries in order of recency.\<close>

theorem lru_refines_specification:
  assumes "LRUCache n ttl = Inr c0" and "allocates n alloc"
  shows "\<exists>c. lru_run alloc ops c0 = Some (fst (spec_run ops (new_spec n ttl)), c)
    \<and> implements c (snd (spec_run ops (new_spec n ttl)))"
  using assms by (rule new_run_refines)

definition sample_ops :: "lru_op list" where
  "sample_ops = [Put 0 ''a'' ''1'' 0, Put 0 ''b'' ''2'' 1, Get 5 ''a'', Put 7 ''c'' ''3'' 0, Get 8 ''b'',
     Get 9 ''a'', Remove ''c'', Snapshot 9 (\<lambda>_. 9)]"

lemma sample_results:
  "fst (spec_run sample_ops (new_spec 2 0))
   = [Done, Done, Got (Some ''1''), Done, Got None, Got (Some ''1''), Removed True, Rows [(''a'', ''1'', 0)]]"
  by (simp add: sample_ops_def new_spec_def spec_put_def spec_get_def spec_remove_def spec_snapshot_def
      drop_key_def Let_def expiry_of_def is_expired_def row_of_def remaining_ttl_def live_entry_def)

theorem lru_refines_specification_witness:
  "\<exists>c0 c. LRUCache 2 0 = Inr c0 \<and> lru_run (first_fit 2) sample_ops c0
    = Some ([Done, Done, Got (Some ''1''), Done, Got None, Got (Some ''1''), Removed True, Rows [(''a'', ''1'', 0)]], c)"
proof -
  obtain c0 where "LRUCache 2 0 = Inr c0" by (simp add: LRUCache_def)
  with lru_refines_specification [OF this allocates_first_fit, of sample_ops] sample_results show ?thesis by auto
qed

lemma after_run:
  assumes "LRUCache n ttl = Inr c0" and "allocates n alloc" and "lru_run alloc ops c0 = Some (rs, c)"
  shows "implements c (snd (spec_run ops (new_spec n ttl)))" and "rs = fst (spec_run ops (new_spec n ttl))"
    and "lc_capacity c = n"
proof -
  from new_run_refines [OF assms(1,2), of ops] assms(3)
  show i: "implements c (snd (spec_run ops (new_spec n ttl)))" and "rs = fst (spec_run ops (new_spec n ttl))" by auto
  show "lc_capacity c = n" using implements_capacity [OF i] by (simp add: spec_run_capacity new_spec_def)
qed

text \<open>C35 Whatever operations ran, the cache holds at most \<open>capacity\<close> entries and the heap exactly
  the two sentinels and one node per entry: nothing leaks.\<close>

theorem lru_bounded_and_leak_free:
  assumes "LRUCache n ttl = Inr c0" and "allocates n alloc" and "lru_run alloc ops c0 = Some (rs, c)"
  shows "lru_size c \<le> n \<and> card (dom (lc_heap c)) = lru_size c + 2"
proof -
  note i = after_run(1) [OF assms] and cap = after_run(3) [OF assms]
  obtain s where s': "implements c s" using i by blast
  then obtain ps where r: "repr (lc_heap c) (lc_map c) ps" and s: "s = abs_cache c ps" and ok: "spec_ok s"
    by (rule implementsE)
  have size: "lru_size c = length ps" using repr_keys(2) [OF r] by (simp add: lru_size_def)
  with ok s cap have "lru_size c \<le> n" by (simp add: spec_ok_def abs_cache_def)
  moreover
  have "distinct ps" "Head \<notin> set ps" "Tail \<notin> set ps" "dom (lc_heap c) = insert Head (insert Tail (set ps))"
    using r by (auto simp: repr_def owned_def chain_def)
  with size have "card (dom (lc_heap c)) = lru_size c + 2" by (simp add: distinct_card)
  ultimately show ?thesis by blast
qed

theorem lru_bounded_and_leak_free_witness:
  "\<exists>c0 c rs. LRUCache 2 0 = Inr c0 \<and> lru_run (first_fit 2) sample_ops c0 = Some (rs, c)
    \<and> lru_size c \<le> 2 \<and> card (dom (lc_heap c)) = lru_size c + 2"
proof -
  obtain c0 where c0: "LRUCache 2 0 = Inr c0" by (simp add: LRUCache_def)
  with new_run_refines [OF this allocates_first_fit, of sample_ops] obtain c rs where
    "lru_run (first_fit 2) sample_ops c0 = Some (rs, c)" by blast
  with lru_bounded_and_leak_free [OF c0 allocates_first_fit this] c0 show ?thesis by blast
qed

text \<open>C17 A hit is never stale. When \<open>get\<close> returns a value, the last operation that wrote or
  removed the key wrote that value, and the expiry of that write has not passed.\<close>

theorem hit_is_last_write:
  assumes "LRUCache n ttl = Inr c0" and "allocates n alloc" and "lru_run alloc ops c0 = Some (rs, c)"
    and "lru_get now k c = Some (Some v, c')"
  shows "\<exists>e. fold (last_write ttl) ops Map.empty k = Some e \<and> ce_value e = v \<and> \<not> is_expired now e"
proof -
  let ?s = "snd (spec_run ops (new_spec n ttl))"
  have "0 < n" using assms(1) by (auto simp: LRUCache_def split: if_splits)
  then have "covered (new_spec n ttl) Map.empty" by (simp add: covered_def new_spec_def spec_ok_def)
  from covered_run [OF this, of ops] have cov: "covered ?s (fold (last_write ttl) ops Map.empty)"
    by (simp add: new_spec_def)
  have "fst (spec_get now k ?s) = Some v"
    using lru_get_refines [OF after_run(1) [OF assms(1-3)], of now k] assms(4) by auto
  then obtain e where "find_entry k (sp_entries ?s) = Some e" "ce_value e = v" "\<not> is_expired now e"
    by (auto simp: spec_get_def Let_def split: option.splits if_splits)
  with cov show ?thesis by (auto simp: covered_def)
qed

theorem hit_is_last_write_witness:
  "\<exists>c0 c rs c'. LRUCache 2 0 = Inr c0
    \<and> lru_run (first_fit 2) [Put 0 ''a'' ''1'' 0, Put 1 ''a'' ''2'' 3] c0 = Some (rs, c)
    \<and> lru_get 4 ''a'' c = Some (Some ''2'', c')
    \<and> (\<exists>e. fold (last_write 0) [Put 0 ''a'' ''1'' 0, Put 1 ''a'' ''2'' 3] Map.empty ''a'' = Some e
        \<and> ce_value e = ''2'' \<and> \<not> is_expired 4 e)"
proof -
  obtain c0 where c0: "LRUCache 2 0 = Inr c0" by (simp add: LRUCache_def)
  let ?ops = "[Put 0 ''a'' ''1'' 0, Put 1 ''a'' ''2'' 3]"
  obtain c rs where run: "lru_run (first_fit 2) ?ops c0 = Some (rs, c)"
    using new_run_refines [OF c0 allocates_first_fit, of ?ops] by blast
  have "fst (spec_get 4 ''a'' (snd (spec_run ?ops (new_spec 2 0)))) = Some ''2''"
    by (simp add: new_spec_def spec_put_def spec_get_def drop_key_def Let_def expiry_of_def is_expired_def make_expiry_def)
  then obtain c' where get: "lru_get 4 ''a'' c = Some (Some ''2'', c')"
    using lru_get_refines [OF after_run(1) [OF c0 allocates_first_fit run], of 4 "''a''"] by metis
  from hit_is_last_write [OF c0 allocates_first_fit run get] c0 run get show ?thesis by blast
qed

text \<open>C18 An entry stays cached while it is in use. After a \<open>put\<close>, as long as no operation
  overwrites, removes or clears the key and fewer than \<open>capacity\<close> other keys are read or written,
  \<open>get\<close> returns the value until it expires: only the least recently used entry is ever evicted.\<close>

theorem cached_until_displaced:
  assumes "LRUCache n ttl = Inr c0" and "allocates n alloc"
    and "lru_run alloc (pre @ Put t k v life # ops) c0 = Some (rs, c)"
    and "\<And>op. op \<in> set ops \<Longrightarrow> spares (entry_of t ttl k v life) op"
    and "card (set (concat (map used_keys ops)) - {k}) < n"
    and "\<not> is_expired now (entry_of t ttl k v life)"
  shows "\<exists>c'. lru_get now k c = Some (Some v, c')"
proof -
  let ?e = "entry_of t ttl k v life" and ?U = "set (concat (map used_keys ops)) - {k}"
  let ?s = "snd (spec_run pre (new_spec n ttl))"
  let ?s1 = "spec_put t k v life ?s"
  have e: "ce_key ?e = k" "ce_value ?e = v" by (simp_all add: entry_of_def)
  have ttl: "sp_ttl ?s = ttl" and cap: "sp_capacity ?s1 = n" by (simp_all add: spec_run_ttl spec_run_capacity new_spec_def)
  have "implements c0 (new_spec n ttl)" by (rule LRUCache_refines [OF assms(1)])
  then have "spec_ok ?s" using new_run_refines [OF assms(1,2), of pre] by (auto simp: implements_def)
  then have ok: "spec_ok ?s1" by (rule spec_ok_put)
  have "\<exists>ys. sp_entries ?s1 = ?e # ys" using ttl by (auto simp: spec_put_def Let_def entry_of_def)
  then have "recent ?U ?e ?s1" using ok by (auto intro: recentI [where xs = "[]"])
  then have "recent ?U ?e (snd (spec_run ops ?s1))"
    using assms(4,5) cap by (intro recent_run) (auto simp: e)
  moreover have "snd (spec_run (pre @ Put t k v life # ops) (new_spec n ttl)) = snd (spec_run ops ?s1)"
    by (simp add: spec_run_append case_prod_beta Let_def)
  ultimately have "find_entry k (sp_entries (snd (spec_run (pre @ Put t k v life # ops) (new_spec n ttl)))) = Some ?e"
    using recent_find e(1) by metis
  then have "fst (spec_get now k (snd (spec_run (pre @ Put t k v life # ops) (new_spec n ttl)))) = Some v"
    using assms(6) e(2) by (simp add: spec_get_def Let_def)
  with lru_get_refines [OF after_run(1) [OF assms(1-3)], of now k] show ?thesis by metis
qed

theorem cached_until_displaced_witness:
  "\<exists>c0 c rs c'. LRUCache 3 0 = Inr c0
    \<and> lru_run (first_fit 3) ([Put 0 ''x'' ''0'' 0] @ Put 1 ''a'' ''1'' 9 # [Put 2 ''b'' ''2'' 0, Get 3 ''a'', Put 4 ''c'' ''3'' 0]) c0
        = Some (rs, c)
    \<and> lru_get 5 ''a'' c = Some (Some ''1'', c')"
proof -
  obtain c0 where c0: "LRUCache 3 0 = Inr c0" by (simp add: LRUCache_def)
  let ?ops = "[Put 2 ''b'' ''2'' 0, Get 3 ''a'', Put 4 ''c'' ''3'' 0]"
  obtain c rs where run: "lru_run (first_fit 3) ([Put 0 ''x'' ''0'' 0] @ Put 1 ''a'' ''1'' 9 # ?ops) c0 = Some (rs, c)"
    using new_run_refines [OF c0 allocates_first_fit] by blast
  have fresh: "\<not> is_expired 5 (entry_of 1 0 ''a'' ''1'' 9)" "spares (entry_of 1 0 ''a'' ''1'' 9) (Get 3 ''a'')"
    by (simp_all add: is_expired_def entry_of_def expiry_of_def make_expiry_def)
  have "\<exists>c'. lru_get 5 ''a'' c = Some (Some ''1'', c')"
    by (rule cached_until_displaced [OF c0 allocates_first_fit run _ _ fresh(1)])
      (use fresh(2) in \<open>auto simp: entry_of_def\<close>)
  with c0 run show ?thesis by blast
qed

text \<open>C36 The destructor ends and frees every node of the list exactly once; only the two sentinels,
  members of the object itself, are left.\<close>

theorem destructor_frees_every_node:
  assumes "LRUCache n ttl = Inr c0" and "allocates n alloc" and "lru_run alloc ops c0 = Some (rs, c)"
  shows "\<exists>h. lru_destroy c = Some h \<and> dom h = {Head, Tail}"
  using after_run(1) [OF assms] by (rule lru_destroy_frees)

theorem destructor_frees_every_node_witness:
  "\<exists>c0 c rs h. LRUCache 2 0 = Inr c0 \<and> lru_run (first_fit 2) sample_ops c0 = Some (rs, c)
    \<and> lru_destroy c = Some h \<and> dom h = {Head, Tail}"
proof -
  obtain c0 where c0: "LRUCache 2 0 = Inr c0" by (simp add: LRUCache_def)
  obtain c rs where run: "lru_run (first_fit 2) sample_ops c0 = Some (rs, c)"
    using new_run_refines [OF c0 allocates_first_fit, of sample_ops] by blast
  with destructor_frees_every_node [OF c0 allocates_first_fit run] c0 show ?thesis by blast
qed

section \<open>Migration\<close>

text \<open>A bulk load of rows with distinct keys into an empty cache with room for them.\<close>

lemma load_into_fresh:
  assumes "LRUCache n d = Inr c0" and "allocates n alloc" and "distinct (map fst rows)" and "length rows \<le> n"
  shows "\<exists>c s. lru_bulk_load alloc load rows c0 = Some c \<and> implements c s \<and> sp_entries s = rev (loaded d load 0 rows)"
proof -
  have i: "implements c0 (new_spec n d)" by (rule LRUCache_refines [OF assms(1)])
  moreover have "lc_capacity c0 = n" using implements_capacity [OF i] by (simp add: new_spec_def)
  ultimately obtain c where "lru_bulk_load alloc load rows c0 = Some c" "implements c (spec_load load 0 rows (new_spec n d))"
    using bulk_loop_refines [of c0 "new_spec n d" alloc load 0 rows] assms(2) by (auto simp: lru_bulk_load_def)
  moreover have "sp_entries (spec_load load 0 rows (new_spec n d)) = rev (loaded d load 0 rows)"
    using assms(3,4) spec_load_fresh [of rows "new_spec n d" load 0] by (simp add: new_spec_def)
  ultimately show ?thesis by blast
qed

lemma get_loaded:
  assumes "implements c s" and "sp_entries s = rev (loaded d load 0 rows)"
    and "j < length rows" and "rows ! j = (k, v, life)" and "\<not> is_expired now (entry_of (load j) d k v life)"
  shows "\<exists>c'. lru_get now k c = Some (Some v, c')"
proof -
  let ?e = "entry_of (load j) d k v life"
  have "?e \<in> set (sp_entries s)" using loaded_nth [OF assms(3,4), of load 0 d] assms(2) by simp
  moreover have "distinct (map ce_key (sp_entries s))" using assms(1) by (simp add: implements_def spec_ok_def)
  ultimately have "find_entry k (sp_entries s) = Some ?e" using find_entry_Some by (auto simp: entry_of_def)
  then have "fst (spec_get now k s) = Some v" using assms(5) by (simp add: spec_get_def Let_def entry_of_def)
  with lru_get_refines [OF assms(1), of now k] show ?thesis by metis
qed

text \<open>C34 Migration keeps the data. A snapshot of any cache, loaded into an empty cache at least as
  large, gives a cache of exactly as many entries in which every entry of the snapshot is found
  under its key with its value until its new expiry.\<close>

theorem snapshot_load_roundtrip:
  assumes "LRUCache n ttl = Inr c0" and "allocates n alloc" and "lru_run alloc ops c0 = Some (rs, c)"
    and "lru_snapshot now clock c = Some rows"
    and "LRUCache n' d = Inr c1" and "allocates n' alloc'" and "n \<le> n'"
  shows "\<exists>c2. lru_bulk_load alloc' load rows c1 = Some c2 \<and> lru_size c2 = length rows
    \<and> (\<forall>j < length rows. \<forall>later k v life. rows ! j = (k, v, life) \<longrightarrow> \<not> is_expired later (entry_of (load j) d k v life)
        \<longrightarrow> (\<exists>c3. lru_get later k c2 = Some (Some v, c3)))"
proof -
  obtain s where i: "implements c s" and cap: "lc_capacity c = n" using after_run [OF assms(1-3)] by blast
  have rows: "rows = map (row_of now) (filter (live_entry clock) (sp_entries s))"
    using assms(4) lru_snapshot_refines [OF i] by (simp add: spec_snapshot_def)
  have ok: "distinct (map ce_key (sp_entries s))" "length (sp_entries s) \<le> n"
    using i cap implements_capacity [OF i] by (auto simp: implements_def spec_ok_def)
  have "map fst rows = map ce_key (filter (live_entry clock) (sp_entries s))" by (simp add: rows row_of_def comp_def)
  then have "distinct (map fst rows)" using ok(1) by (simp add: distinct_map_filter)
  moreover have "length rows \<le> length (sp_entries s)" by (simp add: rows)
  then have "length rows \<le> n'" using ok(2) assms(7) by linarith
  ultimately obtain c2 s2 where load: "lru_bulk_load alloc' load rows c1 = Some c2" "implements c2 s2"
    "sp_entries s2 = rev (loaded d load 0 rows)" using load_into_fresh [OF assms(5,6)] by blast
  have "lru_size c2 = length rows"
    using lru_size_refines [OF load(2)] load(3) arg_cong [OF loaded_keys, of length d load 0 rows] by simp
  with load get_loaded [OF load(2,3)] show ?thesis by blast
qed

theorem snapshot_load_roundtrip_witness:
  "\<exists>c0 c rs c1 c2 c3. LRUCache 2 0 = Inr c0 \<and> lru_run (first_fit 2) sample_ops c0 = Some (rs, c)
    \<and> lru_snapshot 9 (\<lambda>_. 9) c = Some [(''a'', ''1'', 0)] \<and> LRUCache 4 0 = Inr c1
    \<and> lru_bulk_load (first_fit 4) (\<lambda>_. 10) [(''a'', ''1'', 0)] c1 = Some c2 \<and> lru_get 12 ''a'' c2 = Some (Some ''1'', c3)"
proof -
  obtain c0 where c0: "LRUCache 2 0 = Inr c0" by (simp add: LRUCache_def)
  obtain c1 where c1: "LRUCache 4 0 = Inr c1" by (simp add: LRUCache_def)
  obtain c rs where run: "lru_run (first_fit 2) sample_ops c0 = Some (rs, c)"
    using new_run_refines [OF c0 allocates_first_fit, of sample_ops] by blast
  have "spec_snapshot 9 (\<lambda>_. 9) (snd (spec_run sample_ops (new_spec 2 0))) = [(''a'', ''1'', 0)]"
    by (simp add: sample_ops_def new_spec_def spec_put_def spec_get_def spec_remove_def spec_snapshot_def
        drop_key_def Let_def expiry_of_def is_expired_def row_of_def remaining_ttl_def live_entry_def)
  then have snap: "lru_snapshot 9 (\<lambda>_. 9) c = Some [(''a'', ''1'', 0)]"
    using lru_snapshot_refines [OF after_run(1) [OF c0 allocates_first_fit run]] by simp
  have "\<not> is_expired 12 (entry_of 10 0 ''a'' ''1'' 0)" by (simp add: is_expired_def entry_of_def expiry_of_def)
  with snapshot_load_roundtrip [OF c0 allocates_first_fit run snap c1 allocates_first_fit, of "\<lambda>_. 10"] obtain c2 c3 where
    "lru_bulk_load (first_fit 4) (\<lambda>_. 10) [(''a'', ''1'', 0)] c1 = Some c2" "lru_get 12 ''a'' c2 = Some (Some ''1'', c3)"
    by fastforce
  with c0 c1 run snap show ?thesis by blast
qed

text \<open>C37 An entry that is migrated in the last second of its life never expires on the new node.
  Its remaining life is rounded down to 0 seconds, which \<open>put\<close> reads as no expiry when the node has
  no default: from then on \<open>get\<close> returns the value at any later time.\<close>

theorem migrated_last_second_is_permanent:
  assumes "LRUCache n ttl = Inr c0" and "allocates n alloc" and "lru_run alloc [Put t k v life] c0 = Some (rs, c)"
    and "0 < life" and "make_expiry t life - 1000000000 < now" and "now < make_expiry t life"
    and "clock k < make_expiry t life" and "lru_snapshot now clock c = Some rows"
    and "LRUCache n' 0 = Inr c1" and "allocates n' alloc'" and "lru_bulk_load alloc' load rows c1 = Some c2"
  shows "\<exists>c3. lru_get later k c2 = Some (Some v, c3)"
proof -
  have n: "0 < n" "0 < n'" using assms(1,9) by (auto simp: LRUCache_def split: if_splits)
  let ?e = "\<lparr>ce_key = k, ce_value = v, ce_expires_at = Some (make_expiry t life)\<rparr>"
  have i: "implements c (snd (spec_run [Put t k v life] (new_spec n ttl)))" by (rule after_run(1) [OF assms(1-3)])
  have e: "sp_entries (snd (spec_run [Put t k v life] (new_spec n ttl))) = [?e]"
    using n assms(4) by (simp add: new_spec_def spec_put_def Let_def expiry_of_def)
  have "remaining_ttl now ?e = 0" using assms(5,6) by (simp add: remaining_ttl_def Let_def)
  then have "rows = [(k, v, 0)]"
    using lru_snapshot_refines [OF i, of now clock] assms(7,8) e
    by (simp add: spec_snapshot_def live_entry_def is_expired_def row_of_def)
  moreover from this n load_into_fresh [OF assms(9,10), of rows load] assms(11)
  obtain s where "implements c2 s" "sp_entries s = rev (loaded 0 load 0 rows)" by auto
  ultimately show ?thesis
    using get_loaded [of c2 s 0 load rows 0 k v 0 later] by (simp add: is_expired_def entry_of_def expiry_of_def)
qed

theorem migrated_last_second_is_permanent_witness:
  "\<exists>c0 c rs c1 c2. LRUCache 1 0 = Inr c0 \<and> lru_run (first_fit 1) [Put 0 ''a'' ''1'' 1] c0 = Some (rs, c)
    \<and> lru_snapshot 500000000 (\<lambda>_. 500000000) c = Some [(''a'', ''1'', 0)] \<and> LRUCache 1 0 = Inr c1
    \<and> lru_bulk_load (first_fit 1) (\<lambda>_. 600000000) [(''a'', ''1'', 0)] c1 = Some c2
    \<and> (\<exists>c3. lru_get 9000000000000 ''a'' c2 = Some (Some ''1'', c3))"
proof -
  obtain c0 where c0: "LRUCache 1 0 = Inr c0" by (simp add: LRUCache_def)
  obtain c rs where run: "lru_run (first_fit 1) [Put 0 ''a'' ''1'' 1] c0 = Some (rs, c)"
    using new_run_refines [OF c0 allocates_first_fit] by blast
  have "spec_snapshot 500000000 (\<lambda>_. 500000000) (snd (spec_run [Put 0 ''a'' ''1'' 1] (new_spec 1 0))) = [(''a'', ''1'', 0)]"
    by (simp add: new_spec_def spec_put_def spec_snapshot_def Let_def expiry_of_def make_expiry_def is_expired_def
        row_of_def remaining_ttl_def live_entry_def)
  then have snap: "lru_snapshot 500000000 (\<lambda>_. 500000000) c = Some [(''a'', ''1'', 0)]"
    using lru_snapshot_refines [OF after_run(1) [OF c0 allocates_first_fit run]] by simp
  obtain c2 where load: "lru_bulk_load (first_fit 1) (\<lambda>_. 600000000) [(''a'', ''1'', 0)] c0 = Some c2"
    using load_into_fresh [OF c0 allocates_first_fit, of "[(''a'', ''1'', 0)]" "\<lambda>_. 600000000"] by auto
  have "\<exists>c3. lru_get 9000000000000 ''a'' c2 = Some (Some ''1'', c3)"
    by (rule migrated_last_second_is_permanent [OF c0 allocates_first_fit run _ _ _ _ snap c0 allocates_first_fit load])
      (simp_all add: make_expiry_def)
  with c0 run snap load show ?thesis by blast
qed

end
