(* ===== verification/Health_Check_Thread.thy ===== *)
theory Health_Check_Thread
  imports Gateway
begin

text \<open>
  The manual health check of \<open>gateway/app/main.py\<close> with its thread. \<open>check_timeouts\<close> is a plain
  function handed to \<open>BackgroundTasks\<close>, and the framework runs a plain function on a worker thread,
  so the scan of \<open>gateway/app/services/cluster_manager.py\<close> runs beside the handlers on the event loop,
  and beside the scan of the failure detection loop. The model lets other code run between two
  iterations of the scan, and between the list of ALIVE nodes that \<open>_rebuild_hash_ring\<close> makes and the
  assignment of the ring, where the hashing of 160 points per node takes place. An operation on the
  event loop and the rest of an iteration are one step each. A thread that is never disturbed is the
  atomic scan of \<open>Cluster_Manager\<close>, which \<open>Gateway\<close> takes the health check for.
\<close>

section \<open>Model\<close>

text \<open>What a thread has in its local variables: the clock at the start of the scan, the rest and the
  size of the dictionary it iterates over, the nodes found dead, and a ring it has built and not yet
  assigned.\<close>

record check_thread =
  th_now :: time
  th_left :: "string list"
  th_size :: nat
  th_dead :: "string list"
  th_ring :: "hash_ring option option"

datatype thread_state =
    Running check_thread
  | Finished "string list"
  | Failed \<comment> \<open>\<open>RuntimeError: dictionary changed size during iteration\<close>\<close>

definition begin_check :: "time \<Rightarrow> cluster_manager \<Rightarrow> thread_state" where
  "begin_check now cm = Running
     \<lparr>th_now = now, th_left = keys_of (cm_nodes cm), th_size = length (cm_nodes cm), th_dead = [], th_ring = None\<rparr>"

text \<open>The ring \<open>_rebuild_hash_ring\<close> is about to assign.\<close>

definition built_ring :: "cluster_manager \<Rightarrow> hash_ring option" where
  "built_ring cm = (let alive_nodes = alive_ids cm in if alive_nodes = [] then None else Some (HashRing alive_nodes 160))"

text \<open>One iteration of the scan up to the assignment of the ring: the state, whether the node has just
  become DEAD, and the ring to assign.\<close>

definition visit_node ::
  "time \<Rightarrow> (string \<Rightarrow> string) \<Rightarrow> string \<Rightarrow> cluster_manager \<Rightarrow> cluster_manager \<times> string list \<times> hash_ring option option" where
  "visit_node now stamps node_id cm =
     (case map_of (cm_nodes cm) node_id of
        None \<Rightarrow> (cm, [], None)
      | Some node \<Rightarrow>
          if nm_status node = DEAD then (cm, [], None)
          else let time_since_heartbeat = fl (now - nm_last_heartbeat node)
               in if time_since_heartbeat > of_int (heartbeat_timeout_s cm)
                  then let old_status = nm_status node;
                           node1 = node\<lparr>nm_failed_attempts := nm_failed_attempts node + 1\<rparr>
                       in if nm_failed_attempts node1 \<ge> DEAD_THRESHOLD
                          then let cm1 = log_event (stamps node_id) (Node_Dead node_id (round_1 time_since_heartbeat))
                                     (store_node node_id (node1\<lparr>nm_status := DEAD\<rparr>) cm)
                               in (cm1, [node_id], Some (built_ring cm1))
                          else if old_status = ALIVE
                          then (log_event (stamps node_id) (Node_Suspect node_id (nm_failed_attempts node1))
                                  (store_node node_id (node1\<lparr>nm_status := SUSPECT\<rparr>) cm), [], None)
                          else (store_node node_id node1 cm, [], None)
                  else (cm, [], None))"

definition thread_step :: "(string \<Rightarrow> string) \<Rightarrow> check_thread \<Rightarrow> cluster_manager \<Rightarrow> thread_state \<times> cluster_manager" where
  "thread_step stamps t cm =
     (case th_ring t of
        Some built \<Rightarrow> (Running (t\<lparr>th_ring := None\<rparr>), cm\<lparr>cm_ring := built\<rparr>)
      | None \<Rightarrow>
          if length (cm_nodes cm) \<noteq> th_size t then (Failed, cm)
          else (case th_left t of
              [] \<Rightarrow> (Finished (th_dead t), cm)
            | n # ns \<Rightarrow> (case visit_node (th_now t) stamps n cm of (cm', died, built) \<Rightarrow>
                (Running (t\<lparr>th_left := ns, th_dead := th_dead t @ died, th_ring := built\<rparr>), cm'))))"

text \<open>The whole: the event loop with an operation of the cluster manager, a request to
  \<open>/api/health-check\<close> that starts a thread, and a thread that runs on.\<close>

datatype check_event =
    Loop cluster_op
  | Spawn time
  | Run nat "string \<Rightarrow> string"

type_synonym checked = "cluster_manager \<times> thread_state list"

fun check_step :: "checked \<Rightarrow> check_event \<Rightarrow> checked" where
  "check_step (cm, ts) (Loop e) = (cluster_step cm e, ts)"
| "check_step (cm, ts) (Spawn now) = (cm, ts @ [begin_check now cm])"
| "check_step (cm, ts) (Run i stamps) =
     (if i < length ts then
        (case ts ! i of
           Running t \<Rightarrow> (case thread_step stamps t cm of (t', cm') \<Rightarrow> (cm', ts[i := t']))
         | _ \<Rightarrow> (cm, ts))
      else (cm, ts))"

abbreviation check_run :: "checked \<Rightarrow> check_event list \<Rightarrow> checked" where
  "check_run \<equiv> foldl check_step"

text \<open>A thread with a ring it has built and not assigned.\<close>

fun unassigned :: "thread_state \<Rightarrow> hash_ring option option" where
  "unassigned (Running t) = th_ring t"
| "unassigned _ = None"

text \<open>The gateway has no endpoint that takes a node out of the table.\<close>

fun keeps_nodes :: "check_event \<Rightarrow> bool" where
  "keeps_nodes (Loop (Deregister stamp n)) = False"
| "keeps_nodes _ = True"

text \<open>Nothing runs between building a ring and assigning it.\<close>

fun unbroken :: "checked \<Rightarrow> check_event list \<Rightarrow> bool" where
  "unbroken s [] = True"
| "unbroken s (e # es) = ((\<forall>i<length (snd s). unassigned (snd s ! i) \<noteq> None \<longrightarrow> (\<exists>stamps. e = Run i stamps))
     \<and> unbroken (check_step s e) es)"

section \<open>A visit and its rebuild are an iteration of the scan\<close>

lemma rebuild_built: "rebuild_hash_ring cm = cm\<lparr>cm_ring := built_ring cm\<rparr>"
  by (simp add: rebuild_hash_ring_def built_ring_def Let_def)

definition assigned :: "hash_ring option option \<Rightarrow> cluster_manager \<Rightarrow> cluster_manager" where
  "assigned built cm = (case built of None \<Rightarrow> cm | Some r \<Rightarrow> cm\<lparr>cm_ring := r\<rparr>)"

lemma assigned_simps [simp]: "assigned None cm = cm" "assigned (Some r) cm = cm\<lparr>cm_ring := r\<rparr>"
  by (simp_all add: assigned_def)

lemma visit_check:
  assumes "visit_node now stamps n cm = (cm', died, built)"
  shows "check_node now stamps n (cm, dead) = (assigned built cm', dead @ died)"
    and "built = None \<or> built = Some (built_ring cm')"
  using assms by (auto simp: visit_node_def check_node_def rebuild_built Let_def split: option.splits if_splits)

lemma visit_frame:
  assumes "visit_node now stamps n cm = (cm', died, built)"
  shows "keys_of (cm_nodes cm') = keys_of (cm_nodes cm)" and "cm_ring cm' = cm_ring cm"
    and "length (cm_nodes cm') = length (cm_nodes cm)"
proof -
  show k: "keys_of (cm_nodes cm') = keys_of (cm_nodes cm)" and "cm_ring cm' = cm_ring cm"
    using assms by (auto simp: visit_node_def keys_store_present Let_def simp del: set_map split: option.splits if_splits)
  from arg_cong [OF k, of length] show "length (cm_nodes cm') = length (cm_nodes cm)" by simp
qed

lemma thread_visit:
  assumes "th_ring t = None" and "th_left t = n # ns" and "th_size t = length (cm_nodes cm)"
  obtains cm' died built where "visit_node (th_now t) stamps n cm = (cm', died, built)"
    and "thread_step stamps t cm = (Running (t\<lparr>th_left := ns, th_dead := th_dead t @ died, th_ring := built\<rparr>), cm')"
  using assms by (cases "visit_node (th_now t) stamps n cm") (simp add: thread_step_def)

lemma run_visited:
  assumes "i < length ts" and "visit_node now stamps n cm = (cm', died, built)"
  shows "\<exists>k\<in>{1, 2}. check_run (cm, ts[i := Running \<lparr>th_now = now, th_left = n # ns, th_size = length (cm_nodes cm),
      th_dead = dead, th_ring = None\<rparr>]) (replicate k (Run i stamps))
    = (assigned built cm', ts[i := Running \<lparr>th_now = now, th_left = ns, th_size = length (cm_nodes cm),
      th_dead = dead @ died, th_ring = None\<rparr>])"
  using assms by (cases built) (simp_all add: thread_step_def numeral_2_eq_2)

lemma run_alone:
  assumes "i < length ts"
  shows "\<exists>k\<le>2 * length ns + 1. check_run (cm, ts[i := Running \<lparr>th_now = now, th_left = ns, th_size = length (cm_nodes cm),
      th_dead = dead, th_ring = None\<rparr>]) (replicate k (Run i stamps))
    = (fst (fold (check_node now stamps) ns (cm, dead)), ts[i := Finished (snd (fold (check_node now stamps) ns (cm, dead)))])"
proof (induction ns arbitrary: cm dead)
  case Nil
  show ?case using assms by (intro exI [of _ 1]) (simp add: thread_step_def)
next
  case (Cons n ns)
  obtain cm' died built where v: "visit_node now stamps n cm = (cm', died, built)" by (metis surj_pair)
  from run_visited [OF assms v, of ns dead] obtain k where k: "k \<in> {1, 2}"
    "check_run (cm, ts[i := Running \<lparr>th_now = now, th_left = n # ns, th_size = length (cm_nodes cm), th_dead = dead,
      th_ring = None\<rparr>]) (replicate k (Run i stamps))
    = (assigned built cm', ts[i := Running \<lparr>th_now = now, th_left = ns, th_size = length (cm_nodes cm),
      th_dead = dead @ died, th_ring = None\<rparr>])" by blast
  have size: "length (cm_nodes cm) = length (cm_nodes (assigned built cm'))"
    using visit_frame(3) [OF v] by (cases built) simp_all
  from Cons.IH [of "assigned built cm'" "dead @ died"] obtain k' where k': "k' \<le> 2 * length ns + 1"
    "check_run (assigned built cm', ts[i := Running \<lparr>th_now = now, th_left = ns, th_size = length (cm_nodes cm),
      th_dead = dead @ died, th_ring = None\<rparr>]) (replicate k' (Run i stamps))
    = (fst (fold (check_node now stamps) ns (assigned built cm', dead @ died)),
       ts[i := Finished (snd (fold (check_node now stamps) ns (assigned built cm', dead @ died)))])"
    unfolding size [symmetric] by blast
  have "check_run (cm, ts[i := Running \<lparr>th_now = now, th_left = n # ns, th_size = length (cm_nodes cm), th_dead = dead,
      th_ring = None\<rparr>]) (replicate (k + k') (Run i stamps))
    = (fst (fold (check_node now stamps) (n # ns) (cm, dead)),
       ts[i := Finished (snd (fold (check_node now stamps) (n # ns) (cm, dead)))])"
    by (simp add: replicate_add k(2) k'(2) visit_check(1) [OF v])
  moreover have "k + k' \<le> 2 * length (n # ns) + 1" using k(1) k'(1) by auto
  ultimately show ?case by blast
qed

lemma run_finished:
  "i < length ts \<Longrightarrow> ts ! i = Finished dead \<Longrightarrow> check_run (cm, ts) (replicate k (Run i stamps)) = (cm, ts)"
  by (induction k) simp_all

section \<open>The invariant\<close>

text \<open>A ring over nodes of the table.\<close>

definition known_ring :: "cluster_manager \<Rightarrow> hash_ring option \<Rightarrow> bool" where
  "known_ring cm r \<longleftrightarrow> (\<forall>R. r = Some R \<longrightarrow> (\<exists>ns. ns \<noteq> [] \<and> R = HashRing ns 160 \<and> set ns \<subseteq> set (keys_of (cm_nodes cm))))"

definition checked_ok :: "checked \<Rightarrow> bool" where
  "checked_ok s \<longleftrightarrow> cluster_ok (rebuild_hash_ring (fst s)) \<and> known_ring (fst s) (cm_ring (fst s))
     \<and> (\<forall>t\<in>set (snd s). \<forall>r. unassigned t = Some r \<longrightarrow> known_ring (fst s) r)"

lemma alive_known: "set (alive_ids cm) \<subseteq> set (keys_of (cm_nodes cm))"
  by (auto simp: alive_ids_def)

lemma known_built: "known_ring cm (built_ring cm)"
  using alive_known [of cm] by (auto simp: known_ring_def built_ring_def Let_def simp del: set_map split: if_splits)

lemma known_mono:
  "known_ring cm r \<Longrightarrow> set (keys_of (cm_nodes cm)) \<subseteq> set (keys_of (cm_nodes cm')) \<Longrightarrow> known_ring cm' r"
  unfolding known_ring_def by blast

lemma known_None [simp]: "known_ring cm None"
  by (simp add: known_ring_def)

text \<open>Up to the ring, an operation does not depend on the ring.\<close>

definition ringless :: "cluster_manager \<Rightarrow> cluster_manager" where
  "ringless cm = cm\<lparr>cm_ring := None\<rparr>"

lemma ringless_fields:
  assumes "ringless cm = ringless cm'"
  shows "cm_nodes cm = cm_nodes cm'" and "event_log cm = event_log cm'"
    and "heartbeat_timeout_s cm = heartbeat_timeout_s cm'"
    and "replication_factor cm = replication_factor cm'" and "metrics_log cm = metrics_log cm'"
  using assms by (cases cm; cases cm'; simp add: ringless_def)+

lemma ringless_iff: "ringless cm = ringless cm' \<longleftrightarrow> (\<exists>r. cm' = cm\<lparr>cm_ring := r\<rparr>)"
  by (cases cm; cases cm') (auto simp: ringless_def)

lemma ringless_ring [simp]: "ringless (cm\<lparr>cm_ring := r\<rparr>) = ringless cm"
  by (simp add: ringless_def)

lemma ring_commutes [simp]:
  "log_event stamp d (cm\<lparr>cm_ring := r\<rparr>) = (log_event stamp d cm)\<lparr>cm_ring := r\<rparr>"
  "store_node n x (cm\<lparr>cm_ring := r\<rparr>) = (store_node n x cm)\<lparr>cm_ring := r\<rparr>"
  "cm\<lparr>cm_ring := r, cm_nodes := t\<rparr> = cm\<lparr>cm_nodes := t, cm_ring := r\<rparr>"
  "rebuild_hash_ring (cm\<lparr>cm_ring := r\<rparr>) = rebuild_hash_ring cm"
  by (cases cm; simp add: log_event_def store_node_def rebuild_hash_ring_def alive_ids_def Let_def)+

lemma register_ring:
  "register_node now stamp n host port zone cap (cm\<lparr>cm_ring := r\<rparr>) = register_node now stamp n host port zone cap cm"
  by (simp add: register_node_def Let_def)

lemma ringless_check:
  "\<exists>r'. check_node now stamps n (cm\<lparr>cm_ring := r\<rparr>, dead) =
     ((fst (check_node now stamps n (cm, dead)))\<lparr>cm_ring := r'\<rparr>, snd (check_node now stamps n (cm, dead)))"
proof (cases "node_of cm n")
  case (Some node)
  have self: "cm' = cm'\<lparr>cm_ring := cm_ring cm'\<rparr>" for cm' :: cluster_manager by simp
  show ?thesis unfolding check_node_def Let_def prod.case by (auto simp: Some intro: self)
qed (auto simp: check_node_def)

lemma ringless_scan:
  "\<exists>r'. fold (check_node now stamps) ns (cm\<lparr>cm_ring := r\<rparr>, dead) =
     ((fst (fold (check_node now stamps) ns (cm, dead)))\<lparr>cm_ring := r'\<rparr>, snd (fold (check_node now stamps) ns (cm, dead)))"
proof (induction ns arbitrary: cm r dead)
  case (Cons n ns)
  obtain cm1 d1 where c: "check_node now stamps n (cm, dead) = (cm1, d1)" by (metis surj_pair)
  with ringless_check [of now stamps n r cm dead] obtain r1 where
    "check_node now stamps n (cm\<lparr>cm_ring := r\<rparr>, dead) = (cm1\<lparr>cm_ring := r1\<rparr>, d1)" by auto
  with c Cons.IH [of r1 cm1 d1] show ?case by simp
qed auto

lemma ringless_step_at: "ringless (cluster_step (cm\<lparr>cm_ring := r\<rparr>) e) = ringless (cluster_step cm e)"
proof (cases e)
  case (Heartbeat now stamp n m)
  then show ?thesis by (simp add: process_heartbeat_def Let_def split: option.split)
next
  case (Relocate n host port)
  then show ?thesis by (simp add: relocate_node_def split: option.split)
next
  case (Scan now stamps)
  with ringless_scan [of now stamps "keys_of (cm_nodes cm)" r cm "[]"] show ?thesis
    by (auto simp: check_heartbeat_timeouts_def)
next
  case (Register now stamp n host port zone cap)
  then show ?thesis by (simp add: register_ring)
next
  case (Deregister stamp n)
  then show ?thesis by (simp add: deregister_node_def Let_def)
qed

lemma ringless_step: "ringless cm = ringless cm' \<Longrightarrow> ringless (cluster_step cm e) = ringless (cluster_step cm' e)"
  unfolding ringless_iff [of cm cm'] by (auto simp: ringless_step_at)

text \<open>The invariant of the cluster manager but for the ring is that of the manager with its ring rebuilt.\<close>

lemma rebuild_ringless: "ringless cm = ringless cm' \<Longrightarrow> rebuild_hash_ring cm = rebuild_hash_ring cm'"
  unfolding ringless_iff by (auto simp: rebuild_hash_ring_def alive_ids_def Let_def)

lemma rebuilt_ok_ringless: "cluster_ok cm \<Longrightarrow> ringless cm = ringless cm' \<Longrightarrow> cluster_ok (rebuild_hash_ring cm')"
  using rebuild_ringless [of cm cm'] cluster_ok_rebuild [of cm] by (simp add: cluster_ok_def)

lemma rebuilt_ok_step: "cluster_ok (rebuild_hash_ring cm) \<Longrightarrow> cluster_ok (rebuild_hash_ring (cluster_step cm e))"
  using cluster.inv_step [of "rebuild_hash_ring cm" e] rebuilt_ok_ringless ringless_step_at
  by (metis rebuild_built)

text \<open>The ring of an operation is the old ring or one over nodes of the table.\<close>

lemma known_rebuild: "known_ring cm (cm_ring (rebuild_hash_ring cm))"
  by (simp add: rebuild_built known_built)

lemma known_nodes: "cm_nodes cm = cm_nodes cm' \<Longrightarrow> known_ring cm r = known_ring cm' r"
  by (simp add: known_ring_def)

lemma check_ring:
  "cm_ring (fst (check_node now stamps n (cm, dead))) = cm_ring cm
   \<or> known_ring (fst (check_node now stamps n (cm, dead))) (cm_ring (fst (check_node now stamps n (cm, dead))))"
  by (auto simp: check_node_def Let_def known_rebuild known_nodes [OF rebuild_frame(1)] split: option.split)

lemma scan_ring:
  "cm_ring (fst (fold (check_node now stamps) ns (cm, dead))) = cm_ring cm
   \<or> known_ring (fst (fold (check_node now stamps) ns (cm, dead))) (cm_ring (fst (fold (check_node now stamps) ns (cm, dead))))"
proof (induction ns arbitrary: cm dead)
  case (Cons n ns)
  obtain cm1 d1 where c: "check_node now stamps n (cm, dead) = (cm1, d1)" by (metis surj_pair)
  have keys: "keys_of (cm_nodes (fst (fold (check_node now stamps) ns (cm1, d1)))) = keys_of (cm_nodes cm1)"
    by (simp add: fold_check_keys del: set_map)
  have first: "cm_ring cm1 = cm_ring cm \<or> known_ring cm1 (cm_ring cm1)" using check_ring [of now stamps n cm dead] by (simp add: c)
  have rest: "fold (check_node now stamps) (n # ns) (cm, dead) = fold (check_node now stamps) ns (cm1, d1)" by (simp add: c)
  show ?case using Cons.IH [of cm1 d1] first known_mono [of cm1 "cm_ring cm1" "fst (fold (check_node now stamps) ns (cm1, d1))"]
    unfolding rest keys by auto
qed simp

lemma step_ring:
  "cm_ring (cluster_step cm e) = cm_ring cm \<or> known_ring (cluster_step cm e) (cm_ring (cluster_step cm e))"
proof (cases e)
  case (Scan now stamps)
  then show ?thesis using scan_ring by (simp add: check_heartbeat_timeouts_def)
qed (auto simp: register_node_def deregister_node_def relocate_node_def process_heartbeat_def Let_def known_rebuild
    known_nodes [OF log_event_frame(1)] known_nodes [OF rebuild_frame(1)] split: option.split)

lemma step_keeps_keys:
  "keeps_nodes (Loop e) \<Longrightarrow> set (keys_of (cm_nodes cm)) \<subseteq> set (keys_of (cm_nodes (cluster_step cm e)))"
  by (cases e) (auto simp: register_node_def relocate_node_def process_heartbeat_def check_heartbeat_timeouts_def
      fold_check_keys keys_store_present update_keys Let_def simp del: set_map split: option.split)

lemma known_step: "keeps_nodes (Loop e) \<Longrightarrow> known_ring cm r \<Longrightarrow> known_ring (cluster_step cm e) r"
  by (rule known_mono [OF _ step_keeps_keys])

lemma visit_ok:
  assumes ok: "cluster_ok (rebuild_hash_ring cm)" and v: "visit_node now stamps n cm = (cm', died, built)"
  shows "cluster_ok (rebuild_hash_ring cm')" and "known_ring cm r \<Longrightarrow> known_ring cm' r"
    and "known_ring cm (cm_ring cm) \<Longrightarrow> known_ring cm' (cm_ring cm')" and "built = Some r' \<Longrightarrow> known_ring cm' r'"
proof -
  have "cluster_ok (fst (check_node now stamps n (cm\<lparr>cm_ring := built_ring cm\<rparr>, [])))"
    using cluster_ok_check ok by (simp add: rebuild_built)
  then have "cluster_ok (rebuild_hash_ring (assigned built cm'))"
    using ringless_check [of now stamps n "built_ring cm" cm "[]"] visit_check(1) [OF v, of "[]"]
    by (auto intro: rebuilt_ok_ringless)
  then show "cluster_ok (rebuild_hash_ring cm')" by (cases built) simp_all
  show mono: "known_ring cm r \<Longrightarrow> known_ring cm' r" for r
    by (erule known_mono) (simp only: visit_frame(1) [OF v] order_refl)
  then show "known_ring cm (cm_ring cm) \<Longrightarrow> known_ring cm' (cm_ring cm')" by (simp add: visit_frame(2) [OF v])
  show "built = Some r' \<Longrightarrow> known_ring cm' r'" using visit_check(2) [OF v] known_built by auto
qed

lemma thread_step_ok:
  assumes ok: "cluster_ok (rebuild_hash_ring cm)" "known_ring cm (cm_ring cm)" "\<forall>r. th_ring t = Some r \<longrightarrow> known_ring cm r"
    and step: "thread_step stamps t cm = (t', cm')"
  shows "cluster_ok (rebuild_hash_ring cm')" and "known_ring cm' (cm_ring cm')"
    and "unassigned t' = Some r \<Longrightarrow> known_ring cm' r" and "known_ring cm r \<Longrightarrow> known_ring cm' r"
proof -
  have "cluster_ok (rebuild_hash_ring cm') \<and> known_ring cm' (cm_ring cm')
    \<and> (\<forall>r. unassigned t' = Some r \<longrightarrow> known_ring cm' r) \<and> (\<forall>r. known_ring cm r \<longrightarrow> known_ring cm' r)"
  proof (cases "th_ring t")
    case (Some r)
    with step have "t' = Running (t\<lparr>th_ring := None\<rparr>)" "cm' = cm\<lparr>cm_ring := r\<rparr>" by (simp_all add: thread_step_def)
    with ok Some show ?thesis by (auto simp: known_ring_def)
  next
    case None
    show ?thesis
    proof (cases "length (cm_nodes cm) = th_size t \<and> th_left t \<noteq> []")
      case True
      then obtain n ns where t: "th_left t = n # ns" by (cases "th_left t") auto
      with True obtain cm1 died built where v: "visit_node (th_now t) stamps n cm = (cm1, died, built)"
        "thread_step stamps t cm = (Running (t\<lparr>th_left := ns, th_dead := th_dead t @ died, th_ring := built\<rparr>), cm1)"
        using thread_visit [OF None t, of cm] by metis
      with step have "cm' = cm1" "unassigned t' = built" by auto
      with visit_ok [OF ok(1) v(1)] ok(2) show ?thesis by blast
    next
      case False
      with step None ok have "cm' = cm" "unassigned t' = None"
        by (auto simp: thread_step_def split: list.splits if_splits)
      with ok show ?thesis by simp
    qed
  qed
  then show "cluster_ok (rebuild_hash_ring cm')" and "known_ring cm' (cm_ring cm')"
    and "unassigned t' = Some r \<Longrightarrow> known_ring cm' r" and "known_ring cm r \<Longrightarrow> known_ring cm' r" by blast+
qed

lemma checked_ok_thread: "checked_ok (cm, ts) \<Longrightarrow> i < length ts \<Longrightarrow> unassigned (ts ! i) = Some r \<Longrightarrow> known_ring cm r"
  using nth_mem [of i ts] by (auto simp: checked_ok_def)

lemma checked_ok_step:
  assumes ok: "checked_ok (cm, ts)" and keeps: "keeps_nodes e"
  shows "checked_ok (check_step (cm, ts) e)"
proof (cases e)
  case (Loop op)
  from ok have table: "cluster_ok (rebuild_hash_ring cm)" and known: "known_ring cm (cm_ring cm)"
    "\<forall>t\<in>set ts. \<forall>r. unassigned t = Some r \<longrightarrow> known_ring cm r" by (simp_all add: checked_ok_def)
  have mono: "known_ring cm r \<Longrightarrow> known_ring (cluster_step cm op) r" for r using known_step keeps Loop by blast
  then have "known_ring (cluster_step cm op) (cm_ring (cluster_step cm op))" using step_ring [of cm op] known(1) by metis
  with mono known(2) rebuilt_ok_step [OF table] show ?thesis unfolding Loop by (simp add: checked_ok_def)
next
  case (Spawn now)
  with ok show ?thesis by (auto simp: checked_ok_def begin_check_def)
next
  case (Run i stamps)
  show ?thesis
  proof (cases "i < length ts \<and> (\<exists>t. ts ! i = Running t)")
    case True
    then obtain t where t: "i < length ts" "ts ! i = Running t" by blast
    obtain t' cm' where step: "thread_step stamps t cm = (t', cm')" by (metis surj_pair)
    from ok have table: "cluster_ok (rebuild_hash_ring cm)" "known_ring cm (cm_ring cm)" by (simp_all add: checked_ok_def)
    have "\<forall>r. th_ring t = Some r \<longrightarrow> known_ring cm r" using checked_ok_thread [OF ok t(1)] t(2) by simp
    note stepped = thread_step_ok [OF table this step]
    have "\<forall>u\<in>set (ts[i := t']). \<forall>r. unassigned u = Some r \<longrightarrow> known_ring cm' r"
      using stepped(3,4) ok by (auto simp: checked_ok_def dest!: set_update_subset_insert [THEN subsetD])
    with stepped(1,2) show ?thesis by (simp add: Run t step checked_ok_def)
  next
    case False
    then have "check_step (cm, ts) e = (cm, ts)" by (auto simp: Run split: thread_state.split)
    with ok show ?thesis by simp
  qed
qed

lemma checked_ok_run: "checked_ok s \<Longrightarrow> \<forall>e\<in>set es. keeps_nodes e \<Longrightarrow> checked_ok (check_run s es)"
proof (induction es arbitrary: s)
  case (Cons e es)
  then have "checked_ok (check_step s e)" using checked_ok_step [of "fst s" "snd s" e] by simp
  with Cons show ?case by simp
qed simp

lemma checked_ok_start: "cluster_ok cm \<Longrightarrow> checked_ok (cm, [])"
proof -
  assume ok: "cluster_ok cm"
  then have "ring_ok cm" by (simp add: cluster_ok_def)
  then have "known_ring cm (cm_ring cm)" by (force simp: ring_ok_def known_ring_def split: option.splits)
  with ok show ?thesis by (simp add: checked_ok_def rebuilt_ok_ringless)
qed

section \<open>Schedules that leave the rebuild alone\<close>

text \<open>The ring invariant holds, or exactly one thread holds the ring that restores it.\<close>

definition window_ok :: "checked \<Rightarrow> bool" where
  "window_ok s \<longleftrightarrow> (\<forall>t\<in>set (snd s). unassigned t = None) \<and> cluster_ok (fst s)
     \<or> (\<exists>i<length (snd s). unassigned (snd s ! i) = Some (built_ring (fst s))
          \<and> (\<forall>j<length (snd s). j \<noteq> i \<longrightarrow> unassigned (snd s ! j) = None) \<and> cluster_ok (rebuild_hash_ring (fst s)))"

lemma window_closed: "(\<forall>t\<in>set ts. unassigned t = None) \<Longrightarrow> cluster_ok cm \<Longrightarrow> window_ok (cm, ts)"
  by (simp add: window_ok_def)

lemma window_thread:
  assumes rest: "\<forall>j<length ts. j \<noteq> i \<longrightarrow> unassigned (ts ! j) = None" and i: "i < length ts" "ts ! i = Running t"
    and state: "th_ring t = None \<and> cluster_ok cm \<or> th_ring t = Some (built_ring cm) \<and> cluster_ok (rebuild_hash_ring cm)"
  shows "window_ok (check_step (cm, ts) (Run i stamps))"
proof -
  obtain t' cm' where step: "thread_step stamps t cm = (t', cm')" by (metis surj_pair)
  have all: "\<forall>u\<in>set (ts[i := t']). unassigned u = None" if "unassigned t' = None"
    using that rest i(1) by (force simp: in_set_conv_nth nth_list_update)
  have "window_ok (cm', ts[i := t'])"
  proof (cases "th_ring t")
    case (Some r)
    with state have "r = built_ring cm" "cluster_ok (rebuild_hash_ring cm)" by simp_all
    moreover from Some step have "t' = Running (t\<lparr>th_ring := None\<rparr>)" "cm' = cm\<lparr>cm_ring := r\<rparr>"
      by (simp_all add: thread_step_def)
    ultimately show ?thesis using all by (intro window_closed) (simp_all add: rebuild_built)
  next
    case None
    with state have ok: "cluster_ok cm" by simp
    show ?thesis
    proof (cases "length (cm_nodes cm) = th_size t \<and> th_left t \<noteq> []")
      case True
      then obtain n ns where t: "th_left t = n # ns" by (cases "th_left t") auto
      with True obtain cm1 died built where v: "visit_node (th_now t) stamps n cm = (cm1, died, built)"
        "thread_step stamps t cm = (Running (t\<lparr>th_left := ns, th_dead := th_dead t @ died, th_ring := built\<rparr>), cm1)"
        using thread_visit [OF None t, of cm] by metis
      with step have eq: "cm' = cm1" "unassigned t' = built" by auto
      have "cluster_ok (assigned built cm1)" using cluster_ok_check [OF ok] visit_check(1) [OF v(1)] by (metis fst_conv)
      with visit_check(2) [OF v(1)] all rest i(1) show ?thesis unfolding eq(1)
        by (auto simp: eq(2) window_ok_def rebuild_built intro!: exI [of _ i])
    next
      case False
      with step None have "cm' = cm" "unassigned t' = None"
        by (auto simp: thread_step_def split: list.splits if_splits)
      with ok all show ?thesis by (simp add: window_closed)
    qed
  qed
  with i step show ?thesis by simp
qed

lemma window_step:
  assumes ok: "window_ok s" and e: "\<forall>i<length (snd s). unassigned (snd s ! i) \<noteq> None \<longrightarrow> (\<exists>stamps. e = Run i stamps)"
  shows "window_ok (check_step s e)"
proof -
  obtain cm ts where s: "s = (cm, ts)" by (cases s)
  from ok consider (closed) "\<forall>t\<in>set ts. unassigned t = None" "cluster_ok cm"
    | (opened) i where "i < length ts" "unassigned (ts ! i) = Some (built_ring cm)"
        "\<forall>j<length ts. j \<noteq> i \<longrightarrow> unassigned (ts ! j) = None" "cluster_ok (rebuild_hash_ring cm)"
    by (auto simp: window_ok_def s)
  then show ?thesis
  proof cases
    case closed
    show ?thesis
    proof (cases e)
      case (Loop op)
      then show ?thesis using closed cluster.inv_step by (simp add: s window_closed)
    next
      case (Spawn now)
      with closed show ?thesis by (simp add: s window_ok_def begin_check_def)
    next
      case (Run i stamps)
      show ?thesis
      proof (cases "i < length ts \<and> (\<exists>t. ts ! i = Running t)")
        case True
        then obtain t where t: "i < length ts" "ts ! i = Running t" by blast
        with closed have "th_ring t = None" by (metis nth_mem unassigned.simps(1))
        with closed t show ?thesis unfolding s Run by (intro window_thread) auto
      next
        case False
        then have "check_step s e = s" by (auto simp: s Run split: thread_state.split)
        with ok show ?thesis by simp
      qed
    qed
  next
    case opened
    then obtain t where t: "ts ! i = Running t" "th_ring t = Some (built_ring cm)" by (cases "ts ! i") simp_all
    from e opened obtain stamps where "e = Run i stamps" by (auto simp: s)
    with opened t show ?thesis unfolding s by (auto intro!: window_thread simp del: check_step.simps)
  qed
qed

lemma window_run: "window_ok s \<Longrightarrow> unbroken s es \<Longrightarrow> window_ok (check_run s es)"
  by (induction es arbitrary: s) (simp_all add: window_step)

section \<open>A heartbeat in the gap\<close>

lemma visit_dying:
  assumes v: "visit_node now stamps b cm = (cm', died, built)" and b: "node_of cm b = Some nb"
    and dies: "newly_dead_by now (heartbeat_timeout_s cm) nb"
  shows "built = Some (built_ring cm')"
    and "status_of cm' n = (if n = b then Some DEAD else status_of cm n)" and "n \<noteq> b \<Longrightarrow> node_of cm' n = node_of cm n"
proof -
  note check = check_node_nodes [OF b, of now stamps "[]", unfolded visit_check(1) [OF v]]
  have nodes: "cm_nodes cm' = AList.update b (aged now (heartbeat_timeout_s cm) nb) (cm_nodes cm)"
    using check(1) by (cases built) simp_all
  then show "n \<noteq> b \<Longrightarrow> node_of cm' n = node_of cm n" by (simp add: dict_maps)
  show "status_of cm' n = (if n = b then Some DEAD else status_of cm n)"
    using dies nodes by (simp add: status_of_def dict_maps newly_dead_by_def)
  have "died \<noteq> []" using check(4) dies by simp
  then show "built = Some (built_ring cm')" using v
    by (auto simp: visit_node_def Let_def split: option.splits if_splits)
qed

lemma built_ring_lookup:
  assumes "distinct (keys_of (cm_nodes cm))" and "cm_ring cm' = built_ring cm"
  shows "\<exists>n. get_node_for_key cm' key = Inr n \<and> (\<forall>m. n = Some m \<longrightarrow> status_of cm m = Some ALIVE)"
proof (cases "alive_ids cm = []")
  case True
  with assms(2) show ?thesis by (simp add: built_ring_def get_node_for_key_def)
next
  case False
  then show ?thesis using ring160.owner_law [OF False, of key] assms(2) set_alive_ids [OF assms(1)]
    by (auto simp: built_ring_def get_node_for_key_def Let_def)
qed

lemma beats_to_alive:
  assumes "status_of cm c = Some ALIVE"
  shows "status_of (foldl (\<lambda>cm (now, stamp, m). process_heartbeat now stamp c m cm) cm beats) c = Some ALIVE
    \<and> cm_ring (foldl (\<lambda>cm (now, stamp, m). process_heartbeat now stamp c m cm) cm beats) = cm_ring cm"
  using assms
proof (induction beats arbitrary: cm)
  case (Cons beat beats)
  obtain now stamp m where beat: "beat = (now, stamp, m)" by (metis surj_pair)
  from Cons.prems obtain x where "node_of cm c = Some x" "nm_status x = ALIVE" by (auto simp: status_of_def)
  then have "cm_ring (process_heartbeat now stamp c m cm) = cm_ring cm"
    "status_of (process_heartbeat now stamp c m cm) c = Some ALIVE"
    using heartbeat_ring [of cm c x now stamp m] heartbeat_status [OF Cons.prems, of now stamp m] by simp_all
  with Cons.IH [of "process_heartbeat now stamp c m cm"] show ?case by (simp add: beat)
qed simp

lemma run_beats:
  "check_run (cm, ts) (map (\<lambda>(now, stamp, m). Loop (Heartbeat now stamp c m)) beats)
     = (foldl (\<lambda>cm (now, stamp, m). process_heartbeat now stamp c m cm) cm beats, ts)"
  by (induction beats arbitrary: cm) auto

section \<open>Properties\<close>


text \<open>
  Whatever the threads of health checks interleave with on the event loop, the table of nodes and
  the event log keep their invariants, a lookup never raises and answers registered nodes only, and
  the next operation that rebuilds the ring, such as a registration, restores the invariant of the ring.
\<close>

theorem threads_keep_the_table:
  assumes "cluster_ok cm" and "\<forall>e\<in>set es. keeps_nodes e" and "check_run (cm, []) es = (cm', ts)"
  shows "table_ok (cm_nodes cm') \<and> length (event_log cm') \<le> 1000
    \<and> (\<exists>n. get_node_for_key cm' key = Inr n \<and> (\<forall>m. n = Some m \<longrightarrow> node_of cm' m \<noteq> None))
    \<and> (\<exists>rs. get_replicas_for_key cm' key = Inr rs \<and> distinct rs \<and> (\<forall>m\<in>set rs. node_of cm' m \<noteq> None))
    \<and> cluster_ok (register_node now stamp n host port zone cap cm')"
proof -
  from checked_ok_run [OF checked_ok_start [OF assms(1)] assms(2)] assms(3)
  have ok: "cluster_ok (rebuild_hash_ring cm')" "known_ring cm' (cm_ring cm')" by (simp_all add: checked_ok_def)
  then have table: "table_ok (cm_nodes cm') \<and> length (event_log cm') \<le> 1000" by (simp add: cluster_ok_def)
  have known: "node_of cm' m \<noteq> None" if "m \<in> set (keys_of (cm_nodes cm'))" for m
    using that by (simp add: map_of_eq_None_iff)
  have lookup: "\<exists>n. get_node_for_key cm' key = Inr n \<and> (\<forall>m. n = Some m \<longrightarrow> node_of cm' m \<noteq> None)"
    and replicas: "\<exists>rs. get_replicas_for_key cm' key = Inr rs \<and> distinct rs \<and> (\<forall>m\<in>set rs. node_of cm' m \<noteq> None)"
  proof (atomize (full), cases "cm_ring cm'")
    case (Some R)
    with ok(2) obtain ns where ns: "ns \<noteq> []" "R = HashRing ns 160" "set ns \<subseteq> set (keys_of (cm_nodes cm'))"
      by (auto simp: known_ring_def simp del: set_map)
    with ring160.owner_law [OF ns(1), of key] ring160.replicas_law [of ns key "replication_factor cm'"] Some known
    show "(\<exists>n. get_node_for_key cm' key = Inr n \<and> (\<forall>m. n = Some m \<longrightarrow> node_of cm' m \<noteq> None))
      \<and> (\<exists>rs. get_replicas_for_key cm' key = Inr rs \<and> distinct rs \<and> (\<forall>m\<in>set rs. node_of cm' m \<noteq> None))"
      by (fastforce simp: get_node_for_key_def get_replicas_for_key_def simp del: set_map)
  qed (simp add: get_node_for_key_def get_replicas_for_key_def)
  have "cluster_ok (register_node now stamp n host port zone cap (rebuild_hash_ring cm'))" by (rule cluster_ok_register [OF ok(1)])
  then have "cluster_ok (register_node now stamp n host port zone cap cm')"
    by (simp add: rebuild_built [of cm'] register_ring)
  with table lookup replicas show ?thesis by blast
qed


text \<open>
  C15 When the heartbeat of a SUSPECT node arrives just between a thread's building of a ring, for a node
  it has found DEAD, and its assignment, the node becomes ALIVE, but the ring that is then assigned was
  built without it. However many heartbeats it sends afterwards, no key is routed to it, and if no other
  node was ALIVE, no key is routed at all.
\<close>

theorem alive_node_left_off_the_ring:
  assumes ok: "cluster_ok cm" and t: "i < length ts" "ts ! i = Running t" "th_ring t = None" "th_left t = b # ns"
      "th_size t = length (cm_nodes cm)"
    and b: "node_of cm b = Some nb" "newly_dead_by (th_now t) (heartbeat_timeout_s cm) nb"
    and c: "status_of cm c = Some SUSPECT" "c \<noteq> b"
    and run: "check_run (cm, ts) ([Run i stamps, Loop (Heartbeat now stamp c m), Run i stamps]
        @ map (\<lambda>(now, stamp, m). Loop (Heartbeat now stamp c m)) beats) = (cm', ts')"
  shows "status_of cm' c = Some ALIVE \<and> get_node_for_key cm' key \<noteq> Inr (Some c)
    \<and> ((\<forall>n. n \<noteq> b \<longrightarrow> status_of cm n \<noteq> Some ALIVE) \<longrightarrow> get_node_for_key cm' key = Inr None)"
proof -
  from thread_visit [OF t(3-5)] obtain cm1 died built where v: "visit_node (th_now t) stamps b cm = (cm1, died, built)"
    "thread_step stamps t cm = (Running (t\<lparr>th_left := ns, th_dead := th_dead t @ died, th_ring := built\<rparr>), cm1)" by metis
  note dying = visit_dying [OF v(1) b]
  let ?cm2 = "process_heartbeat now stamp c m cm1" and ?t1 = "t\<lparr>th_left := ns, th_dead := th_dead t @ died, th_ring := built\<rparr>"
  have c1: "status_of cm1 c = Some SUSPECT" using dying(2) [of c] c by simp
  from heartbeat_status [OF c1] have alive: "status_of (?cm2\<lparr>cm_ring := built_ring cm1\<rparr>) c = Some ALIVE"
    by (simp add: status_of_def)
  have "check_run (cm, ts) [Run i stamps, Loop (Heartbeat now stamp c m), Run i stamps]
      = (?cm2\<lparr>cm_ring := built_ring cm1\<rparr>, ts[i := Running (?t1\<lparr>th_ring := None\<rparr>)])"
    using t(1,2) v(2) dying(1) by (simp add: thread_step_def)
  with run have cm': "cm' = foldl (\<lambda>cm (now, stamp, m). process_heartbeat now stamp c m cm) (?cm2\<lparr>cm_ring := built_ring cm1\<rparr>) beats"
    unfolding foldl_append by (simp only: run_beats prod.inject)
  have kept: "status_of cm' c = Some ALIVE" "cm_ring cm' = built_ring cm1"
    using beats_to_alive [OF alive, of beats] by (simp_all add: cm')
  have "distinct (keys_of (cm_nodes cm1))" using cluster_ok_keys [OF ok] visit_frame(1) [OF v(1)] by simp
  from built_ring_lookup [OF this kept(2), of key] obtain n where n: "get_node_for_key cm' key = Inr n"
    "\<forall>m. n = Some m \<longrightarrow> status_of cm1 m = Some ALIVE" by blast
  with kept(1) c1 show ?thesis using dying(2) by (cases n) (auto split: if_splits)
qed

section \<open>Witnesses\<close>


text \<open>A node that registers while a thread scans ends the scan with an exception.\<close>

abbreviation demo_disturbed :: "check_event list" where
  "demo_disturbed \<equiv> [Spawn 16, Loop (demo_join ''b''), Run 0 (\<lambda>n. ''t'')]"

theorem threads_keep_the_table_witness:
  "snd (check_run (cluster_run 15 3 [demo_join ''a''], []) demo_disturbed) = [Failed]
    \<and> table_ok (cm_nodes (fst (check_run (cluster_run 15 3 [demo_join ''a''], []) demo_disturbed)))"
proof -
  have "snd (check_run (cluster_run 15 3 [demo_join ''a''], []) demo_disturbed) = [Failed]"
    by (simp add: cluster_eval begin_check_def thread_step_def)
  moreover have "\<forall>e\<in>set demo_disturbed. keeps_nodes e" by simp
  ultimately show ?thesis using threads_keep_the_table [OF cluster_run_ok _ prod.collapse [symmetric]] by blast
qed

text \<open>A node that dies in a thread, with nothing in the gap, and a registration after it.\<close>

abbreviation demo_silent :: cluster_manager where
  "demo_silent \<equiv> cluster_run 15 3 [demo_join ''a'', Scan 16 (\<lambda>n. ''t''), Scan 17 (\<lambda>n. ''t'')]"

abbreviation demo_harmless :: "check_event list" where
  "demo_harmless \<equiv> [Spawn 18, Run 0 (\<lambda>n. ''t''), Run 0 (\<lambda>n. ''t''), Loop (demo_join ''b''), Run 0 (\<lambda>n. ''t'')]"

lemmas check_eval = cluster_eval begin_check_def thread_step_def visit_node_def built_ring_def


abbreviation demo_pair :: cluster_manager where
  "demo_pair \<equiv> cluster_run 15 3 [demo_join ''b'', Scan 16 (\<lambda>n. ''t''), demo_join ''c'', Scan 17 (\<lambda>n. ''t'')]"

abbreviation demo_beat :: heartbeat_metrics where
  "demo_beat \<equiv> \<lparr>m_memory_bytes = None, m_cache_size = None, m_hit_ratio = None, m_uptime_s = None\<rparr>"

abbreviation demo_gap :: "check_event list" where
  "demo_gap \<equiv> [Run 0 (\<lambda>n. ''t''), Loop (Heartbeat 18 ''t'' ''c'' demo_beat), Run 0 (\<lambda>n. ''t'')]
     @ map (\<lambda>(now, stamp, m). Loop (Heartbeat now stamp ''c'' m)) [(19, ''t'', demo_beat)]"

theorem alive_node_left_off_the_ring_witness:
  "status_of (fst (check_run (demo_pair, [begin_check 18 demo_pair]) demo_gap)) ''c'' = Some ALIVE
    \<and> get_node_for_key (fst (check_run (demo_pair, [begin_check 18 demo_pair]) demo_gap)) ''k'' = Inr None"
proof -
  let ?t = "\<lparr>th_now = 18, th_left = [''b'', ''c''], th_size = length (cm_nodes demo_pair), th_dead = [], th_ring = None\<rparr>"
  have t: "[begin_check 18 demo_pair] ! 0 = Running ?t" by (simp add: check_eval)
  obtain nb where b: "node_of demo_pair ''b'' = Some nb" "newly_dead_by 18 (heartbeat_timeout_s demo_pair) nb"
    by (simp add: cluster_eval newly_dead_by_def aged_def)
  have c: "status_of demo_pair ''c'' = Some SUSPECT" and alone: "\<forall>n. n \<noteq> ''b'' \<longrightarrow> status_of demo_pair n \<noteq> Some ALIVE"
    by (simp_all add: cluster_eval)
  have size: "check_thread.th_size ?t = length (cm_nodes demo_pair)" by simp
  from alive_node_left_off_the_ring [OF cluster_run_ok _ t _ _ size b(1) _ c _ prod.collapse [symmetric], of "[''c'']" "\<lambda>n. ''t''" 18 "''t''"
      demo_beat "[(19, ''t'', demo_beat)]" "''k''"] b(2) alone
  show ?thesis by simp
qed

end
